(* ===== verification/TC_Prelude.thy ===== *)
theory TC_Prelude
  imports Main "HOL-Library.Word" "HOL-Library.AList" "HOL-Library.Multiset"
begin

text \<open>
  Shared vocabulary of the development: the machine integers of the C++ code, the ways in
  which a C++ statement can fail, the error monad and the two loop combinators in which
  the handlers are written, and the generic lemmas on lists and words that the components
  use.

  \<^item> \<open>u64\<close>, \<open>u32\<close>, \<open>byte\<close> are the fixed-width integers; arithmetic wraps.
  \<^item> \<open>exn\<close> lists the failures the source can run into: C++ exceptions, failed
    assertions, \<open>exit\<close> and the undefined behaviour of dereferencing an empty
    accessor or \<open>end()\<close>.
  \<^item> \<open>'a res\<close> is the result of a computation that may fail without touching any
    shared state; \<open>'s outcome\<close> is that of a statement on the state \<open>'s\<close>, in which
    the effects made before the failure stay.
  \<^item> \<open>foreach\<close> is a C++ range loop whose body may fail; \<open>decode_each\<close> is one over the
    serialised items of a request.
  \<^item> \<open>server_ids\<close> and \<open>peer_ids\<close> are the index ranges of the loops over the servers,
    which are numbered from one.
\<close>

type_synonym u64 = "64 word"
type_synonym u32 = "32 word"
type_synonym byte = "8 word"
type_synonym bytes = "byte list"

datatype exn =
    NullDeref
  | DivByZero
  | AssertFailed
  | InvalidArgument
  | OutOfRange
  | LibError
  | ProcessExit
  | BadAnyCast

type_synonym 'a res = "exn + 'a"
type_synonym 's outcome = "exn option \<times> 's"

named_theorems op_defs \<open>definitions of the operations of a component\<close>
named_theorems frame \<open>fields that an operation leaves unchanged\<close>
named_theorems keeps_inv \<open>operations that preserve a component's invariant\<close>

text \<open>
  Map lookups stay lookups: the simplifier does not turn them into membership of an
  association list.
\<close>

declare map_of_eq_Some_iff [simp del] Some_eq_map_of_iff [simp del]

subsection \<open>The error monad\<close>

definition bindr :: "'a res \<Rightarrow> ('a \<Rightarrow> 'b res) \<Rightarrow> 'b res" where
  "bindr r f = (case r of Inl e \<Rightarrow> Inl e | Inr x \<Rightarrow> f x)"

definition assertr :: "bool \<Rightarrow> exn \<Rightarrow> unit res" where
  "assertr b e = (if b then Inr () else Inl e)"

fun mapr :: "('a \<Rightarrow> 'b res) \<Rightarrow> 'a list \<Rightarrow> 'b list res" where
  "mapr f [] = Inr []"
| "mapr f (x # xs) = bindr (f x) (\<lambda>y. bindr (mapr f xs) (\<lambda>ys. Inr (y # ys)))"

fun foldr_res :: "('a \<Rightarrow> 's \<Rightarrow> 's res) \<Rightarrow> 'a list \<Rightarrow> 's \<Rightarrow> 's res" where
  "foldr_res f [] s = Inr s"
| "foldr_res f (x # xs) s = bindr (f x s) (foldr_res f xs)"

lemma bindr_simps [simp]:
  "bindr (Inl e) f = Inl e"
  "bindr (Inr x) f = f x"
  by (simp_all add: bindr_def)

lemma bindr_Inr_iff: "bindr r f = Inr y \<longleftrightarrow> (\<exists>x. r = Inr x \<and> f x = Inr y)"
  by (cases r) auto

lemma bindr_Inl_iff: "bindr r f = Inl e \<longleftrightarrow> r = Inl e \<or> (\<exists>x. r = Inr x \<and> f x = Inl e)"
  by (cases r) auto

lemma assertr_simps [simp]:
  "b \<Longrightarrow> assertr b e = Inr ()"
  "\<not> b \<Longrightarrow> assertr b e = Inl e"
  by (simp_all add: assertr_def)

lemma mapr_all_Inr: "(\<And>x. x \<in> set xs \<Longrightarrow> f x = Inr (g x)) \<Longrightarrow> mapr f xs = Inr (map g xs)"
  by (induction xs) auto

lemma mapr_length: "mapr f xs = Inr ys \<Longrightarrow> length ys = length xs"
  by (induction xs arbitrary: ys) (auto simp: bindr_Inr_iff)

lemma foldr_res_total:
  assumes "\<And>x s. x \<in> set xs \<Longrightarrow> f x s = Inr (g x s)"
  shows "foldr_res f xs s = Inr (fold g xs s)"
  using assms by (induction xs arbitrary: s) auto

lemma foldr_res_map: "foldr_res f (map g xs) s = foldr_res (f \<circ> g) xs s"
  by (induction xs arbitrary: s) (auto simp: bindr_def split: sum.splits)

lemma foldr_res_fails:
  assumes "\<And>x s. x \<in> set xs \<Longrightarrow> f x s = (if ok x then Inr (g x s) else Inl e)"
    and "\<exists>x \<in> set xs. \<not> ok x"
  shows "foldr_res f xs s = Inl e"
  using assms by (induction xs arbitrary: s) auto

lemma foldr_res_invariant:
  assumes "foldr_res f xs s = Inr s'" and "I s"
    and "\<And>x s s'. x \<in> set xs \<Longrightarrow> I s \<Longrightarrow> f x s = Inr s' \<Longrightarrow> I s'"
  shows "I s'"
  using assms by (induction xs arbitrary: s) (auto simp: bindr_Inr_iff)

subsection \<open>Loops over a list with a state\<close>

fun foreach :: "('x \<Rightarrow> 's \<Rightarrow> 's outcome) \<Rightarrow> 'x list \<Rightarrow> 's \<Rightarrow> 's outcome" where
  "foreach f [] s = (None, s)"
| "foreach f (x # xs) s =
     (case f x s of
        (None, s') \<Rightarrow> foreach f xs s'
      | (Some e, s') \<Rightarrow> (Some e, s'))"

text \<open>A loop over serialised messages: each is read, then processed.\<close>

definition decode_each ::
  "(bytes \<Rightarrow> 'a res) \<Rightarrow> ('a \<Rightarrow> 's \<Rightarrow> 's outcome) \<Rightarrow> bytes list \<Rightarrow> 's \<Rightarrow> 's outcome" where
  "decode_each from_b item =
     foreach (\<lambda>bs s. case from_b bs of Inl e \<Rightarrow> (Some e, s) | Inr x \<Rightarrow> item x s)"

text \<open>The same loop when the body also depends on the position of the message.\<close>

definition decode_each_at ::
  "(bytes \<Rightarrow> 'a res) \<Rightarrow> (nat \<Rightarrow> 'a \<Rightarrow> 's \<Rightarrow> 's outcome) \<Rightarrow> bytes list \<Rightarrow> 's \<Rightarrow> 's outcome" where
  "decode_each_at from_b item msgs =
     foreach (\<lambda>(j, bs) s. case from_b bs of Inl e \<Rightarrow> (Some e, s) | Inr x \<Rightarrow> item j x s) (enumerate 0 msgs)"

lemma foreach_invariant:
  assumes "I s" and "\<And>x s. x \<in> set xs \<Longrightarrow> I s \<Longrightarrow> I (snd (f x s))"
  shows "I (snd (foreach f xs s))"
  using assms
proof (induction xs arbitrary: s)
  case Nil
  then show ?case by simp
next
  case (Cons x xs)
  obtain r s' where fx: "f x s = (r, s')" by (cases "f x s")
  with Cons.prems(2) [of x s] Cons.prems(1) have "I s'" by simp
  with Cons.IH [of s'] Cons.prems(2) fx show ?case by (auto split: option.splits)
qed

lemma decode_each_invariant:
  assumes "I s" and "\<And>bs x s. bs \<in> set msgs \<Longrightarrow> from_b bs = Inr x \<Longrightarrow> I s \<Longrightarrow> I (snd (item x s))"
  shows "I (snd (decode_each from_b item msgs s))"
  unfolding decode_each_def
  by (rule foreach_invariant [where I = I, OF assms(1)]) (auto split: sum.splits intro: assms(2))

lemma decode_each_at_invariant:
  assumes "I s" and "\<And>j bs x s. bs \<in> set msgs \<Longrightarrow> from_b bs = Inr x \<Longrightarrow> I s \<Longrightarrow> I (snd (item j x s))"
  shows "I (snd (decode_each_at from_b item msgs s))"
  unfolding decode_each_at_def
proof (rule foreach_invariant [where I = I, OF assms(1)])
  fix p s
  assume p: "p \<in> set (enumerate 0 msgs)" and "I s"
  moreover have "snd p \<in> set msgs" using p by (metis set_zip_rightD enumerate_eq_zip prod.collapse)
  ultimately show "I (snd ((case p of (j, bs) \<Rightarrow>
      (\<lambda>s. case from_b bs of Inl e \<Rightarrow> (Some e, s) | Inr x \<Rightarrow> item j x s)) s))"
    using assms(2) by (auto simp: case_prod_beta split: sum.split)
qed

lemma foreach_no_failure:
  assumes "I s"
    and "\<And>x s. x \<in> set xs \<Longrightarrow> I s \<Longrightarrow> fst (f x s) = None \<and> I (snd (f x s))"
  shows "fst (foreach f xs s) = None"
  using assms
proof (induction xs arbitrary: s)
  case Nil
  then show ?case by simp
next
  case (Cons x xs)
  obtain r s' where fx: "f x s = (r, s')" by (cases "f x s")
  with Cons.prems(2) [of x s] Cons.prems(1) have "r = None" and "I s'" by simp_all
  with Cons.IH [of s'] Cons.prems(2) fx show ?case by auto
qed

lemma foreach_append:
  "foreach f (xs @ ys) s =
     (case foreach f xs s of
        (None, s') \<Rightarrow> foreach f ys s'
      | (Some e, s') \<Rightarrow> (Some e, s'))"
  by (induction xs arbitrary: s) (auto split: prod.splits option.splits)

lemma foreach_single: "foreach f [x] s = f x s"
  by (auto split: prod.splits option.splits)

lemma foreach_cong:
  "(\<And>x s. x \<in> set xs \<Longrightarrow> f x s = g x s) \<Longrightarrow> foreach f xs s = foreach g xs s"
  by (induction xs arbitrary: s) (auto split: prod.splits option.splits)

lemma foreach_map: "foreach f (map g xs) s = foreach (\<lambda>x. f (g x)) xs s"
  by (induction xs arbitrary: s) (auto split: prod.splits option.splits)

lemma foreach_fold:
  assumes "\<And>x s. x \<in> set xs \<Longrightarrow> f x s = (None, g x s)"
  shows "foreach f xs s = (None, fold g xs s)"
  using assms by (induction xs arbitrary: s) auto

text \<open>
  What a loop does to an observation \<open>obs\<close> of the state, when each step does it by
  \<open>g\<close>.
\<close>

lemma fold_observe:
  assumes "\<And>x s. x \<in> set xs \<Longrightarrow> obs (f x s) = g x (obs s)"
  shows "obs (fold f xs s) = fold g xs (obs s)"
  using assms by (induction xs arbitrary: s) auto

lemma fold_invariant_set:
  assumes "I s" and "\<And>x s. x \<in> set xs \<Longrightarrow> I s \<Longrightarrow> I (f x s)"
  shows "I (fold f xs s)"
  using assms by (induction xs arbitrary: s) auto

lemma list_preimage:
  assumes "set ys = f ` A"
  shows "\<exists>xs. ys = map f xs \<and> set xs \<subseteq> A"
proof -
  have "\<forall>y \<in> set ys. \<exists>x. y = f x \<and> x \<in> A" using assms by auto
  then obtain g where g: "\<And>y. y \<in> set ys \<Longrightarrow> y = f (g y) \<and> g y \<in> A" by metis
  then have "ys = map f (map g ys)" by (simp add: map_idI)
  moreover have "set (map g ys) \<subseteq> A" using g by auto
  ultimately show ?thesis by blast
qed

subsection \<open>Server numbers\<close>

definition server_ids :: "u64 \<Rightarrow> u64 list" where
  "server_ids n = map (\<lambda>i. word_of_nat (Suc i)) [0..<unat n]"

definition peer_ids :: "u64 \<Rightarrow> u64 \<Rightarrow> u64 list" where
  "peer_ids n self = filter (\<lambda>t. t \<noteq> self) (server_ids n)"

lemma unat_of_nat_le:
  fixes n :: "'a::len word"
  shows "k \<le> unat n \<Longrightarrow> unat (word_of_nat k :: 'a word) = k"
  by (metis le_unat_uoi)

lemma set_server_ids: "set (server_ids n) = {1..n}"
proof
  show "set (server_ids n) \<subseteq> {1..n}"
  proof
    fix w :: u64
    assume "w \<in> set (server_ids n)"
    then obtain i where "i < unat n" and w: "w = word_of_nat (Suc i)"
      by (auto simp: server_ids_def simp del: of_nat_Suc)
    then have "unat w = Suc i" and "Suc i \<le> unat n"
      using unat_of_nat_le [of "Suc i" n] by simp_all
    then show "w \<in> {1..n}" by (simp add: word_le_nat_alt)
  qed
next
  show "{1..n} \<subseteq> set (server_ids n)"
  proof
    fix w :: u64
    assume "w \<in> {1..n}"
    then have "1 \<le> unat w" and "unat w \<le> unat n"
      by (auto simp: word_le_nat_alt)
    then have "unat w - 1 < unat n" and "w = word_of_nat (Suc (unat w - 1))"
      by simp_all
    then show "w \<in> set (server_ids n)"
      unfolding server_ids_def by (auto simp del: of_nat_Suc)
  qed
qed

lemma distinct_server_ids: "distinct (server_ids n)"
proof -
  have "inj_on (\<lambda>i. word_of_nat (Suc i) :: u64) {0..<unat n}"
  proof (rule inj_onI)
    fix i j
    assume "i \<in> {0..<unat n}" "j \<in> {0..<unat n}"
      and eq: "(word_of_nat (Suc i) :: u64) = word_of_nat (Suc j)"
    then have "Suc i \<le> unat n" and "Suc j \<le> unat n" by simp_all
    then have "Suc i = unat (word_of_nat (Suc i) :: u64)"
      and "Suc j = unat (word_of_nat (Suc j) :: u64)"
      by (simp_all only: unat_of_nat_le)
    with eq have "Suc i = Suc j" by simp
    then show "i = j" by simp
  qed
  then show ?thesis by (simp add: server_ids_def distinct_map)
qed

lemma length_server_ids: "length (server_ids n) = unat n"
  by (simp add: server_ids_def)

lemma set_peer_ids: "set (peer_ids n self) = {1..n} - {self}"
  by (auto simp: peer_ids_def set_server_ids)

lemma distinct_peer_ids: "distinct (peer_ids n self)"
  by (simp add: peer_ids_def distinct_server_ids)

end
