(* ===== verification/TC_Containers.thy ===== *)
theory TC_Containers
  imports TC_Prelude
begin

text \<open>
  The containers of the C++ code.

  \<^item> A \<open>oneapi::tbb::concurrent_hash_map\<close> is an association list with distinct keys.
    \<open>chm_insert\<close> is \<open>insert(value_type)\<close>, which keeps an existing entry;
    \<open>chm_assign\<close> is the pair \<open>insert(accessor, key); accessor->second = v\<close>, which
    replaces it; \<open>chm_erase\<close> is \<open>erase\<close>. The order in which the hash map is
    traversed is not specified: the operations that traverse one take a function \<open>ord\<close>
    that rearranges the list, and \<open>visits_all\<close> is what a traversal guarantees.
  \<^item> A \<open>std::map\<close> is an association list with strictly increasing keys, which is also
    its traversal order; \<open>omap_insert\<close> is \<open>insert\<close>, which keeps an existing entry.
  \<^item> A \<open>concurrent_queue\<close> is the list of its elements, oldest first.

  The contracts are the locales \<open>insert_map\<close>, \<open>erase_map\<close> and \<open>fifo\<close>; each is
  interpreted on these definitions.
\<close>

subsection \<open>Contracts\<close>

locale insert_map =
  fixes lookup :: "'m \<Rightarrow> 'k \<Rightarrow> 'v option"
    and ins :: "'k \<Rightarrow> 'v \<Rightarrow> 'm \<Rightarrow> 'm"
    and count :: "'m \<Rightarrow> nat"
    and invar :: "'m \<Rightarrow> bool"
  assumes lookup_ins:
      "invar m \<Longrightarrow> lookup (ins k v m) =
         (if lookup m k = None then (lookup m)(k \<mapsto> v) else lookup m)"
    and invar_ins: "invar m \<Longrightarrow> invar (ins k v m)"
    and finite_lookup: "invar m \<Longrightarrow> finite (dom (lookup m))"
    and count_card: "invar m \<Longrightarrow> count m = card (dom (lookup m))"
begin

lemma lookup_ins_same: "invar m \<Longrightarrow> lookup m k = None \<Longrightarrow> lookup (ins k v m) k = Some v"
  by (simp add: lookup_ins)

lemma lookup_ins_first_wins: "invar m \<Longrightarrow> lookup m k = Some w \<Longrightarrow> lookup (ins k v m) = lookup m"
  by (simp add: lookup_ins)

lemma lookup_ins_keep: "invar m \<Longrightarrow> lookup m j = Some w \<Longrightarrow> lookup (ins k v m) j = Some w"
  by (auto simp: lookup_ins)

lemma dom_ins: "invar m \<Longrightarrow> dom (lookup (ins k v m)) = insert k (dom (lookup m))"
  by (auto simp: lookup_ins domIff)

lemma count_ins:
  "invar m \<Longrightarrow> count (ins k v m) = (if lookup m k = None then Suc (count m) else count m)"
  by (auto simp: count_card invar_ins dom_ins finite_lookup card_insert_if domIff
      insert_absorb)

lemma count_ins_mono: "invar m \<Longrightarrow> count m \<le> count (ins k v m)"
  by (simp add: count_ins)

lemma fold_ins_invar: "invar m \<Longrightarrow> invar (fold (\<lambda>(k, v). ins k v) kvs m)"
  by (induction kvs arbitrary: m) (auto simp: invar_ins)

lemma fold_ins_lookup:
  "invar m \<Longrightarrow> lookup (fold (\<lambda>(k, v). ins k v) kvs m) = map_of kvs ++ lookup m"
proof (induction kvs arbitrary: m)
  case Nil
  then show ?case by simp
next
  case (Cons p kvs)
  obtain k v where p: "p = (k, v)" by (cases p)
  have "map_of kvs ++ lookup (ins k v m) = map_of (p # kvs) ++ lookup m"
    using Cons.prems by (auto simp: p lookup_ins map_add_def fun_eq_iff split: option.splits)
  moreover have "lookup (fold (\<lambda>(k, v). ins k v) kvs (ins k v m)) = map_of kvs ++ lookup (ins k v m)"
    using Cons by (simp add: invar_ins)
  ultimately show ?case by (simp add: p fun_upd_def)
qed

lemma fold_ins_count_le: "invar m \<Longrightarrow> count (fold (\<lambda>(k, v). ins k v) kvs m) \<le> count m + length kvs"
proof (induction kvs arbitrary: m)
  case Nil
  then show ?case by simp
next
  case (Cons p kvs)
  then have "count (fold (\<lambda>(k, v). ins k v) kvs (ins (fst p) (snd p) m))
      \<le> count (ins (fst p) (snd p) m) + length kvs"
    by (simp add: invar_ins)
  moreover have "count (ins (fst p) (snd p) m) \<le> Suc (count m)" using Cons by (simp add: count_ins)
  ultimately show ?case by (cases p) simp
qed

lemma fold_ins_count_mono: "invar m \<Longrightarrow> count m \<le> count (fold (\<lambda>(k, v). ins k v) kvs m)"
proof (induction kvs arbitrary: m)
  case Nil
  then show ?case by simp
next
  case (Cons p kvs)
  then have "count m \<le> count (ins (fst p) (snd p) m)"
    and "count (ins (fst p) (snd p) m)
      \<le> count (fold (\<lambda>(k, v). ins k v) kvs (ins (fst p) (snd p) m))"
    by (simp_all add: invar_ins count_ins_mono)
  then show ?case by (cases p) simp
qed

end

locale erase_map = insert_map lookup ins count invar
  for lookup :: "'m \<Rightarrow> 'k \<Rightarrow> 'v option"
    and ins :: "'k \<Rightarrow> 'v \<Rightarrow> 'm \<Rightarrow> 'm"
    and count :: "'m \<Rightarrow> nat"
    and invar :: "'m \<Rightarrow> bool" +
  fixes assign :: "'k \<Rightarrow> 'v \<Rightarrow> 'm \<Rightarrow> 'm"
    and erase :: "'k \<Rightarrow> 'm \<Rightarrow> 'm"
  assumes lookup_assign: "invar m \<Longrightarrow> lookup (assign k v m) = (lookup m)(k \<mapsto> v)"
    and lookup_erase: "invar m \<Longrightarrow> lookup (erase k m) = (lookup m)(k := None)"
    and invar_assign: "invar m \<Longrightarrow> invar (assign k v m)"
    and invar_erase: "invar m \<Longrightarrow> invar (erase k m)"
begin

lemma erase_ran: "invar m \<Longrightarrow> lookup (erase k m) j = Some v \<Longrightarrow> lookup m j = Some v \<and> j \<noteq> k"
  by (auto simp: lookup_erase split: if_splits)

lemma count_erase:
  "invar m \<Longrightarrow> lookup m k \<noteq> None \<Longrightarrow> Suc (count (erase k m)) = count m"
proof -
  assume i: "invar m" and k: "lookup m k \<noteq> None"
  have "dom (lookup (erase k m)) = dom (lookup m) - {k}"
    using i by (auto simp: lookup_erase)
  moreover have "k \<in> dom (lookup m)" using k by (simp add: domIff)
  ultimately show ?thesis
    using i card.remove [of "dom (lookup m)" k] finite_lookup by (simp add: count_card invar_erase)
qed

lemma fold_erase_invar: "invar m \<Longrightarrow> invar (fold erase ks m)"
  by (induction ks arbitrary: m) (auto simp: invar_erase)

lemma fold_erase_lookup:
  "invar m \<Longrightarrow> lookup (fold erase ks m) = (lookup m) |` (- set ks)"
  by (induction ks arbitrary: m)
    (auto simp: invar_erase lookup_erase restrict_map_def fun_eq_iff)

end

locale fifo =
  fixes push :: "'a \<Rightarrow> 'q \<Rightarrow> 'q"
    and try_pop :: "'q \<Rightarrow> ('a \<times> 'q) option"
    and contents :: "'q \<Rightarrow> 'a list"
  assumes contents_push: "contents (push x q) = contents q @ [x]"
    and try_pop_None: "try_pop q = None \<longleftrightarrow> contents q = []"
    and try_pop_Some: "try_pop q = Some (x, q') \<Longrightarrow> contents q = x # contents q'"
begin

lemma try_pop_shrinks: "try_pop q = Some (x, q') \<Longrightarrow> length (contents q') < length (contents q)"
  by (simp add: try_pop_Some)

lemma pop_in_order:
  "contents q = x # xs \<Longrightarrow> \<exists>q'. try_pop q = Some (x, q') \<and> contents q' = xs"
proof -
  assume c: "contents q = x # xs"
  then obtain y q' where "try_pop q = Some (y, q')"
    by (metis list.distinct(1) option.exhaust surj_pair try_pop_None)
  with c show ?thesis by (auto dest: try_pop_Some)
qed

lemma push_then_pop:
  "contents q = [] \<Longrightarrow> \<exists>q'. try_pop (push x q) = Some (x, q') \<and> contents q' = []"
  by (rule pop_in_order) (simp add: contents_push)

end

subsection \<open>Concurrent hash maps\<close>

type_synonym ('k, 'v) chm = "('k \<times> 'v) list"

definition chm_insert :: "'k \<Rightarrow> 'v \<Rightarrow> ('k, 'v) chm \<Rightarrow> ('k, 'v) chm" where
  "chm_insert k v m = (if map_of m k = None then m @ [(k, v)] else m)"

definition chm_assign :: "'k \<Rightarrow> 'v \<Rightarrow> ('k, 'v) chm \<Rightarrow> ('k, 'v) chm" where
  "chm_assign k v m = AList.update k v m"

definition chm_erase :: "'k \<Rightarrow> ('k, 'v) chm \<Rightarrow> ('k, 'v) chm" where
  "chm_erase k m = AList.delete k m"

abbreviation chm_ok :: "('k, 'v) chm \<Rightarrow> bool" where
  "chm_ok m \<equiv> distinct (map fst m)"

definition visits_all :: "('a list \<Rightarrow> 'a list) \<Rightarrow> bool" where
  "visits_all ord \<longleftrightarrow> (\<forall>xs. mset (ord xs) = mset xs)"

lemma visits_all_id: "visits_all id" and visits_all_rev: "visits_all rev"
  by (simp_all add: visits_all_def)

lemma visits_all_set: "visits_all ord \<Longrightarrow> set (ord xs) = set xs"
  by (metis visits_all_def set_mset_mset)

lemma visits_all_length: "visits_all ord \<Longrightarrow> length (ord xs) = length xs"
  by (metis visits_all_def size_mset)

lemma visits_all_keys:
  "visits_all ord \<Longrightarrow> chm_ok m \<Longrightarrow> chm_ok (ord m)"
  by (metis visits_all_def mset_eq_imp_distinct_iff mset_map)

lemma map_of_None_keys: "map_of m k = None \<longleftrightarrow> k \<notin> fst ` set m"
  by (rule map_of_eq_None_iff)

lemma length_card_dom: "chm_ok m \<Longrightarrow> length m = card (dom (map_of m))"
  by (metis distinct_card dom_map_of_conv_image_fst length_map list.set_map)

interpretation chm: erase_map map_of chm_insert length chm_ok chm_assign chm_erase
proof
  fix m :: "('k, 'v) chm" and k :: 'k and v :: 'v
  assume ok: "chm_ok m"
  show "map_of (chm_insert k v m) = (if map_of m k = None then (map_of m)(k \<mapsto> v) else map_of m)"
    by (auto simp: chm_insert_def map_add_def fun_eq_iff split: option.splits)
  show "chm_ok (chm_insert k v m)"
    using ok by (auto simp: chm_insert_def map_of_None_keys)
  show "finite (dom (map_of m))"
    by (rule finite_dom_map_of)
  show "length m = card (dom (map_of m))"
    using ok by (rule length_card_dom)
  show "map_of (chm_assign k v m) = (map_of m)(k \<mapsto> v)"
    by (simp add: chm_assign_def update_conv')
  show "map_of (chm_erase k m) = (map_of m)(k := None)"
    by (simp add: chm_erase_def delete_conv')
  show "chm_ok (chm_assign k v m)"
    using ok by (simp add: chm_assign_def distinct_update)
  show "chm_ok (chm_erase k m)"
    using ok by (simp add: chm_erase_def distinct_delete)
qed

subsection \<open>Ordered maps\<close>

type_synonym ('k, 'v) omap = "('k \<times> 'v) list"

fun omap_insert :: "'k::linorder \<Rightarrow> 'v \<Rightarrow> ('k, 'v) omap \<Rightarrow> ('k, 'v) omap" where
  "omap_insert k v [] = [(k, v)]"
| "omap_insert k v ((a, b) # m) =
     (if k < a then (k, v) # (a, b) # m
      else if k = a then (a, b) # m
      else (a, b) # omap_insert k v m)"

abbreviation omap_ok :: "('k::linorder, 'v) omap \<Rightarrow> bool" where
  "omap_ok m \<equiv> sorted_wrt (<) (map fst m)"

lemma keys_omap_insert: "fst ` set (omap_insert k v m) = insert k (fst ` set m)"
  by (induction k v m rule: omap_insert.induct) auto

lemma omap_ok_insert: "omap_ok m \<Longrightarrow> omap_ok (omap_insert k v m)"
proof (induction k v m rule: omap_insert.induct)
  case (1 k v)
  then show ?case by simp
next
  case (2 k v a b m)
  have "set (map fst (omap_insert k v m)) = insert k (set (map fst m))"
    using keys_omap_insert [of k v m] by simp
  with "2" show ?case by (cases k a rule: linorder_cases) auto
qed

lemma omap_notin: "omap_ok ((a, b) # m) \<Longrightarrow> k < a \<Longrightarrow> map_of ((a, b) # m) k = None"
  by (auto simp: map_of_None_keys)

lemma map_of_omap_insert:
  "omap_ok m \<Longrightarrow>
     map_of (omap_insert k v m) = (if map_of m k = None then (map_of m)(k \<mapsto> v) else map_of m)"
proof (induction k v m rule: omap_insert.induct)
  case (1 k v)
  then show ?case by simp
next
  case (2 k v a b m)
  show ?case
  proof (cases k a rule: linorder_cases)
    case less
    with "2.prems" show ?thesis using omap_notin [of a b m k] by auto
  next
    case equal
    then show ?thesis by auto
  next
    case greater
    with "2" show ?thesis by (auto simp: fun_eq_iff)
  qed
qed

lemma omap_ok_distinct: "omap_ok m \<Longrightarrow> chm_ok m"
  using strict_sorted_iff by blast

interpretation omap: insert_map map_of omap_insert length omap_ok
proof
  fix m :: "('k::linorder, 'v) omap" and k :: 'k and v :: 'v
  assume ok: "omap_ok m"
  show "map_of (omap_insert k v m) = (if map_of m k = None then (map_of m)(k \<mapsto> v) else map_of m)"
    using ok by (rule map_of_omap_insert)
  show "omap_ok (omap_insert k v m)"
    using ok by (rule omap_ok_insert)
  show "finite (dom (map_of m))"
    by (rule finite_dom_map_of)
  show "length m = card (dom (map_of m))"
    using ok by (intro length_card_dom omap_ok_distinct)
qed

text \<open>
  An ordered map is determined by its lookups, so the order in which its entries were
  inserted does not matter.
\<close>

lemma omap_ext:
  assumes m: "omap_ok m" and m': "omap_ok m'" and eq: "map_of m = map_of m'"
  shows "m = m'"
proof -
  have d: "chm_ok m" "chm_ok m'" using m m' by (auto dest: omap_ok_distinct)
  with eq have s: "set m = set m'"
    by (metis map_of_inject_set)
  have "inj_on fst (set m \<union> set m')" using d s by (simp add: distinct_map)
  moreover have "map fst m = map fst m'"
    using m m' eq by (metis dom_map_of_conv_image_fst list.set_map strict_sorted_equal)
  ultimately show ?thesis
    by (meson map_inj_on)
qed

lemma fold_omap_insert_permuted:
  assumes m: "omap_ok m" and kvs: "chm_ok kvs" and eq: "set kvs = set m"
  shows "fold (\<lambda>(k, v). omap_insert k v) kvs [] = m"
proof (rule omap_ext)
  show "omap_ok (fold (\<lambda>(k, v). omap_insert k v) kvs [])"
    by (rule omap.fold_ins_invar) simp
  show "omap_ok m" by (rule m)
  have "map_of kvs = map_of m"
    using m kvs eq by (metis map_of_inject_set omap_ok_distinct)
  then show "map_of (fold (\<lambda>(k, v). omap_insert k v) kvs []) = map_of m"
    using omap.fold_ins_lookup [of "[]" kvs] by simp
qed

subsection \<open>Concurrent queues\<close>

definition push :: "'a \<Rightarrow> 'a list \<Rightarrow> 'a list" where
  "push x q = q @ [x]"

fun try_pop :: "'a list \<Rightarrow> ('a \<times> 'a list) option" where
  "try_pop [] = None"
| "try_pop (x # q) = Some (x, q)"

lemma try_pop_Some_iff: "try_pop q = Some (x, q') \<longleftrightarrow> q = x # q'"
  by (cases q) auto

interpretation lq: fifo push try_pop "\<lambda>q. q"
  by unfold_locales (auto simp: push_def try_pop_Some_iff elim: try_pop.elims)

text \<open>The loop \<open>while (q.try_pop(x)) out.add(f(x))\<close>: the outputs and the queue left.\<close>

function pop_all :: "('a \<Rightarrow> 'b) \<Rightarrow> 'a list \<Rightarrow> 'b list \<times> 'a list" where
  "pop_all f q =
     (case try_pop q of
        None \<Rightarrow> ([], q)
      | Some (x, q') \<Rightarrow> (let (ys, r) = pop_all f q' in (f x # ys, r)))"
  by pat_completeness auto
termination
  by (relation "measure (\<lambda>(f, q). length q)") (auto dest: lq.try_pop_shrinks)

declare pop_all.simps [simp del]

lemma pop_all_eq: "pop_all f q = (map f q, [])"
  by (induction q) (simp_all add: pop_all.simps)

text \<open>Pushing into one queue of a \<open>std::map\<close> of queues; \<open>find(k)\<close> may be \<open>end()\<close>.\<close>

definition push_at :: "'k \<Rightarrow> 'a \<Rightarrow> ('k \<times> 'a list) list \<Rightarrow> ('k \<times> 'a list) list res" where
  "push_at k x qs =
     (case map_of qs k of
        None \<Rightarrow> Inl NullDeref
      | Some q \<Rightarrow> Inr (AList.update k (push x q) qs))"

definition push_all :: "'a \<Rightarrow> ('k \<times> 'a list) list \<Rightarrow> ('k \<times> 'a list) list" where
  "push_all x qs = map (\<lambda>(k, q). (k, push x q)) qs"

lemma keys_update: "map_of qs k = Some v \<Longrightarrow> map fst (AList.update k w qs) = map fst qs"
  by (induction qs) (auto split: if_splits)

lemma push_at_Some:
  "map_of qs k = Some q \<Longrightarrow> push_at k x qs = Inr (AList.update k (q @ [x]) qs)"
  by (simp add: push_at_def push_def)

lemma push_at_keys: "push_at k x qs = Inr qs' \<Longrightarrow> map fst qs' = map fst qs"
  by (auto simp: push_at_def keys_update split: option.splits)

lemma push_at_lookup:
  "push_at k x qs = Inr qs' \<Longrightarrow>
     map_of qs' = (map_of qs)(k \<mapsto> the (map_of qs k) @ [x]) \<and> map_of qs k \<noteq> None"
  by (auto simp: push_at_def push_def update_conv' split: option.splits)

lemma push_all_keys [simp]: "map fst (push_all x qs) = map fst qs"
  by (simp add: push_all_def case_prod_beta comp_def)

lemma push_all_lookup: "map_of (push_all x qs) k = map_option (\<lambda>q. q @ [x]) (map_of qs k)"
  by (induction qs) (auto simp: push_all_def push_def)

end
