(* ===== verification/TC_Strings.thy ===== *)
theory TC_Strings
  imports TC_Prelude
begin

text \<open>
  The two conversions of the C++ standard library that the code relies on to carry
  identifiers through string keys: \<open>std::to_string\<close> on \<open>uint64_t\<close> and
  \<open>std::stoi\<close>. The first prints a 64-bit number; the second skips white space, takes an
  optional sign and the longest run of digits, and fails when there is no digit or when
  the number does not fit a 32-bit \<open>int\<close>.
\<close>

definition digit_char :: "nat \<Rightarrow> char" where
  "digit_char d = char_of (48 + d)"

fun nat_to_string :: "nat \<Rightarrow> string" where
  "nat_to_string n =
     (if n < 10 then [digit_char n] else nat_to_string (n div 10) @ [digit_char (n mod 10)])"

declare nat_to_string.simps [simp del]

definition to_string :: "u64 \<Rightarrow> string" where
  "to_string w = nat_to_string (unat w)"

definition is_digit :: "char \<Rightarrow> bool" where
  "is_digit c \<longleftrightarrow> 48 \<le> (of_char c :: nat) \<and> (of_char c :: nat) \<le> 57"

definition is_space :: "char \<Rightarrow> bool" where
  "is_space c \<longleftrightarrow> (of_char c :: nat) = 32 \<or> (9 \<le> (of_char c :: nat) \<and> (of_char c :: nat) \<le> 13)"

definition digits_value :: "string \<Rightarrow> nat" where
  "digits_value s = foldl (\<lambda>n c. 10 * n + (of_char c - 48)) 0 s"

fun split_sign :: "string \<Rightarrow> bool \<times> string" where
  "split_sign [] = (False, [])"
| "split_sign (c # s) =
     (if c = CHR ''-'' then (True, s)
      else if c = CHR ''+'' then (False, s)
      else (False, c # s))"

definition INT_MAX :: int where
  "INT_MAX = 2147483647"

definition stoi :: "string \<Rightarrow> int res" where
  "stoi s =
     (let (neg, t) = split_sign (dropWhile is_space s);
          ds = takeWhile is_digit t;
          v = (if neg then - int (digits_value ds) else int (digits_value ds))
      in if ds = [] then Inl InvalidArgument
         else if v < - INT_MAX - 1 \<or> INT_MAX < v then Inl OutOfRange
         else Inr v)"

lemma of_char_digit: "d < 10 \<Longrightarrow> (of_char (digit_char d) :: nat) = 48 + d"
  by (simp add: digit_char_def)

lemma digit_char_is_digit: "d < 10 \<Longrightarrow> is_digit (digit_char d)"
  by (simp add: is_digit_def of_char_digit)

lemma digits_value_snoc: "digits_value (s @ [c]) = 10 * digits_value s + (of_char c - 48)"
  by (simp add: digits_value_def)

lemma nat_to_string_digits: "\<forall>c \<in> set (nat_to_string n). is_digit c"
proof (induction n rule: nat_to_string.induct)
  case (1 n)
  then show ?case
    by (cases "n < 10") (simp_all add: nat_to_string.simps [of n] digit_char_is_digit)
qed

lemma nat_to_string_nonempty: "nat_to_string n \<noteq> []"
  by (subst nat_to_string.simps) simp

lemma digits_value_nat_to_string: "digits_value (nat_to_string n) = n"
proof (induction n rule: nat_to_string.induct)
  case (1 n)
  show ?case
  proof (cases "n < 10")
    case True
    then show ?thesis
      by (simp add: nat_to_string.simps [of n] digits_value_def of_char_digit)
  next
    case False
    with "1" show ?thesis
      by (simp add: nat_to_string.simps [of n] digits_value_snoc of_char_digit)
  qed
qed

lemma nat_to_string_inj: "nat_to_string m = nat_to_string n \<Longrightarrow> m = n"
  by (metis digits_value_nat_to_string)

lemma to_string_inj: "to_string v = to_string w \<longleftrightarrow> v = w"
  by (metis to_string_def nat_to_string_inj word_unat_eq_iff)

lemma digit_not_sign: "is_digit c \<Longrightarrow> c \<noteq> CHR ''-'' \<and> c \<noteq> CHR ''+'' \<and> \<not> is_space c"
  by (auto simp: is_digit_def is_space_def)

lemma stoi_digits:
  assumes "s \<noteq> []" and "\<forall>c \<in> set s. is_digit c"
  shows "stoi s =
    (if INT_MAX < int (digits_value s) then Inl OutOfRange else Inr (int (digits_value s)))"
proof -
  obtain c t where s: "s = c # t" using assms(1) by (cases s) auto
  with assms(2) have "is_digit c" by simp
  then have "dropWhile is_space s = s" and "split_sign s = (False, s)"
    using digit_not_sign [of c] by (simp_all add: s)
  moreover have "takeWhile is_digit s = s"
    using assms(2) by (simp add: takeWhile_eq_all_conv)
  moreover have "\<not> int (digits_value s) < - INT_MAX - 1"
    by (simp add: INT_MAX_def)
  ultimately show ?thesis using assms(1)
    unfolding stoi_def Let_def by (simp del: takeWhile_eq_all_conv)
qed

text \<open>
  Reading a printed identifier back with \<open>std::stoi\<close> gives the identifier exactly
  when it fits a 32-bit signed integer, and raises \<open>out_of_range\<close> for every larger one.
\<close>

lemma stoi_to_string:
  "stoi (to_string w) =
     (if int (unat w) \<le> INT_MAX then Inr (int (unat w)) else Inl OutOfRange)"
  unfolding to_string_def
  by (subst stoi_digits)
    (auto simp: nat_to_string_nonempty nat_to_string_digits digits_value_nat_to_string)

end
