(* ===== verification/TC_Entity.thy ===== *)
theory TC_Entity
  imports TC_Containers TC_Strings
begin

text \<open>
  The entities of \<open>include/entity\<close> and \<open>src/entity\<close>: transactions, block headers,
  votes and blocks, with the operations of class \<open>Block\<close>.

  The \<open>shared_ptr\<close> fields that are never written through (transactions, votes, signature
  shares) are held by value; a pointer that may be null is an \<open>option\<close>. The libBLS
  classes are seen through the getters the code calls: \<open>BLSSigShare\<close> and
  \<open>BLSSignature\<close> are the records of these, with the 96-byte object representation of
  the \<open>alt_bn128_G1\<close> point that the code copies in and out. libBLS itself is the
  parameter \<open>blslib\<close>: the constructors, which may throw, and the operations of
  \<open>BLSSigShareSet\<close>.
\<close>

subsection \<open>Data\<close>

record BLSSigShare =
  ss_point :: bytes
  ss_hint :: string
  ss_signer_index :: u64
  ss_t :: u64
  ss_n :: u64

record BLSSignature =
  sig_point :: bytes
  sig_hint :: string
  sig_t :: u64
  sig_n :: u64

record Transaction =
  tx_id :: u64
  tx_sender :: u64
  tx_receiver :: u64
  tx_value :: u64
  tx_fee :: u64

record BlockHeader =
  hdr_id :: u64
  hdr_base_id :: u64
  hdr_proposal_ts :: u64
  hdr_dist_ts :: u64
  hdr_commit_ts :: u64
  hdr_recv_ts :: u64

record BlockVote =
  vote_block_id :: u64
  vote_voter_id :: u64
  vote_sig_share :: "BLSSigShare option"

record Block =
  header :: BlockHeader
  tx_vec :: "Transaction list"
  votes :: "(u64, BlockVote) omap"
  tss_sig :: "BLSSignature option"

record 'ss blslib =
  bls_mk_share :: "bytes \<Rightarrow> string \<Rightarrow> u64 \<Rightarrow> u64 \<Rightarrow> u64 \<Rightarrow> BLSSigShare res"
  bls_mk_sig :: "bytes \<Rightarrow> string \<Rightarrow> u64 \<Rightarrow> u64 \<Rightarrow> BLSSignature res"
  bls_set_new :: "u64 \<Rightarrow> u64 \<Rightarrow> 'ss res"
  bls_set_add :: "'ss \<Rightarrow> BLSSigShare option \<Rightarrow> 'ss res"
  bls_set_enough :: "'ss \<Rightarrow> bool"
  bls_set_merge :: "'ss \<Rightarrow> nat \<Rightarrow> BLSSignature res"

subsection \<open>Constructors\<close>

definition mk_Transaction :: "u64 \<Rightarrow> u64 \<Rightarrow> u64 \<Rightarrow> u64 \<Rightarrow> u64 \<Rightarrow> Transaction" where
  "mk_Transaction i sender receiver val fee =
     \<lparr>tx_id = i, tx_sender = sender, tx_receiver = receiver, tx_value = val, tx_fee = fee\<rparr>"

definition empty_BlockHeader :: BlockHeader where
  "empty_BlockHeader =
     \<lparr>hdr_id = 0, hdr_base_id = 0, hdr_proposal_ts = 0,
      hdr_dist_ts = 0, hdr_commit_ts = 0, hdr_recv_ts = 0\<rparr>"

definition mk_BlockHeader :: "u64 \<Rightarrow> u64 \<Rightarrow> u64 \<Rightarrow> BlockHeader" where
  "mk_BlockHeader i base_id proposal_ts =
     \<lparr>hdr_id = i, hdr_base_id = base_id, hdr_proposal_ts = proposal_ts,
      hdr_dist_ts = 0, hdr_commit_ts = 0, hdr_recv_ts = 0\<rparr>"

definition empty_BlockVote :: BlockVote where
  "empty_BlockVote = \<lparr>vote_block_id = 0, vote_voter_id = 0, vote_sig_share = None\<rparr>"

definition empty_Block :: Block where
  "empty_Block = \<lparr>header = empty_BlockHeader, tx_vec = [], votes = [], tss_sig = None\<rparr>"

definition mk_Block :: "u64 \<Rightarrow> u64 \<Rightarrow> u64 \<Rightarrow> Block" where
  "mk_Block i base_id proposal_ts =
     \<lparr>header = mk_BlockHeader i base_id proposal_ts, tx_vec = [], votes = [], tss_sig = None\<rparr>"

definition Block_insert :: "Transaction \<Rightarrow> Block \<Rightarrow> Block" where
  "Block_insert tx b = b\<lparr>tx_vec := tx_vec b @ [tx]\<rparr>"

abbreviation block_id :: "Block \<Rightarrow> u64" where
  "block_id b \<equiv> hdr_id (header b)"

definition Block_ok :: "Block \<Rightarrow> bool" where
  "Block_ok b \<longleftrightarrow> omap_ok (votes b)"

subsection \<open>The servers responsible for a block\<close>

text \<open>\<open>std::set\<close> is an increasing list; \<open>insort_insert\<close> is its \<open>insert\<close>.\<close>

definition get_server_id :: "Block \<Rightarrow> u64 \<Rightarrow> u64 list res" where
  "get_server_id b server_count =
     (if server_count = 0 then Inl DivByZero
      else
        let primary_id = block_id b mod server_count + 1;
            shadow_id = (if primary_id + 1 > server_count then 1 else primary_id + 1)
        in Inr (insort_insert shadow_id (insort_insert primary_id [])))"

subsection \<open>Votes\<close>

definition is_vote_enough :: "u64 \<Rightarrow> Block \<Rightarrow> bool" where
  "is_vote_enough target_num b \<longleftrightarrow> unat target_num \<le> length (votes b)"

definition Block_add_vote :: "u64 \<Rightarrow> BlockVote \<Rightarrow> Block \<Rightarrow> Block" where
  "Block_add_vote k v b = b\<lparr>votes := omap_insert k v (votes b)\<rparr>"

definition collect_shares :: "'ss blslib \<Rightarrow> BlockVote list \<Rightarrow> 'ss \<Rightarrow> 'ss res" where
  "collect_shares B vs S = foldr_res (\<lambda>v S. bls_set_add B S (vote_sig_share v)) vs S"

definition Block_merge_votes :: "'ss blslib \<Rightarrow> u64 \<Rightarrow> Block \<Rightarrow> Block res" where
  "Block_merge_votes B target_num b =
     bindr (bls_set_new B target_num target_num) (\<lambda>S0.
     bindr (collect_shares B (map snd (votes b)) S0) (\<lambda>S.
       if bls_set_enough B S
       then bindr (bls_set_merge B S 16) (\<lambda>tss. Inr (b\<lparr>tss_sig := Some tss\<rparr>))
       else Inr b))"

text \<open>
  What the code relies on of \<open>BLSSigShareSet\<close>: seen through the signer indices it holds,
  a new set is empty, adding a share records its index, and \<open>isEnough\<close> compares the
  number of indices with the required one.
\<close>

definition bls_set_spec :: "'ss blslib \<Rightarrow> ('ss \<Rightarrow> u64 \<times> u64 set) \<Rightarrow> bool" where
  "bls_set_spec B view \<longleftrightarrow>
     (\<forall>t n S. bls_set_new B t n = Inr S \<longrightarrow> view S = (t, {})) \<and>
     (\<forall>S s S'. bls_set_add B S (Some s) = Inr S' \<longrightarrow>
        view S' = (fst (view S), insert (ss_signer_index s) (snd (view S)))) \<and>
     (\<forall>S S'. bls_set_add B S None \<noteq> Inr S') \<and>
     (\<forall>S. bls_set_enough B S \<longleftrightarrow> unat (fst (view S)) \<le> card (snd (view S)))"

definition signers :: "Block \<Rightarrow> u64 set" where
  "signers b = ss_signer_index ` set (List.map_filter vote_sig_share (map snd (votes b)))"

lemmas entity_defs [op_defs] =
  mk_Transaction_def empty_BlockHeader_def mk_BlockHeader_def empty_BlockVote_def
  empty_Block_def mk_Block_def Block_insert_def

subsection \<open>Helper lemmas\<close>

lemma Block_ok_simps [simp]:
  "Block_ok empty_Block" "Block_ok (mk_Block i c d)"
  "Block_ok (Block_insert tx b) = Block_ok b"
  "Block_ok (b\<lparr>header := h\<rparr>) = Block_ok b"
  "Block_ok (b\<lparr>tx_vec := ts\<rparr>) = Block_ok b"
  "Block_ok (b\<lparr>tss_sig := g\<rparr>) = Block_ok b"
  by (simp_all add: Block_ok_def entity_defs)

lemma Block_add_vote_ok [simp]: "Block_ok b \<Longrightarrow> Block_ok (Block_add_vote k v b)"
  by (simp add: Block_ok_def Block_add_vote_def omap.invar_ins)

lemma Block_add_vote_frame [simp]:
  "header (Block_add_vote k v b) = header b"
  "tx_vec (Block_add_vote k v b) = tx_vec b"
  "tss_sig (Block_add_vote k v b) = tss_sig b"
  by (simp_all add: Block_add_vote_def)

lemma Block_add_vote_lookup:
  "Block_ok b \<Longrightarrow> map_of (votes (Block_add_vote k v b)) =
     (if map_of (votes b) k = None then (map_of (votes b))(k \<mapsto> v) else map_of (votes b))"
  by (simp add: Block_add_vote_def Block_ok_def omap.lookup_ins)

lemma is_vote_enough_add: "Block_ok b \<Longrightarrow> is_vote_enough n b \<Longrightarrow> is_vote_enough n (Block_add_vote k v b)"
  using omap.count_ins_mono [of "votes b" k v]
  by (simp add: is_vote_enough_def Block_add_vote_def Block_ok_def)

lemma unat_mod_Suc:
  fixes a n :: "'a::len word"
  assumes "n \<noteq> 0"
  shows "unat (a mod n + 1) = unat a mod unat n + 1"
proof -
  have lt: "unat a mod unat n < unat n"
    using assms by (simp add: unat_eq_0 [symmetric] del: unat_eq_0)
  have "unat n < 2 ^ LENGTH('a)" by (rule unsigned_less)
  with lt have "Suc (unat a mod unat n) < 2 ^ LENGTH('a)" by linarith
  then show ?thesis by (simp add: unat_word_ariths unat_mod_distrib)
qed

abbreviation primary_of :: "u64 \<Rightarrow> Block \<Rightarrow> u64" where
  "primary_of n b \<equiv> block_id b mod n + 1"

abbreviation next_server :: "'a::len word \<Rightarrow> 'a word \<Rightarrow> 'a word" where
  "next_server n p \<equiv> (if p = n then 1 else p + 1)"

lemma mod_Suc_range:
  fixes a n :: "'a::len word"
  assumes "n \<noteq> 0"
  shows "1 \<le> a mod n + 1" and "a mod n + 1 \<le> n"
proof -
  have "unat a mod unat n < unat n"
    using assms by (simp add: unat_eq_0 [symmetric] del: unat_eq_0)
  with assms show "1 \<le> a mod n + 1" and "a mod n + 1 \<le> n"
    by (simp_all add: word_le_nat_alt unat_mod_Suc)
qed

lemma primary_of_range:
  assumes "n \<noteq> 0"
  shows "1 \<le> primary_of n b" and "primary_of n b \<le> n"
  using mod_Suc_range [OF assms] by simp_all

lemma unat_Suc_no_overflow:
  fixes p n :: "'a::len word"
  assumes "p \<le> n" and "n \<noteq> - 1"
  shows "unat (p + 1) = unat p + 1"
proof -
  have "p \<noteq> - 1" using assms by (metis word_order.extremum_uniqueI)
  then have "1 + p \<noteq> 0" by (metis add.commute add_eq_0_iff)
  then show ?thesis using unatSuc [of p] by (simp add: add.commute)
qed

lemma next_server_range:
  fixes p n :: "'a::len word"
  assumes "1 \<le> p" and "p \<le> n" and "n \<noteq> - 1"
  shows "1 \<le> next_server n p" and "next_server n p \<le> n"
    and "(if p + 1 > n then 1 else p + 1) = next_server n p"
    and "next_server n p = p \<longleftrightarrow> n = 1"
  using assms unat_Suc_no_overflow [OF assms(2,3)]
  by (auto simp: word_le_nat_alt word_less_nat_alt word_unat_eq_iff)

lemma get_server_id_eq:
  assumes "n \<noteq> 0" and "n \<noteq> - 1"
  shows "get_server_id b n =
    Inr (insort_insert (next_server n (primary_of n b)) [primary_of n b])"
proof -
  have "insort_insert (primary_of n b) [] = [primary_of n b]"
    by (simp add: insort_insert_key_def)
  then show ?thesis
    using assms next_server_range(3) [OF primary_of_range(1,2) [OF assms(1), of b] assms(2)]
    by (simp add: get_server_id_def Let_def)
qed

lemma set_get_server_id:
  assumes "n \<noteq> 0" and "n \<noteq> - 1" and "get_server_id b n = Inr ts"
  shows "set ts = {primary_of n b, next_server n (primary_of n b)}"
    and "sorted ts" and "distinct ts"
  using assms
  by (auto simp: get_server_id_eq set_insort_insert intro: sorted_insort_insert distinct_insort_insert)

lemma get_server_id_subset:
  assumes "n \<noteq> 0" and "n \<noteq> - 1" and "get_server_id b n = Inr ts"
  shows "set ts \<subseteq> {1..n}"
  using set_get_server_id(1) [OF assms] primary_of_range [OF assms(1)]
    next_server_range [OF primary_of_range [OF assms(1)] assms(2)]
  by auto

lemma get_server_id_header: "header b = header b' \<Longrightarrow> get_server_id b n = get_server_id b' n"
  by (simp add: get_server_id_def)

lemma collect_shares_view:
  assumes spec: "bls_set_spec B view" and ok: "collect_shares B vs S = Inr S'"
  shows "view S' = (fst (view S), snd (view S) \<union>
           ss_signer_index ` set (List.map_filter vote_sig_share vs))
         \<and> (\<forall>v \<in> set vs. vote_sig_share v \<noteq> None)"
  using ok
proof (induction vs arbitrary: S)
  case Nil
  then show ?case by (simp add: collect_shares_def map_filter_simps)
next
  case (Cons v vs)
  then obtain S1 where S1: "bls_set_add B S (vote_sig_share v) = Inr S1"
    and rest: "collect_shares B vs S1 = Inr S'"
    by (auto simp: collect_shares_def bindr_Inr_iff)
  with spec obtain s where s: "vote_sig_share v = Some s"
    unfolding bls_set_spec_def by (metis not_None_eq)
  with S1 spec have "view S1 = (fst (view S), insert (ss_signer_index s) (snd (view S)))"
    unfolding bls_set_spec_def by metis
  with Cons.IH [OF rest] s show ?case by (auto simp: map_filter_simps)
qed

subsection \<open>Properties\<close>

text \<open>
  C15: for any server count from 1 up to the last but one value of a 64-bit integer, a block is assigned
  to its primary server, \<open>id mod n + 1\<close>, and to the server after it in the ring, both
  within 1..n; these are two different servers unless there is only one.
\<close>

theorem get_server_id_targets:
  assumes "n \<noteq> 0" and "n \<noteq> - 1"
  shows "\<exists>ts. get_server_id b n = Inr ts \<and> sorted ts \<and> distinct ts
    \<and> set ts = {primary_of n b, next_server n (primary_of n b)}
    \<and> set ts \<subseteq> {1..n} \<and> length ts = (if n = 1 then 1 else 2)"
proof -
  obtain ts where ts: "get_server_id b n = Inr ts"
    using get_server_id_eq [OF assms] by blast
  note facts = set_get_server_id [OF assms ts]
  have "length ts = card {primary_of n b, next_server n (primary_of n b)}"
    using facts by (metis distinct_card)
  moreover have "next_server n (primary_of n b) = primary_of n b \<longleftrightarrow> n = 1"
    using next_server_range(4) [OF primary_of_range [OF assms(1)] assms(2)] .
  ultimately have "length ts = (if n = 1 then 1 else 2)"
    by (auto simp: card_insert_if)
  with ts facts get_server_id_subset [OF assms ts] show ?thesis by blast
qed

theorem get_server_id_targets_witness:
  "(3::u64) \<noteq> 0 \<and> (3::u64) \<noteq> - 1 \<and>
   (\<exists>ts. get_server_id (mk_Block 3000005 0 0) 3 = Inr ts \<and> set ts = {3, 1} \<and> length ts = 2)"
  using get_server_id_targets [of 3 "mk_Block 3000005 0 0"]
  by (auto simp: entity_defs)

text \<open>
  C16: merging the votes of a block writes its threshold signature exactly when the votes
  carry shares of at least the target number of different signers; nothing else of the
  block changes, and every vote that was merged had a share.
\<close>

theorem Block_merge_votes_signs:
  assumes "bls_set_spec B view" and "Block_merge_votes B target b = Inr b'"
  shows "(tss_sig b' \<noteq> tss_sig b \<longrightarrow> unat target \<le> card (signers b))
    \<and> (unat target \<le> card (signers b) \<longrightarrow> tss_sig b' \<noteq> None)
    \<and> b' = b\<lparr>tss_sig := tss_sig b'\<rparr>
    \<and> (\<forall>v \<in> set (map snd (votes b)). vote_sig_share v \<noteq> None)"
proof -
  obtain S0 S where S0: "bls_set_new B target target = Inr S0"
    and S: "collect_shares B (map snd (votes b)) S0 = Inr S"
    and res: "(if bls_set_enough B S
       then bindr (bls_set_merge B S 16) (\<lambda>tss. Inr (b\<lparr>tss_sig := Some tss\<rparr>)) else Inr b) = Inr b'"
    using assms(2) by (auto simp: Block_merge_votes_def bindr_Inr_iff)
  from assms(1) S0 have "view S0 = (target, {})" by (simp add: bls_set_spec_def)
  with collect_shares_view [OF assms(1) S] have view: "view S = (target, signers b)"
    and shares: "\<forall>v \<in> set (map snd (votes b)). vote_sig_share v \<noteq> None"
    by (simp_all add: signers_def)
  from assms(1) have "bls_set_enough B S \<longleftrightarrow> unat target \<le> card (signers b)"
    unfolding bls_set_spec_def by (metis view fst_conv snd_conv)
  with res shares show ?thesis
    by (auto simp: bindr_Inr_iff split: if_splits)
qed

text \<open>A reference libBLS: a share set is the required number and the shares added.\<close>

definition ref_bls :: "(u64 \<times> BLSSigShare list) blslib" where
  "ref_bls =
     \<lparr>bls_mk_share = (\<lambda>p h i t n.
        Inr \<lparr>ss_point = p, ss_hint = h, ss_signer_index = i, ss_t = t, ss_n = n\<rparr>),
      bls_mk_sig = (\<lambda>p h t n. Inr \<lparr>sig_point = p, sig_hint = h, sig_t = t, sig_n = n\<rparr>),
      bls_set_new = (\<lambda>t n. Inr (t, [])),
      bls_set_add = (\<lambda>(t, ss) so. case so of None \<Rightarrow> Inl LibError | Some s \<Rightarrow> Inr (t, ss @ [s])),
      bls_set_enough = (\<lambda>(t, ss). unat t \<le> card (set (map ss_signer_index ss))),
      bls_set_merge = (\<lambda>(t, ss) threads.
        Inr \<lparr>sig_point = concat (map ss_point ss), sig_hint = [], sig_t = t, sig_n = t\<rparr>)\<rparr>"

lemma ref_bls_spec: "bls_set_spec ref_bls (\<lambda>(t, ss). (t, set (map ss_signer_index ss)))"
  by (auto simp: bls_set_spec_def ref_bls_def split: option.splits)

definition sample_share :: "u64 \<Rightarrow> BLSSigShare" where
  "sample_share i =
     \<lparr>ss_point = replicate 96 7, ss_hint = ''h'', ss_signer_index = i, ss_t = 2, ss_n = 2\<rparr>"

definition sample_vote :: "u64 \<Rightarrow> u64 \<Rightarrow> BlockVote" where
  "sample_vote bid i =
     \<lparr>vote_block_id = bid, vote_voter_id = i, vote_sig_share = Some (sample_share i)\<rparr>"

definition sample_block :: Block where
  "sample_block =
     Block_add_vote 2 (sample_vote 7 2) (Block_add_vote 1 (sample_vote 7 1)
       (Block_insert (mk_Transaction 1 10 20 0 5) (mk_Block 7 0xDEADBEEF 1000)))"

lemmas sample_defs = sample_block_def sample_vote_def sample_share_def entity_defs Block_add_vote_def

lemma signers_sample_block: "signers sample_block = {1, 2}"
  by (auto simp: signers_def sample_defs map_filter_simps)

theorem Block_merge_votes_signs_witness:
  "\<exists>b'. Block_merge_votes ref_bls 2 sample_block = Inr b' \<and> tss_sig b' \<noteq> None"
proof -
  obtain b' where b': "Block_merge_votes ref_bls 2 sample_block = Inr b'"
    by (simp add: Block_merge_votes_def collect_shares_def ref_bls_def sample_defs)
  from Block_merge_votes_signs [OF ref_bls_spec b'] have "tss_sig b' \<noteq> None"
    by (simp add: signers_sample_block)
  with b' show ?thesis by blast
qed

end
