(* ===== verification/TC_FlexLib.thy ===== *)
theory TC_FlexLib
  imports TC_Prelude
begin

text \<open>
  FlexBuffers, the third-party serialisation library, as the parameter \<open>flexlib\<close>. What
  a \<open>flexbuffers::Builder\<close> was told to write is a value of \<open>fval\<close>; \<open>fb_finish\<close> turns
  it into the finished buffer; \<open>fb_root\<close> and the other fields are the reader:
  \<open>GetRoot\<close>, \<open>AsMap()[key]\<close>, \<open>AsMap().Keys()\<close>, \<open>AsVector().size()\<close>,
  \<open>AsVector()[i]\<close>, \<open>AsUInt64\<close>, \<open>AsString().str()\<close>, \<open>AsBlob\<close> and \<open>IsNull\<close> on
  references of an unknown type \<open>'r\<close>. \<open>reads\<close> says what it means that a reference
  gives back a written value, and \<open>flexlib_spec\<close> is the documented behaviour the
  adapters rely on: a finished buffer reads as the value written, where the keys of a map
  come back in any order.

  The second half is a reference library that meets the specification: a value is a tag
  byte and its contents, lengths are unary and integers are written bit by bit, so the
  decoder needs no more than the number of bytes as its recursion bound. The theorems
  about the program hold for every library that meets the specification; the reference
  one is the concrete parameter at which their witnesses are evaluated.
\<close>

subsection \<open>The FlexBuffers library\<close>

datatype fval =
    FNull
  | FUInt u64
  | FString string
  | FBlob bytes
  | FVector "fval list"
  | FMap "(string \<times> fval) list"

record 'r flexlib =
  fb_finish :: "fval \<Rightarrow> bytes"
  fb_root :: "bytes \<Rightarrow> 'r"
  fb_get :: "'r \<Rightarrow> string \<Rightarrow> 'r"
  fb_keys :: "'r \<Rightarrow> string list"
  fb_size :: "'r \<Rightarrow> nat"
  fb_at :: "'r \<Rightarrow> nat \<Rightarrow> 'r"
  fb_u64 :: "'r \<Rightarrow> u64"
  fb_string :: "'r \<Rightarrow> string"
  fb_blob :: "'r \<Rightarrow> bytes"
  fb_is_null :: "'r \<Rightarrow> bool"

lemma size_nth_fval [termination_simp]: "i < length vs \<Longrightarrow> size (vs ! i) < Suc (size_list size vs)"
  by (metis less_Suc_eq_le nth_mem order_refl size_list_estimation')

fun reads :: "'r flexlib \<Rightarrow> 'r \<Rightarrow> fval \<Rightarrow> bool" where
  "reads L r FNull = fb_is_null L r"
| "reads L r (FUInt w) = (\<not> fb_is_null L r \<and> fb_u64 L r = w)"
| "reads L r (FString s) = (\<not> fb_is_null L r \<and> fb_string L r = s)"
| "reads L r (FBlob bs) = (\<not> fb_is_null L r \<and> fb_blob L r = bs)"
| "reads L r (FVector vs) =
     (fb_size L r = length vs \<and> (\<forall>i \<in> {..<length vs}. reads L (fb_at L r i) (vs ! i)))"
| "reads L r (FMap kvs) =
     (distinct (map fst kvs) \<longrightarrow>
        distinct (fb_keys L r) \<and> set (fb_keys L r) = set (map fst kvs) \<and>
        (\<forall>p \<in> set kvs. reads L (fb_get L r (fst p)) (snd p)))"

definition flexlib_spec :: "'r flexlib \<Rightarrow> bool" where
  "flexlib_spec L \<longleftrightarrow> (\<forall>v. reads L (fb_root L (fb_finish L v)) v)"

subsection \<open>A reference library\<close>

definition enc_len :: "nat \<Rightarrow> bytes" where
  "enc_len n = replicate n 1 @ [0]"

fun dec_len :: "bytes \<Rightarrow> nat \<times> bytes" where
  "dec_len [] = (0, [])"
| "dec_len (b # bs) = (if b = 0 then (0, bs) else (let (n, r) = dec_len bs in (Suc n, r)))"

definition enc_u64 :: "u64 \<Rightarrow> bytes" where
  "enc_u64 w = map (\<lambda>i. if bit w i then 1 else 0) [0..<64]"

definition dec_u64 :: "bytes \<Rightarrow> u64" where
  "dec_u64 bs = horner_sum of_bool 2 (map (\<lambda>b. b \<noteq> 0) (take 64 bs))"

definition enc_blob :: "bytes \<Rightarrow> bytes" where
  "enc_blob bs = enc_len (length bs) @ bs"

definition dec_blob :: "bytes \<Rightarrow> bytes \<times> bytes" where
  "dec_blob bs = (let (n, r) = dec_len bs in (take n r, drop n r))"

definition enc_string :: "string \<Rightarrow> bytes" where
  "enc_string s = enc_blob (map of_char s)"

definition dec_string :: "bytes \<Rightarrow> string \<times> bytes" where
  "dec_string bs = (let (s, r) = dec_blob bs in (map (\<lambda>b. char_of (unat b)) s, r))"

fun dec_many :: "(bytes \<Rightarrow> 'a \<times> bytes) \<Rightarrow> nat \<Rightarrow> bytes \<Rightarrow> 'a list \<times> bytes" where
  "dec_many d 0 bs = ([], bs)"
| "dec_many d (Suc n) bs =
     (let (x, r) = d bs; (xs, r') = dec_many d n r in (x # xs, r'))"

fun enc :: "fval \<Rightarrow> bytes" where
  "enc FNull = [0]"
| "enc (FUInt w) = 1 # enc_u64 w"
| "enc (FString s) = 2 # enc_string s"
| "enc (FBlob bs) = 3 # enc_blob bs"
| "enc (FVector vs) = 4 # enc_len (length vs) @ concat (map enc vs)"
| "enc (FMap kvs) =
     5 # enc_len (length kvs) @ concat (map (\<lambda>p. enc_string (fst p) @ enc (snd p)) kvs)"

primrec dec :: "nat \<Rightarrow> bytes \<Rightarrow> fval \<times> bytes" where
  "dec 0 bs = (FNull, bs)"
| "dec (Suc k) bs =
     (case bs of
        [] \<Rightarrow> (FNull, [])
      | t # r \<Rightarrow>
          if t = 1 then (FUInt (dec_u64 r), drop 64 r)
          else if t = 2 then (let (s, r') = dec_string r in (FString s, r'))
          else if t = 3 then (let (b, r') = dec_blob r in (FBlob b, r'))
          else if t = 4 then
            (let (n, r1) = dec_len r; (vs, r') = dec_many (dec k) n r1 in (FVector vs, r'))
          else if t = 5 then
            (let (n, r1) = dec_len r;
                 (kvs, r') = dec_many (\<lambda>q. let (s, q1) = dec_string q; (v, q2) = dec k q1
                                           in ((s, v), q2)) n r1
             in (FMap kvs, r'))
          else (FNull, r))"

definition ref_flex :: "fval flexlib" where
  "ref_flex =
     \<lparr>fb_finish = enc,
      fb_root = (\<lambda>bs. fst (dec (length bs) bs)),
      fb_get = (\<lambda>r k. case r of
         FMap kvs \<Rightarrow> (case map_of kvs k of Some v \<Rightarrow> v | None \<Rightarrow> FNull) | _ \<Rightarrow> FNull),
      fb_keys = (\<lambda>r. case r of FMap kvs \<Rightarrow> map fst kvs | _ \<Rightarrow> []),
      fb_size = (\<lambda>r. case r of FVector vs \<Rightarrow> length vs | _ \<Rightarrow> 0),
      fb_at = (\<lambda>r i. case r of FVector vs \<Rightarrow> (if i < length vs then vs ! i else FNull) | _ \<Rightarrow> FNull),
      fb_u64 = (\<lambda>r. case r of FUInt w \<Rightarrow> w | _ \<Rightarrow> 0),
      fb_string = (\<lambda>r. case r of FString s \<Rightarrow> s | _ \<Rightarrow> []),
      fb_blob = (\<lambda>r. case r of FBlob bs \<Rightarrow> bs | _ \<Rightarrow> []),
      fb_is_null = (\<lambda>r. r = FNull)\<rparr>"

subsection \<open>Decoding inverts encoding\<close>

lemma dec_len_enc: "dec_len (enc_len n @ r) = (n, r)"
  by (induction n) (simp_all add: enc_len_def)

lemma length_enc_u64: "length (enc_u64 w) = 64"
  by (simp add: enc_u64_def)

lemma dec_u64_enc: "dec_u64 (enc_u64 w @ r) = w"
proof -
  have "map (\<lambda>b. b \<noteq> (0::byte)) (enc_u64 w) = map (bit w) [0..<64]"
    by (simp add: enc_u64_def)
  moreover have "take_bit 64 w = w" by (rule take_bit_word_eq_self) simp
  ultimately show ?thesis
    by (simp add: dec_u64_def length_enc_u64 horner_sum_bit_eq_take_bit del: upt.simps)
qed

lemma dec_blob_enc: "dec_blob (enc_blob bs @ r) = (bs, r)"
  by (simp add: dec_blob_def enc_blob_def dec_len_enc)

lemma unat_of_char_byte: "unat (of_char c :: byte) = of_char c"
proof -
  have "(of_char c :: byte) = word_of_nat (of_char c)" by (simp add: of_nat_of_char)
  then show ?thesis by (simp add: unat_of_nat)
qed

lemma dec_string_enc: "dec_string (enc_string s @ r) = (s, r)"
  by (simp add: dec_string_def enc_string_def dec_blob_enc comp_def unat_of_char_byte)

lemma dec_many_enc:
  assumes "\<And>x r. x \<in> set xs \<Longrightarrow> d (e x @ r) = (x, r)"
  shows "dec_many d (length xs) (concat (map e xs) @ r) = (xs, r)"
  using assms by (induction xs) simp_all

lemma length_concat_ge: "x \<in> set xs \<Longrightarrow> length (f x) \<le> length (concat (map f xs))"
  by (induction xs) auto

lemma dec_enc: "length (enc v) \<le> k \<Longrightarrow> dec k (enc v @ r) = (v, r)"
proof (induction v arbitrary: k r rule: enc.induct)
  case (5 vs)
  then obtain j where k: "k = Suc j" by (cases k) auto
  have "dec j (enc x @ r) = (x, r)" if "x \<in> set vs" for x r
    using "5.IH" [OF that, of j r] "5.prems" length_concat_ge [OF that, of enc] by (simp add: k)
  then show ?case by (simp add: k dec_len_enc dec_many_enc)
next
  case (6 kvs)
  then obtain j where k: "k = Suc j" by (cases k) auto
  let ?e = "\<lambda>p. enc_string (fst p) @ enc (snd p)"
  have "(let (s, q1) = dec_string (?e x @ r); (v, q2) = dec j q1 in ((s, v), q2)) = (x, r)"
    if "x \<in> set kvs" for x r
    using "6.IH" [OF that, of j r] "6.prems" length_concat_ge [OF that, of ?e]
    by (simp add: k dec_string_enc)
  then have "dec_many (\<lambda>q. let (s, q1) = dec_string q; (v, q2) = dec j q1 in ((s, v), q2))
      (length kvs) (concat (map ?e kvs) @ r) = (kvs, r)" for r
    by (rule dec_many_enc)
  then show ?case by (simp add: k dec_len_enc)
qed (case_tac k; simp add: dec_u64_enc length_enc_u64 dec_string_enc dec_blob_enc)+

lemma ref_flex_root: "fb_root ref_flex (fb_finish ref_flex v) = v"
  using dec_enc [of v "length (enc v)" "[]"] by (simp add: ref_flex_def)

lemma reads_ref_flex: "reads ref_flex v v"
proof (induction v)
  case (FMap kvs)
  have "reads ref_flex (fb_get ref_flex (FMap kvs) (fst p)) (snd p)"
    if "distinct (map fst kvs)" and "p \<in> set kvs" for p
    using FMap.IH [of p "snd p"] that by (cases p) (simp add: ref_flex_def)
  then show ?case by (simp add: ref_flex_def)
qed (simp_all add: ref_flex_def)

lemma ref_flex_spec: "flexlib_spec ref_flex"
  unfolding flexlib_spec_def ref_flex_root by (simp add: reads_ref_flex)

end
