(* ===== verification/TC_Flexbuffers.thy ===== *)
theory TC_Flexbuffers
  imports TC_Entity TC_FlexLib
begin

text \<open>
  The wire format of \<open>src/entity/flexbuffers_adapter.cpp\<close>: one \<open>to_bytes\<close> and one
  \<open>from_bytes\<close> per entity, over the parameter \<open>flexlib\<close> of \<open>TC_FlexLib\<close>.

  The contract the handlers use is the locale \<open>wire_codec\<close>: reading back what was
  written gives the entity, up to what the format drops. It is interpreted on the adapters
  of headers, votes and blocks. The lemmas show that each \<open>from_bytes\<close> inverts
  \<open>to_bytes\<close>, with the exceptions that the code has: a block loses its threshold
  signature, and a block with a voter number beyond \<open>INT_MAX\<close> cannot be read at all.
\<close>

subsection \<open>The contract of a wire format\<close>

locale wire_codec =
  fixes to_b :: "'r flexlib \<Rightarrow> 'a \<Rightarrow> bytes"
    and from_b :: "'r flexlib \<Rightarrow> bytes \<Rightarrow> 'a res"
    and ok :: "'a \<Rightarrow> bool"
    and kept :: "'a \<Rightarrow> 'a"
  assumes read_back: "flexlib_spec L \<Longrightarrow> ok x \<Longrightarrow> from_b L (to_b L x) = Inr (kept x)"
begin

lemma read_back_all:
  "flexlib_spec L \<Longrightarrow> \<forall>x \<in> set xs. ok x \<Longrightarrow> mapr (from_b L) (map (to_b L) xs) = Inr (map kept xs)"
  by (induction xs) (simp_all add: read_back)

lemma decode_each_written:
  assumes "flexlib_spec L" and "\<forall>x \<in> set xs. ok x"
  shows "decode_each (from_b L) f (map (to_b L) xs) s = foreach f (map kept xs) s"
  unfolding decode_each_def foreach_map
  by (rule foreach_cong) (use assms in \<open>simp add: read_back\<close>)

lemma decode_each_at_written:
  assumes "flexlib_spec L" and "\<forall>x \<in> set xs. ok x"
  shows "decode_each_at (from_b L) f (map (to_b L) xs) s =
    foreach (\<lambda>(j, x). f j (kept x)) (enumerate 0 xs) s"
  unfolding decode_each_at_def enumerate_eq_zip zip_map2 foreach_map length_map
  by (rule foreach_cong) (use assms in \<open>auto simp: read_back dest: set_zip_rightD\<close>)

lemma same_bytes:
  "flexlib_spec L \<Longrightarrow> ok x \<Longrightarrow> ok y \<Longrightarrow> to_b L x = to_b L y \<Longrightarrow> kept x = kept y"
  by (metis read_back sum.inject(2))

end

subsection \<open>Adapters\<close>

definition BLSSigShare_from_bytes :: "'ss blslib \<Rightarrow> 'r flexlib \<Rightarrow> bytes \<Rightarrow> BLSSigShare res" where
  "BLSSigShare_from_bytes B L bs =
     (let m = fb_root L bs;
          g1_blob = fb_blob L (fb_get L m ''g1'')
      in bindr (assertr (length g1_blob = 96) AssertFailed) (\<lambda>_.
           bls_mk_share B (take 96 g1_blob)
             (fb_string L (fb_get L m ''hint''))
             (fb_u64 L (fb_get L m ''signer_index''))
             (fb_u64 L (fb_get L m ''t''))
             (fb_u64 L (fb_get L m ''n''))))"

definition BLSSigShare_to_bytes :: "'r flexlib \<Rightarrow> BLSSigShare \<Rightarrow> bytes" where
  "BLSSigShare_to_bytes L s =
     fb_finish L (FMap
       [(''g1'', FBlob (ss_point s)),
        (''hint'', FString (ss_hint s)),
        (''signer_index'', FUInt (ss_signer_index s)),
        (''t'', FUInt (ss_t s)),
        (''n'', FUInt (ss_n s))])"

definition BlockVote_to_bytes :: "'r flexlib \<Rightarrow> BlockVote \<Rightarrow> bytes" where
  "BlockVote_to_bytes L v =
     fb_finish L (FMap
       [(''block_id'', FUInt (vote_block_id v)),
        (''voter_id'', FUInt (vote_voter_id v)),
        (''sig_share'',
           case vote_sig_share v of
             None \<Rightarrow> FNull
           | Some s \<Rightarrow> FBlob (BLSSigShare_to_bytes L s))])"

definition BlockVote_from_bytes :: "'ss blslib \<Rightarrow> 'r flexlib \<Rightarrow> bytes \<Rightarrow> BlockVote res" where
  "BlockVote_from_bytes B L bs =
     (let m = fb_root L bs;
          vote = empty_BlockVote
            \<lparr>vote_block_id := fb_u64 L (fb_get L m ''block_id''),
             vote_voter_id := fb_u64 L (fb_get L m ''voter_id'')\<rparr>;
          ss_ref = fb_get L m ''sig_share''
      in if fb_is_null L ss_ref then Inr vote
         else bindr (BLSSigShare_from_bytes B L (fb_blob L ss_ref)) (\<lambda>s.
           Inr (vote\<lparr>vote_sig_share := Some s\<rparr>)))"

definition BLSSignature_to_bytes :: "'r flexlib \<Rightarrow> BLSSignature \<Rightarrow> bytes" where
  "BLSSignature_to_bytes L g =
     fb_finish L (FMap
       [(''sig'', FBlob (sig_point g)),
        (''hint'', FString (sig_hint g)),
        (''t'', FUInt (sig_t g)),
        (''n'', FUInt (sig_n g))])"

definition BLSSignature_from_bytes :: "'ss blslib \<Rightarrow> 'r flexlib \<Rightarrow> bytes \<Rightarrow> BLSSignature res" where
  "BLSSignature_from_bytes B L bs =
     (let m = fb_root L bs;
          g1_blob = fb_blob L (fb_get L m ''sig'')
      in bindr (assertr (length g1_blob = 96) AssertFailed) (\<lambda>_.
           bls_mk_sig B (take 96 g1_blob)
             (fb_string L (fb_get L m ''hint''))
             (fb_u64 L (fb_get L m ''t''))
             (fb_u64 L (fb_get L m ''n''))))"

definition BlockHeader_to_bytes :: "'r flexlib \<Rightarrow> BlockHeader \<Rightarrow> bytes" where
  "BlockHeader_to_bytes L bh =
     fb_finish L (FMap
       [(''id'', FUInt (hdr_id bh)),
        (''base_id'', FUInt (hdr_base_id bh)),
        (''proposal_ts'', FUInt (hdr_proposal_ts bh)),
        (''dist_ts'', FUInt (hdr_dist_ts bh)),
        (''commit_ts'', FUInt (hdr_commit_ts bh)),
        (''recv_ts'', FUInt (hdr_recv_ts bh))])"

definition BlockHeader_from_bytes :: "'r flexlib \<Rightarrow> bytes \<Rightarrow> BlockHeader" where
  "BlockHeader_from_bytes L bs =
     (let m = fb_root L bs
      in \<lparr>hdr_id = fb_u64 L (fb_get L m ''id''),
          hdr_base_id = fb_u64 L (fb_get L m ''base_id''),
          hdr_proposal_ts = fb_u64 L (fb_get L m ''proposal_ts''),
          hdr_dist_ts = fb_u64 L (fb_get L m ''dist_ts''),
          hdr_commit_ts = fb_u64 L (fb_get L m ''commit_ts''),
          hdr_recv_ts = fb_u64 L (fb_get L m ''recv_ts'')\<rparr>)"

definition Transaction_to_bytes :: "'r flexlib \<Rightarrow> Transaction \<Rightarrow> bytes" where
  "Transaction_to_bytes L tx =
     fb_finish L (FMap
       [(''id'', FUInt (tx_id tx)),
        (''sender'', FUInt (tx_sender tx)),
        (''receiver'', FUInt (tx_receiver tx)),
        (''value'', FUInt (tx_value tx)),
        (''fee'', FUInt (tx_fee tx))])"

definition Transaction_from_bytes :: "'r flexlib \<Rightarrow> bytes \<Rightarrow> Transaction" where
  "Transaction_from_bytes L bs =
     (let m = fb_root L bs
      in mk_Transaction
           (fb_u64 L (fb_get L m ''id''))
           (fb_u64 L (fb_get L m ''sender''))
           (fb_u64 L (fb_get L m ''receiver''))
           (fb_u64 L (fb_get L m ''value''))
           (fb_u64 L (fb_get L m ''fee'')))"

definition Block_fval :: "'r flexlib \<Rightarrow> Block \<Rightarrow> fval" where
  "Block_fval L b =
     FMap
       [(''header'', FBlob (BlockHeader_to_bytes L (header b))),
        (''tx_vec'', FVector (map (\<lambda>tx. FVector
           [FUInt (tx_id tx), FUInt (tx_sender tx), FUInt (tx_receiver tx),
            FUInt (tx_value tx), FUInt (tx_fee tx)]) (tx_vec b))),
        (''votes'', FMap (map (\<lambda>(k, v). (to_string k, FBlob (BlockVote_to_bytes L v))) (votes b)))]"

definition Block_to_bytes :: "'r flexlib \<Rightarrow> Block \<Rightarrow> bytes" where
  "Block_to_bytes L b = fb_finish L (Block_fval L b)"

definition read_tx :: "'r flexlib \<Rightarrow> 'r \<Rightarrow> Transaction" where
  "read_tx L d =
     mk_Transaction (fb_u64 L (fb_at L d 0)) (fb_u64 L (fb_at L d 1)) (fb_u64 L (fb_at L d 2))
       (fb_u64 L (fb_at L d 3)) (fb_u64 L (fb_at L d 4))"

definition read_vote ::
  "'ss blslib \<Rightarrow> 'r flexlib \<Rightarrow> 'r \<Rightarrow> string \<Rightarrow> (u64, BlockVote) omap \<Rightarrow> (u64, BlockVote) omap res" where
  "read_vote B L votes_fb key vs =
     bindr (BlockVote_from_bytes B L (fb_blob L (fb_get L votes_fb key))) (\<lambda>vote.
     bindr (stoi key) (\<lambda>i.
       Inr (omap_insert (word_of_int i) vote vs)))"

definition Block_from_bytes :: "'ss blslib \<Rightarrow> 'r flexlib \<Rightarrow> bytes \<Rightarrow> Block res" where
  "Block_from_bytes B L bs =
     (let m = fb_root L bs;
          bh = BlockHeader_from_bytes L (fb_blob L (fb_get L m ''header''));
          tx_vec_fb = fb_get L m ''tx_vec'';
          txs = map (\<lambda>i. read_tx L (fb_at L tx_vec_fb i)) [0..<fb_size L tx_vec_fb];
          votes_fb = fb_get L m ''votes''
      in bindr (foldr_res (read_vote B L votes_fb) (fb_keys L votes_fb) []) (\<lambda>vs.
           Inr (empty_Block\<lparr>header := bh, tx_vec := txs, votes := vs\<rparr>)))"

subsection \<open>Which entities can be written\<close>

text \<open>
  A share is well formed when its point has the size of \<open>alt_bn128_G1\<close> and the libBLS
  constructor accepts it; a block is sendable when in addition its voter numbers fit an
  \<open>int\<close>.
\<close>

definition share_ok :: "'ss blslib \<Rightarrow> BLSSigShare \<Rightarrow> bool" where
  "share_ok B s \<longleftrightarrow>
     length (ss_point s) = 96 \<and>
     bls_mk_share B (ss_point s) (ss_hint s) (ss_signer_index s) (ss_t s) (ss_n s) = Inr s"

definition sig_ok :: "'ss blslib \<Rightarrow> BLSSignature \<Rightarrow> bool" where
  "sig_ok B g \<longleftrightarrow>
     length (sig_point g) = 96 \<and>
     bls_mk_sig B (sig_point g) (sig_hint g) (sig_t g) (sig_n g) = Inr g"

definition vote_ok :: "'ss blslib \<Rightarrow> BlockVote \<Rightarrow> bool" where
  "vote_ok B v \<longleftrightarrow> (case vote_sig_share v of None \<Rightarrow> True | Some s \<Rightarrow> share_ok B s)"

definition block_shares_ok :: "'ss blslib \<Rightarrow> Block \<Rightarrow> bool" where
  "block_shares_ok B b \<longleftrightarrow> Block_ok b \<and> (\<forall>v \<in> set (map snd (votes b)). vote_ok B v)"

definition sendable :: "'ss blslib \<Rightarrow> Block \<Rightarrow> bool" where
  "sendable B b \<longleftrightarrow>
     block_shares_ok B b \<and> (\<forall>k \<in> set (map fst (votes b)). int (unat k) \<le> INT_MAX)"

subsection \<open>Reading what was written\<close>

lemma reads_finish: "flexlib_spec L \<Longrightarrow> reads L (fb_root L (fb_finish L v)) v"
  by (simp add: flexlib_spec_def)

lemma reads_field:
  assumes "reads L r (FMap kvs)" and "distinct (map fst kvs)" and "(k, v) \<in> set kvs"
  shows "reads L (fb_get L r k) v"
  using assms by auto

lemma BLSSigShare_roundtrip:
  assumes "flexlib_spec L" and "share_ok B s"
  shows "BLSSigShare_from_bytes B L (BLSSigShare_to_bytes L s) = Inr s"
  using reads_finish [OF assms(1), of "FMap
       [(''g1'', FBlob (ss_point s)), (''hint'', FString (ss_hint s)),
        (''signer_index'', FUInt (ss_signer_index s)), (''t'', FUInt (ss_t s)),
        (''n'', FUInt (ss_n s))]"] assms(2)
  by (simp add: BLSSigShare_from_bytes_def BLSSigShare_to_bytes_def share_ok_def)

lemma BlockVote_roundtrip:
  assumes "flexlib_spec L" and "vote_ok B v"
  shows "BlockVote_from_bytes B L (BlockVote_to_bytes L v) = Inr v"
proof -
  let ?share = "case vote_sig_share v of None \<Rightarrow> FNull | Some s \<Rightarrow> FBlob (BLSSigShare_to_bytes L s)"
  have r: "reads L (fb_root L (BlockVote_to_bytes L v)) (FMap
       [(''block_id'', FUInt (vote_block_id v)), (''voter_id'', FUInt (vote_voter_id v)),
        (''sig_share'', ?share)])"
    unfolding BlockVote_to_bytes_def by (rule reads_finish [OF assms(1)])
  show ?thesis
  proof (cases "vote_sig_share v")
    case None
    with r show ?thesis by (simp add: BlockVote_from_bytes_def empty_BlockVote_def)
  next
    case (Some s)
    with assms have "BLSSigShare_from_bytes B L (BLSSigShare_to_bytes L s) = Inr s"
      by (simp add: vote_ok_def BLSSigShare_roundtrip)
    with r Some show ?thesis by (simp add: BlockVote_from_bytes_def empty_BlockVote_def)
  qed
qed

lemma BlockHeader_roundtrip_eq:
  assumes "flexlib_spec L"
  shows "BlockHeader_from_bytes L (BlockHeader_to_bytes L bh) = bh"
  using reads_finish [OF assms, of "FMap
       [(''id'', FUInt (hdr_id bh)), (''base_id'', FUInt (hdr_base_id bh)),
        (''proposal_ts'', FUInt (hdr_proposal_ts bh)), (''dist_ts'', FUInt (hdr_dist_ts bh)),
        (''commit_ts'', FUInt (hdr_commit_ts bh)), (''recv_ts'', FUInt (hdr_recv_ts bh))]"]
  by (simp add: BlockHeader_from_bytes_def BlockHeader_to_bytes_def)

lemma to_string_keys_distinct:
  "distinct (map (to_string \<circ> fst) kvs) \<longleftrightarrow> distinct (map fst kvs)"
proof -
  have "inj to_string" by (rule injI) (simp add: to_string_inj)
  then show ?thesis
    by (metis distinct_map inj_on_subset list.map_comp subset_UNIV)
qed

lemma Block_fields_read:
  assumes "flexlib_spec L"
  defines "m b \<equiv> fb_root L (Block_to_bytes L b)"
  shows "fb_blob L (fb_get L (m b) ''header'') = BlockHeader_to_bytes L (header b)"
    and "map (\<lambda>i. read_tx L (fb_at L (fb_get L (m b) ''tx_vec'') i))
           [0..<fb_size L (fb_get L (m b) ''tx_vec'')] = tx_vec b"
    and "reads L (fb_get L (m b) ''votes'')
           (FMap (map (\<lambda>(k, v). (to_string k, FBlob (BlockVote_to_bytes L v))) (votes b)))"
proof -
  have r: "reads L (m b) (Block_fval L b)"
    using assms by (simp add: Block_to_bytes_def reads_finish)
  note field = reads_field [OF r [unfolded Block_fval_def]]
  show "fb_blob L (fb_get L (m b) ''header'') = BlockHeader_to_bytes L (header b)"
    using field [of "''header''"] by simp
  show "reads L (fb_get L (m b) ''votes'')
      (FMap (map (\<lambda>(k, v). (to_string k, FBlob (BlockVote_to_bytes L v))) (votes b)))"
    by (rule field [of "''votes''"]) simp_all
  have tv: "reads L (fb_get L (m b) ''tx_vec'') (FVector (map (\<lambda>tx. FVector
           [FUInt (tx_id tx), FUInt (tx_sender tx), FUInt (tx_receiver tx),
            FUInt (tx_value tx), FUInt (tx_fee tx)]) (tx_vec b)))"
    by (rule field [of "''tx_vec''"]) simp_all
  show "map (\<lambda>i. read_tx L (fb_at L (fb_get L (m b) ''tx_vec'') i))
           [0..<fb_size L (fb_get L (m b) ''tx_vec'')] = tx_vec b"
  proof (rule nth_equalityI)
    fix i
    assume "i < length (map (\<lambda>i. read_tx L (fb_at L (fb_get L (m b) ''tx_vec'') i))
           [0..<fb_size L (fb_get L (m b) ''tx_vec'')])"
    with tv have i: "i < length (tx_vec b)" "i < fb_size L (fb_get L (m b) ''tx_vec'')" by simp_all
    let ?d = "fb_at L (fb_get L (m b) ''tx_vec'') i" and ?tx = "tx_vec b ! i"
    from tv i have "reads L ?d (FVector [FUInt (tx_id ?tx), FUInt (tx_sender ?tx),
        FUInt (tx_receiver ?tx), FUInt (tx_value ?tx), FUInt (tx_fee ?tx)])"
      by auto
    then have "read_tx L ?d = ?tx"
      by (auto simp: read_tx_def mk_Transaction_def Ball_def lessThan_iff less_Suc_eq all_conj_distrib
          numeral_eq_Suc nth_Cons')
    with i show "map (\<lambda>i. read_tx L (fb_at L (fb_get L (m b) ''tx_vec'') i))
           [0..<fb_size L (fb_get L (m b) ''tx_vec'')] ! i = tx_vec b ! i"
      by simp
  qed (use tv in simp)
qed

lemma read_vote_written:
  assumes "flexlib_spec L" and "block_shares_ok B b" and kv: "(k, v) \<in> set (votes b)"
    and r: "reads L r (FMap (map (\<lambda>(k, v). (to_string k, FBlob (BlockVote_to_bytes L v))) (votes b)))"
  shows "read_vote B L r (to_string k) vs =
    (if int (unat k) \<le> INT_MAX then Inr (omap_insert k v vs) else Inl OutOfRange)"
proof -
  have "chm_ok (votes b)" and "vote_ok B v"
    using assms(2) kv by (auto simp: block_shares_ok_def Block_ok_def dest: omap_ok_distinct)
  then have "distinct (map fst (map (\<lambda>(k, v). (to_string k, FBlob (BlockVote_to_bytes L v))) (votes b)))"
    using to_string_keys_distinct [of "votes b"] by (simp add: comp_def case_prod_beta)
  from reads_field [OF r this, of "to_string k" "FBlob (BlockVote_to_bytes L v)"] kv
  have "fb_blob L (fb_get L r (to_string k)) = BlockVote_to_bytes L v" by force
  with BlockVote_roundtrip [OF assms(1) \<open>vote_ok B v\<close>] show ?thesis
    by (simp add: read_vote_def stoi_to_string)
qed

lemma votes_keys_enum:
  assumes "block_shares_ok B b"
    and r: "reads L r (FMap (map (\<lambda>(k, v). (to_string k, FBlob (BlockVote_to_bytes L v))) (votes b)))"
  obtains kvs where "fb_keys L r = map (to_string \<circ> fst) kvs" and "set kvs = set (votes b)"
    and "chm_ok kvs"
proof -
  have d: "chm_ok (votes b)"
    using assms(1) by (simp add: block_shares_ok_def Block_ok_def omap_ok_distinct)
  then have "distinct (map fst (map (\<lambda>(k, v). (to_string k, FBlob (BlockVote_to_bytes L v))) (votes b)))"
    using to_string_keys_distinct [of "votes b"] by (simp add: comp_def case_prod_beta)
  with r have keys: "distinct (fb_keys L r)"
    "set (fb_keys L r) = (to_string \<circ> fst) ` set (votes b)"
    by (auto simp: image_image case_prod_beta)
  from list_preimage [OF keys(2)] obtain kvs where kvs: "fb_keys L r = map (to_string \<circ> fst) kvs"
    and sub: "set kvs \<subseteq> set (votes b)" by blast
  have inj: "inj_on (to_string \<circ> fst) (set (votes b))"
    using d to_string_keys_distinct [of "votes b"] by (simp add: distinct_map)
  have "(to_string \<circ> fst) ` set kvs = (to_string \<circ> fst) ` set (votes b)"
    using keys(2) kvs by simp
  with inj_on_image_eq_iff [OF inj sub subset_refl] have "set kvs = set (votes b)" by blast
  moreover have "chm_ok kvs"
    using keys(1) kvs to_string_keys_distinct by metis
  ultimately show ?thesis using kvs that by blast
qed

lemma Block_roundtrip_cases:
  assumes L: "flexlib_spec L" and ok: "block_shares_ok B b"
  shows "Block_from_bytes B L (Block_to_bytes L b) =
    (if sendable B b then Inr (b\<lparr>tss_sig := None\<rparr>) else Inl OutOfRange)"
proof -
  let ?r = "fb_get L (fb_root L (Block_to_bytes L b)) ''votes''"
  note fields = Block_fields_read [OF L, of b]
  obtain kvs where keys: "fb_keys L ?r = map (to_string \<circ> fst) kvs"
    and kvs: "set kvs = set (votes b)" "chm_ok kvs"
    by (rule votes_keys_enum [OF ok fields(3)])
  have step: "(read_vote B L ?r \<circ> (to_string \<circ> fst)) p vs =
      (if int (unat (fst p)) \<le> INT_MAX then Inr (omap_insert (fst p) (snd p) vs) else Inl OutOfRange)"
    if "p \<in> set kvs" for p vs
    using read_vote_written [OF L ok _ fields(3), of "fst p" "snd p" vs] that kvs(1) by simp
  have fold: "foldr_res (read_vote B L ?r) (fb_keys L ?r) [] =
      foldr_res (read_vote B L ?r \<circ> (to_string \<circ> fst)) kvs []"
    unfolding keys by (rule foldr_res_map)
  show ?thesis
  proof (cases "sendable B b")
    case True
    then have "foldr_res (read_vote B L ?r \<circ> (to_string \<circ> fst)) kvs [] =
        Inr (fold (\<lambda>p. omap_insert (fst p) (snd p)) kvs [])"
      by (intro foldr_res_total) (use step kvs(1) in \<open>auto simp: sendable_def\<close>)
    also have "fold (\<lambda>p. omap_insert (fst p) (snd p)) kvs [] = votes b"
      using fold_omap_insert_permuted [OF _ kvs(2,1)] ok
      by (simp add: block_shares_ok_def Block_ok_def case_prod_beta')
    finally have "foldr_res (read_vote B L ?r) (fb_keys L ?r) [] = Inr (votes b)"
      unfolding fold .
    with True show ?thesis
      by (simp add: Block_from_bytes_def empty_Block_def Let_def fields(1,2)
          BlockHeader_roundtrip_eq [OF L])
  next
    case False
    with ok kvs(1) have "\<exists>p \<in> set kvs. \<not> int (unat (fst p)) \<le> INT_MAX"
      by (auto simp: sendable_def)
    with step have "foldr_res (read_vote B L ?r \<circ> (to_string \<circ> fst)) kvs [] = Inl OutOfRange"
      by (rule foldr_res_fails)
    with False fold show ?thesis by (simp add: Block_from_bytes_def)
  qed
qed

lemma sendable_roundtrip:
  "flexlib_spec L \<Longrightarrow> sendable B b \<Longrightarrow>
     Block_from_bytes B L (Block_to_bytes L b) = Inr (b\<lparr>tss_sig := None\<rparr>)"
  by (simp add: Block_roundtrip_cases sendable_def)

interpretation header_wire: wire_codec BlockHeader_to_bytes
  "\<lambda>L bs. Inr (BlockHeader_from_bytes L bs)" "\<lambda>bh. True" "\<lambda>bh. bh"
  by unfold_locales (simp add: BlockHeader_roundtrip_eq)

interpretation vote_wire: wire_codec BlockVote_to_bytes "BlockVote_from_bytes B" "vote_ok B" "\<lambda>v. v"
  for B :: "'ss blslib"
  by unfold_locales (rule BlockVote_roundtrip)

interpretation block_wire: wire_codec Block_to_bytes "Block_from_bytes B" "sendable B"
  "\<lambda>b. b\<lparr>tss_sig := None\<rparr>"
  for B :: "'ss blslib"
  by unfold_locales (rule sendable_roundtrip)

lemma Block_from_bytes_ok: "Block_from_bytes B L bs = Inr b \<Longrightarrow> Block_ok b \<and> tss_sig b = None"
proof -
  assume "Block_from_bytes B L bs = Inr b"
  then obtain m vs where vs: "foldr_res (read_vote B L m) (fb_keys L m) [] = Inr vs"
    and b: "votes b = vs" "tss_sig b = None"
    by (auto simp: Block_from_bytes_def bindr_Inr_iff Let_def empty_Block_def)
  have "omap_ok vs"
    by (rule foldr_res_invariant [OF vs]) (auto simp: read_vote_def bindr_Inr_iff omap.invar_ins)
  with b show ?thesis by (simp add: Block_ok_def)
qed

subsection \<open>Sample entities\<close>

lemma sample_share_ok: "share_ok ref_bls (sample_share i)"
  by (simp add: share_ok_def sample_share_def ref_bls_def)

lemma sample_vote_ok: "vote_ok ref_bls (sample_vote bid i)"
  by (simp add: vote_ok_def sample_vote_def sample_share_ok)

lemma sample_block_shares_ok: "block_shares_ok ref_bls sample_block"
  using sample_vote_ok
  by (auto simp: block_shares_ok_def sample_block_def Block_add_vote_def entity_defs Block_ok_def)

lemma sample_block_sendable: "sendable ref_bls sample_block"
  using sample_block_shares_ok
  by (auto simp: sendable_def sample_block_def Block_add_vote_def entity_defs INT_MAX_def)

subsection \<open>Properties\<close>

text \<open>
  C17: a block written by \<open>to_bytes\<close> and read by \<open>from_bytes\<close> keeps its header,
  transactions and votes and loses its threshold signature, provided every voter number
  fits an \<open>int\<close>; with a larger voter number the reader raises \<open>out_of_range\<close>.
\<close>

theorem Block_bytes_roundtrip:
  assumes "flexlib_spec L" and "block_shares_ok B b"
  shows "Block_from_bytes B L (Block_to_bytes L b) =
    (if \<forall>k \<in> fst ` set (votes b). int (unat k) \<le> INT_MAX
     then Inr \<lparr>header = header b, tx_vec = tx_vec b, votes = votes b, tss_sig = None\<rparr>
     else Inl OutOfRange)"
  using Block_roundtrip_cases [OF assms] assms(2) by (simp add: sendable_def)

theorem Block_bytes_roundtrip_witness:
  "Block_from_bytes ref_bls ref_flex (Block_to_bytes ref_flex sample_block) = Inr sample_block
   \<and> Block_from_bytes ref_bls ref_flex
        (Block_to_bytes ref_flex (Block_add_vote 2147483648 (sample_vote 7 3) (mk_Block 7 0 0)))
      = Inl OutOfRange"
proof
  show "Block_from_bytes ref_bls ref_flex (Block_to_bytes ref_flex sample_block) = Inr sample_block"
    using Block_bytes_roundtrip [OF ref_flex_spec sample_block_shares_ok]
    by (simp add: sample_defs INT_MAX_def)
  let ?b = "Block_add_vote 2147483648 (sample_vote 7 3) (mk_Block 7 0 0)"
  have "block_shares_ok ref_bls ?b"
    by (simp add: block_shares_ok_def Block_add_vote_def sample_vote_ok entity_defs Block_ok_def)
  from Block_bytes_roundtrip [OF ref_flex_spec this]
  show "Block_from_bytes ref_bls ref_flex (Block_to_bytes ref_flex ?b) = Inl OutOfRange"
    by (simp add: Block_add_vote_def entity_defs INT_MAX_def)
qed

text \<open>
  A vote, with or without a signature share, survives the wire unchanged.
\<close>

theorem BlockVote_bytes_roundtrip:
  assumes "flexlib_spec L" and "vote_ok B v"
  shows "BlockVote_from_bytes B L (BlockVote_to_bytes L v) = Inr v"
  using assms by (rule vote_wire.read_back)

theorem BlockVote_bytes_roundtrip_witness:
  "BlockVote_from_bytes ref_bls ref_flex (BlockVote_to_bytes ref_flex (sample_vote 7 1))
     = Inr (sample_vote 7 1)"
  by (rule BlockVote_bytes_roundtrip [OF ref_flex_spec sample_vote_ok])

text \<open>
  Block headers, transactions and threshold signatures survive their own adapters
  unchanged.
\<close>

theorem header_tx_sig_bytes_roundtrip:
  assumes "flexlib_spec L" and "sig_ok B g"
  shows "BlockHeader_from_bytes L (BlockHeader_to_bytes L bh) = bh
    \<and> Transaction_from_bytes L (Transaction_to_bytes L tx) = tx
    \<and> BLSSignature_from_bytes B L (BLSSignature_to_bytes L g) = Inr g"
proof (intro conjI)
  show "BlockHeader_from_bytes L (BlockHeader_to_bytes L bh) = bh"
    by (rule BlockHeader_roundtrip_eq [OF assms(1)])
  show "Transaction_from_bytes L (Transaction_to_bytes L tx) = tx"
    using reads_finish [OF assms(1), of "FMap
       [(''id'', FUInt (tx_id tx)), (''sender'', FUInt (tx_sender tx)),
        (''receiver'', FUInt (tx_receiver tx)), (''value'', FUInt (tx_value tx)),
        (''fee'', FUInt (tx_fee tx))]"]
    by (simp add: Transaction_from_bytes_def Transaction_to_bytes_def mk_Transaction_def)
  show "BLSSignature_from_bytes B L (BLSSignature_to_bytes L g) = Inr g"
    using reads_finish [OF assms(1), of "FMap
       [(''sig'', FBlob (sig_point g)), (''hint'', FString (sig_hint g)),
        (''t'', FUInt (sig_t g)), (''n'', FUInt (sig_n g))]"] assms(2)
    by (simp add: BLSSignature_from_bytes_def BLSSignature_to_bytes_def sig_ok_def)
qed

theorem header_tx_sig_bytes_roundtrip_witness:
  "BlockHeader_from_bytes ref_flex (BlockHeader_to_bytes ref_flex (mk_BlockHeader 1 2 3))
     = mk_BlockHeader 1 2 3
   \<and> BLSSignature_from_bytes ref_bls ref_flex (BLSSignature_to_bytes ref_flex
        \<lparr>sig_point = replicate 96 1, sig_hint = ''h'', sig_t = 2, sig_n = 2\<rparr>)
     = Inr \<lparr>sig_point = replicate 96 1, sig_hint = ''h'', sig_t = 2, sig_n = 2\<rparr>"
proof -
  have "sig_ok ref_bls \<lparr>sig_point = replicate 96 1, sig_hint = ''h'', sig_t = 2, sig_n = 2\<rparr>"
    by (simp add: sig_ok_def ref_bls_def)
  from header_tx_sig_bytes_roundtrip [OF ref_flex_spec this] show ?thesis by blast
qed

end
