(* ===== verification/TC_Server.thy ===== *)
theory TC_Server
  imports TC_Flexbuffers
begin

text \<open>
  The server of \<open>include/server/tc-server.hpp\<close> and \<open>src/server/tc-server.cpp\<close>: its
  configuration, its state, start-up, transaction generation, block packing, vote
  merging and the removal of dead blocks.

  The record \<open>server\<close> has one field per member of class \<open>TcServer\<close>. Blocks are shared
  through \<open>shared_ptr\<close> between the pending and committed maps, the merge queue and the
  relay and broadcast queues, and are written through these pointers; so the state holds
  an explicit store, \<open>heap\<close>, and the containers hold addresses. \<open>make_shared\<close> is
  \<open>alloc\<close>, a dereference that could be null is \<open>deref\<close>. Two fields are observations
  rather than members: \<open>db_puts\<close> is the sequence of \<open>Put\<close> calls made on RocksDB and
  \<open>outbox\<close> the sequence of requests handed to the gRPC stubs of the peers.

  Random draws, clock readings, the traversal order of hash maps and the outcome of remote
  calls are arguments of the operations that use them. Key generation (libBLS' DKG and key
  share constructors, the ECDSA public key) is the parameter \<open>keylib\<close>. The DKG is random and every
  server runs its own: \<open>kl_dkg_shares K i\<close> is what server \<open>i\<close> draws.
\<close>

subsection \<open>Configuration, libraries and state\<close>

type_synonym addr = nat
type_synonym Fr = nat

record conf =
  cf_server_id :: u64
  cf_server_count :: u64
  cf_client_count :: u64
  cf_account_count :: u64
  cf_pb_pool_limit :: u64
  cf_generate_tx_rate :: u64
  cf_tx_per_block :: u64
  cf_block_die_threshold :: u64
  cf_use_rocksdb :: bool
  cf_peer_addr :: "string list"

record BLSPrivateKeyShare =
  sk_share :: Fr
  sk_t :: u64
  sk_n :: u64

record BLSPublicKeyShare =
  pk_share :: Fr
  pk_t :: u64
  pk_n :: u64

record keylib =
  kl_dkg_shares :: "u64 \<Rightarrow> u64 \<Rightarrow> u64 \<Rightarrow> Fr list res"
  kl_mk_sk :: "Fr \<Rightarrow> u64 \<Rightarrow> u64 \<Rightarrow> BLSPrivateKeyShare res"
  kl_mk_pk :: "Fr \<Rightarrow> u64 \<Rightarrow> u64 \<Rightarrow> BLSPublicKeyShare res"
  kl_sk_string :: "BLSPrivateKeyShare \<Rightarrow> bytes"
  kl_mk_pubkey :: "bytes \<Rightarrow> bytes res"

record ClientProfile =
  cl_id :: u64
  cl_ecc_pkey :: "bytes option"
  cl_tss_key :: "BLSPrivateKeyShare \<times> BLSPublicKeyShare"
  cl_seen_blocks :: "(u64, BlockHeader) chm"

datatype request =
    SPHeartbeatRequest u32
  | RelayVoteRequest u32 "bytes list"
  | RelayBlockRequest u32 "bytes list"
  | SPBcastCommitRequest u32 "bytes list" u64
  | RelayBlockSyncRequest u32 u64

record server =
  server_id :: u64
  clients :: "(u64, ClientProfile) chm"
  pending_blks :: "(u64, addr) chm"
  pb_sync_queue :: "u64 list"
  pb_sync_labels :: "u64 set"
  pb_merge_queue :: "addr list"
  committed_blks :: "(u64, addr) chm"
  pending_txs :: "(u64, Transaction) chm"
  blk_seq_generator :: u64
  relay_votes :: "(u64, BlockVote list) omap"
  relay_blocks :: "(u64, addr list) omap"
  bcast_commit_blocks :: "(u64, addr list) omap"
  dead_block :: "u64 set"
  peer_status :: "bool list"
  peer_stubs :: "(u64, string) omap"
  heap :: "Block list"
  db_puts :: "(string \<times> bytes) list"
  outbox :: "(u64 \<times> request) list"

definition new_server :: server where
  "new_server =
     \<lparr>server_id = 0, clients = [], pending_blks = [], pb_sync_queue = [], pb_sync_labels = {},
      pb_merge_queue = [], committed_blks = [], pending_txs = [], blk_seq_generator = 0,
      relay_votes = [], relay_blocks = [], bcast_commit_blocks = [], dead_block = {},
      peer_status = [], peer_stubs = [], heap = [], db_puts = [], outbox = []\<rparr>"

subsection \<open>The store of blocks\<close>

definition alloc :: "Block \<Rightarrow> server \<Rightarrow> addr \<times> server" where
  "alloc b s = (length (heap s), s\<lparr>heap := heap s @ [b]\<rparr>)"

definition deref :: "server \<Rightarrow> addr \<Rightarrow> Block res" where
  "deref s a = (if a < length (heap s) then Inr (heap s ! a) else Inl NullDeref)"

definition write_block :: "addr \<Rightarrow> Block \<Rightarrow> server \<Rightarrow> server" where
  "write_block a b s = s\<lparr>heap := (heap s)[a := b]\<rparr>"

subsection \<open>Start-up\<close>

definition init_server :: "conf \<Rightarrow> bool \<Rightarrow> server \<Rightarrow> server outcome" where
  "init_server C db_open_ok s =
     (let s1 = s\<lparr>server_id := cf_server_id C, blk_seq_generator := cf_server_id C * 1000000\<rparr>
      in if db_open_ok then (None, s1) else (Some AssertFailed, s1))"

definition peer_queues :: "u64 \<Rightarrow> u64 \<Rightarrow> (u64, 'a list) omap" where
  "peer_queues n self = fold (\<lambda>k. omap_insert k []) (peer_ids n self) []"

definition addr_ids :: "string list \<Rightarrow> (u64 \<times> string) list" where
  "addr_ids peer_addr = zip (map (\<lambda>i. word_of_nat (Suc i)) [0..<length peer_addr]) peer_addr"

definition init_peer_stubs :: "conf \<Rightarrow> server \<Rightarrow> server" where
  "init_peer_stubs C s =
     (let n = cf_server_count C; self = server_id s
      in s\<lparr>relay_votes := peer_queues n self,
           peer_status := replicate (unat n) False,
           relay_blocks := peer_queues n self,
           bcast_commit_blocks := peer_queues n self,
           peer_stubs := fold (\<lambda>(k, ad). if k = self then (\<lambda>m. m) else omap_insert k ad)
             (addr_ids (cf_peer_addr C)) (peer_stubs s)\<rparr>)"

definition mk_client :: "keylib \<Rightarrow> u64 \<Rightarrow> Fr list \<Rightarrow> nat \<Rightarrow> ClientProfile res" where
  "mk_client K n sshares i =
     (if i < length sshares
      then bindr (kl_mk_sk K (sshares ! i) n n) (\<lambda>sk.
           bindr (kl_mk_pk K (sshares ! i) n n) (\<lambda>pk.
             Inr \<lparr>cl_id = word_of_nat (Suc i), cl_ecc_pkey = None, cl_tss_key = (sk, pk),
                  cl_seen_blocks = []\<rparr>))
      else Inl OutOfRange)"

definition add_client :: "keylib \<Rightarrow> u64 \<Rightarrow> Fr list \<Rightarrow> nat \<Rightarrow> server \<Rightarrow> server outcome" where
  "add_client K n sshares i s =
     (case mk_client K n sshares i of
        Inl e \<Rightarrow> (Some e, s)
      | Inr cp \<Rightarrow> (None, s\<lparr>clients := chm_insert (cl_id cp) cp (clients s)\<rparr>))"

definition init_client_profile :: "keylib \<Rightarrow> conf \<Rightarrow> server \<Rightarrow> server outcome" where
  "init_client_profile K C s =
     (let n = cf_client_count C
      in case kl_dkg_shares K (server_id s) n n of
           Inl e \<Rightarrow> (Some e, s)
         | Inr sshares \<Rightarrow> foreach (add_client K n sshares) [0..<unat n] s)"

text \<open>
  \<open>start\<close>: the three initialisations, in the order of the code, which opens the gRPC
  services before the last one.
\<close>

definition start :: "keylib \<Rightarrow> conf \<Rightarrow> bool \<Rightarrow> server \<Rightarrow> server outcome" where
  "start K C db_open_ok s =
     (case init_server C db_open_ok s of
        (Some e, s1) \<Rightarrow> (Some e, s1)
      | (None, s1) \<Rightarrow>
          (case init_client_profile K C s1 of
             (Some e, s2) \<Rightarrow> (Some e, s2)
           | (None, s2) \<Rightarrow> (None, init_peer_stubs C s2)))"

definition get_shadow_peer_server_id :: "conf \<Rightarrow> server \<Rightarrow> u64" where
  "get_shadow_peer_server_id C s =
     (if server_id s = cf_server_count C then 1 else server_id s + 1)"

subsection \<open>Transactions and blocks\<close>

text \<open>
  \<open>rng k\<close> is the \<open>k\<close>-th draw of the uniform distribution over 1 to the number of
  accounts; every transaction takes four draws.
\<close>

definition random_tx :: "(nat \<Rightarrow> u64) \<Rightarrow> nat \<Rightarrow> Transaction" where
  "random_tx rng i =
     mk_Transaction (rng (4 * i)) (rng (4 * i + 1)) (rng (4 * i + 2)) 0 (rng (4 * i + 3))"

definition generate_tx :: "(nat \<Rightarrow> u64) \<Rightarrow> u64 \<Rightarrow> server \<Rightarrow> server" where
  "generate_tx rng num_tx s =
     s\<lparr>pending_txs := fold (\<lambda>i. let tx = random_tx rng i in chm_insert (tx_id tx) tx)
        [0..<unat num_tx] (pending_txs s)\<rparr>"

fun extract_txs :: "u64 \<Rightarrow> u64 \<Rightarrow> (u64 \<times> Transaction) list \<Rightarrow> (u64 \<times> Transaction) list" where
  "extract_txs num_tx tx_count [] = []"
| "extract_txs num_tx tx_count (p # ps) =
     p # (if num_tx \<le> tx_count + 1 then [] else extract_txs num_tx (tx_count + 1) ps)"

definition pack_one ::
  "((u64 \<times> Transaction) list \<Rightarrow> (u64 \<times> Transaction) list) \<Rightarrow> u64 \<Rightarrow> u64 \<Rightarrow> server \<Rightarrow> server" where
  "pack_one ord now num_tx s =
     (let block_id = blk_seq_generator s;
          taken = extract_txs num_tx 0 (ord (pending_txs s));
          new_block = (mk_Block block_id 0xDEADBEEF now)\<lparr>tx_vec := map snd taken\<rparr>;
          (a, s1) = alloc new_block (s\<lparr>blk_seq_generator := blk_seq_generator s + 1\<rparr>)
      in s1\<lparr>relay_blocks := push_all a (relay_blocks s1),
            pending_blks := chm_assign block_id a (pending_blks s1),
            pending_txs := fold chm_erase (map fst taken) (pending_txs s1)\<rparr>)"

fun pack_blocks ::
  "((u64 \<times> Transaction) list \<Rightarrow> (u64 \<times> Transaction) list) \<Rightarrow> (nat \<Rightarrow> u64) \<Rightarrow> u64 \<Rightarrow> nat \<Rightarrow> server \<Rightarrow> server" where
  "pack_blocks ord clk num_tx 0 s = s"
| "pack_blocks ord clk num_tx (Suc n) s =
     (if unat num_tx \<le> length (pending_txs s)
      then pack_blocks ord (\<lambda>i. clk (Suc i)) num_tx n (pack_one ord (clk 0) num_tx s)
      else s)"

definition pack_block ::
  "((u64 \<times> Transaction) list \<Rightarrow> (u64 \<times> Transaction) list) \<Rightarrow> (nat \<Rightarrow> u64) \<Rightarrow> u64 \<Rightarrow> u64 \<Rightarrow> server \<Rightarrow> server" where
  "pack_block ord clk num_tx num_block s = pack_blocks ord clk num_tx (unat num_block) s"

text \<open>One round of the packing thread of \<open>schedule\<close>.\<close>

definition pack_round ::
  "((u64 \<times> Transaction) list \<Rightarrow> (u64 \<times> Transaction) list) \<Rightarrow> (nat \<Rightarrow> u64) \<Rightarrow> (nat \<Rightarrow> u64) \<Rightarrow>
     conf \<Rightarrow> server \<Rightarrow> server" where
  "pack_round ord clk rng C s =
     (let s1 = (if length (pending_blks s) < unat (cf_pb_pool_limit C)
                then generate_tx rng (cf_generate_tx_rate C) s else s)
      in pack_block ord clk (cf_tx_per_block C) (word_of_int INT_MAX) s1)"

subsection \<open>Merging votes and committing\<close>

definition block_name :: "u64 \<Rightarrow> string" where
  "block_name i = ''block-'' @ to_string i"

definition merge_one :: "'ss blslib \<Rightarrow> 'r flexlib \<Rightarrow> conf \<Rightarrow> u64 \<Rightarrow> addr \<Rightarrow> server \<Rightarrow> server outcome" where
  "merge_one B L C now a s =
     (case bindr (deref s a) (Block_merge_votes B (cf_client_count C)) of
        Inl e \<Rightarrow> (Some e, s)
      | Inr b \<Rightarrow>
          let b' = b\<lparr>header := (header b)\<lparr>hdr_commit_ts := now, hdr_recv_ts := now\<rparr>\<rparr>;
              s1 = write_block a b' s
          in (None, s1\<lparr>committed_blks := chm_assign (block_id b') a (committed_blks s1),
                       db_puts := db_puts s1 @ [(block_name (block_id b'), Block_to_bytes L b')],
                       bcast_commit_blocks := push_all a (bcast_commit_blocks s1)\<rparr>))"

lemma merge_one_queue: "pb_merge_queue (snd (merge_one B L C now a s)) = pb_merge_queue s"
  by (simp add: merge_one_def write_block_def Let_def split: sum.split)

function merge_votes ::
  "'ss blslib \<Rightarrow> 'r flexlib \<Rightarrow> conf \<Rightarrow> (nat \<Rightarrow> u64) \<Rightarrow> server \<Rightarrow> server outcome" where
  "merge_votes B L C clk s =
     (case try_pop (pb_merge_queue s) of
        None \<Rightarrow> (None, s)
      | Some (a, q) \<Rightarrow>
          (case merge_one B L C (clk 0) a (s\<lparr>pb_merge_queue := q\<rparr>) of
             (None, s') \<Rightarrow> merge_votes B L C (\<lambda>i. clk (Suc i)) s'
           | (Some e, s') \<Rightarrow> (Some e, s')))"
  by pat_completeness auto
termination
proof (relation "measure (\<lambda>(B, L, C, clk, s). length (pb_merge_queue s))", goal_cases)
  case 1
  then show ?case by simp
next
  case (2 B L C clk s p a q x s')
  then have "s' = snd (merge_one B L C (clk 0) a (s\<lparr>pb_merge_queue := q\<rparr>))"
    by (metis snd_conv)
  then have "pb_merge_queue s' = q" by (simp add: merge_one_queue)
  with "2" show ?case by (auto dest: lq.try_pop_shrinks)
qed

declare merge_votes.simps [simp del]

subsection \<open>Dead blocks\<close>

definition remove_dead_one :: "conf \<Rightarrow> u64 \<Rightarrow> u64 \<Rightarrow> server \<Rightarrow> server outcome" where
  "remove_dead_one C now i s =
     (case map_of (pending_blks s) i of
        None \<Rightarrow> (None, s)
      | Some a \<Rightarrow>
          (case deref s a of
             Inl e \<Rightarrow> (Some e, s)
           | Inr b \<Rightarrow>
               let delta = now - hdr_proposal_ts (header b)
               in if delta > 100000 then (None, s)
                  else if delta > cf_block_die_threshold C
                  then (None, s\<lparr>dead_block := insert i (dead_block s),
                                pending_blks := chm_erase i (pending_blks s)\<rparr>)
                  else (None, s)))"

definition remove_dead_blocks ::
  "((u64 \<times> addr) list \<Rightarrow> (u64 \<times> addr) list) \<Rightarrow> (u64 \<Rightarrow> u64) \<Rightarrow> conf \<Rightarrow> server \<Rightarrow> server outcome" where
  "remove_dead_blocks ord clk C s =
     (case mapr (\<lambda>(k, a). bindr (deref s a) (\<lambda>b. Inr (block_id b))) (ord (pending_blks s)) of
        Inl e \<Rightarrow> (Some e, s)
      | Inr block_id_list \<Rightarrow> foreach (\<lambda>i. remove_dead_one C (clk i) i) block_id_list s)"

subsection \<open>Well-formed servers\<close>

text \<open>
  \<open>evolves\<close> is how a block in the store may change while the server runs: it keeps its
  number, base and transactions, and votes are only added. A server is well formed when
  its maps have distinct keys, every pointer is valid, a pending or committed block is
  filed under its own number, and a block that waits for merging waits once and is no
  longer pending.
\<close>

definition evolves :: "Block \<Rightarrow> Block \<Rightarrow> bool" where
  "evolves b b' \<longleftrightarrow>
     block_id b' = block_id b \<and> hdr_base_id (header b') = hdr_base_id (header b) \<and>
     hdr_proposal_ts (header b') = hdr_proposal_ts (header b) \<and> tx_vec b' = tx_vec b \<and>
     map_of (votes b) \<subseteq>\<^sub>m map_of (votes b') \<and> length (votes b) \<le> length (votes b')"

definition heap_le :: "Block list \<Rightarrow> Block list \<Rightarrow> bool" where
  "heap_le h h' \<longleftrightarrow> length h \<le> length h' \<and> (\<forall>a < length h. evolves (h ! a) (h' ! a))"

definition keyed :: "Block list \<Rightarrow> (u64, addr) chm \<Rightarrow> bool" where
  "keyed h m \<longleftrightarrow> (\<forall>k a. map_of m k = Some a \<longrightarrow> a < length h \<and> block_id (h ! a) = k)"

definition queues_valid :: "Block list \<Rightarrow> (u64, addr list) omap \<Rightarrow> bool" where
  "queues_valid h qs \<longleftrightarrow> (\<forall>k q a. map_of qs k = Some q \<longrightarrow> a \<in> set q \<longrightarrow> a < length h)"

definition server_wf :: "server \<Rightarrow> bool" where
  "server_wf s \<longleftrightarrow>
     chm_ok (clients s) \<and> chm_ok (pending_txs s) \<and> chm_ok (pending_blks s) \<and> chm_ok (committed_blks s) \<and>
     keyed (heap s) (pending_blks s) \<and> keyed (heap s) (committed_blks s) \<and>
     (\<forall>a \<in> set (pb_merge_queue s). a < length (heap s)) \<and>
     queues_valid (heap s) (relay_blocks s) \<and> queues_valid (heap s) (bcast_commit_blocks s) \<and>
     (\<forall>b \<in> set (heap s). Block_ok b) \<and>
     distinct (pb_merge_queue s) \<and> set (pb_merge_queue s) \<inter> ran (map_of (pending_blks s)) = {}"

lemma evolves_refl [simp]: "evolves b b"
  by (simp add: evolves_def)

lemma evolves_trans: "evolves a b \<Longrightarrow> evolves b c \<Longrightarrow> evolves a c"
  by (auto simp: evolves_def intro: map_le_trans)

lemma evolves_add_vote: "Block_ok b \<Longrightarrow> evolves b (Block_add_vote k v b)"
  using omap.count_ins_mono [of "votes b" k v]
  by (auto simp: evolves_def Block_add_vote_lookup map_le_def domIff)
    (simp_all add: Block_add_vote_def Block_ok_def)

lemma evolves_enough: "evolves b b' \<Longrightarrow> is_vote_enough n b \<Longrightarrow> is_vote_enough n b'"
  by (simp add: evolves_def is_vote_enough_def)

lemma heap_le_refl [simp]: "heap_le h h"
  by (simp add: heap_le_def)

lemma heap_le_trans: "heap_le h i \<Longrightarrow> heap_le i j \<Longrightarrow> heap_le h j"
  unfolding heap_le_def by (auto intro: evolves_trans)

lemma heap_le_append [simp]: "heap_le h (h @ bs)"
  by (simp add: heap_le_def nth_append)

lemma heap_le_update: "evolves (h ! a) b \<Longrightarrow> heap_le h (h[a := b])"
  unfolding heap_le_def
  by (auto, metis evolves_refl nth_list_update_eq nth_list_update_neq)

lemma keyed_mono: "keyed h m \<Longrightarrow> heap_le h h' \<Longrightarrow> keyed h' m"
  unfolding keyed_def heap_le_def evolves_def by (metis order_less_le_trans)

lemma queues_valid_mono: "queues_valid h m \<Longrightarrow> heap_le h h' \<Longrightarrow> queues_valid h' m"
  unfolding queues_valid_def heap_le_def by (metis order_less_le_trans)

lemma keyed_assign:
  "chm_ok m \<Longrightarrow> keyed h m \<Longrightarrow> a < length h \<Longrightarrow> block_id (h ! a) = k \<Longrightarrow> keyed h (chm_assign k a m)"
  by (auto simp: keyed_def chm.lookup_assign split: if_splits)

lemma keyed_erase: "chm_ok m \<Longrightarrow> keyed h m \<Longrightarrow> keyed h (chm_erase k m)"
  by (auto simp: keyed_def chm.lookup_erase split: if_splits)

lemma queues_valid_push_all: "queues_valid h qs \<Longrightarrow> a < length h \<Longrightarrow> queues_valid h (push_all a qs)"
  by (auto simp: queues_valid_def push_all_lookup)

lemma queues_valid_update: "queues_valid h qs \<Longrightarrow> queues_valid h (AList.update k [] qs)"
  by (auto simp: queues_valid_def update_conv')

text \<open>A step that only extends or evolves the store keeps a server well formed.\<close>

lemma server_wf_heap:
  assumes "server_wf s" and "heap_le (heap s) h" and "\<forall>b \<in> set h. Block_ok b"
  shows "server_wf (s\<lparr>heap := h\<rparr>)"
proof -
  have "length (heap s) \<le> length h" using assms(2) by (simp add: heap_le_def)
  with assms show ?thesis
    unfolding server_wf_def
    by (auto intro: keyed_mono queues_valid_mono order_less_le_trans)
qed

lemma server_wf_alloc [keeps_inv]: "server_wf s \<Longrightarrow> Block_ok b \<Longrightarrow> server_wf (s\<lparr>heap := heap s @ [b]\<rparr>)"
  by (rule server_wf_heap) (auto simp: server_wf_def)

lemma server_wf_write [keeps_inv]:
  "server_wf s \<Longrightarrow> evolves (heap s ! a) b \<Longrightarrow> Block_ok b \<Longrightarrow> server_wf (write_block a b s)"
  unfolding write_block_def
  by (rule server_wf_heap)
    (auto simp: heap_le_update server_wf_def dest!: set_update_subset_insert [THEN subsetD])

lemma server_wf_heap_ok: "server_wf s \<Longrightarrow> a < length (heap s) \<Longrightarrow> Block_ok (heap s ! a)"
  by (simp add: server_wf_def)

lemma server_wf_pending:
  "server_wf s \<Longrightarrow> map_of (pending_blks s) k = Some a \<Longrightarrow>
     a < length (heap s) \<and> block_id (heap s ! a) = k \<and> Block_ok (heap s ! a) \<and> a \<notin> set (pb_merge_queue s)"
  by (auto simp: server_wf_def keyed_def ran_def)

lemma server_wf_deref_pending:
  "server_wf s \<Longrightarrow> map_of (pending_blks s) k = Some a \<Longrightarrow> deref s a = Inr (heap s ! a)"
  by (simp add: deref_def server_wf_pending)

lemma server_wf_pending_assign [keeps_inv]:
  "server_wf s \<Longrightarrow> a < length (heap s) \<Longrightarrow> block_id (heap s ! a) = k \<Longrightarrow> a \<notin> set (pb_merge_queue s) \<Longrightarrow>
     server_wf (s\<lparr>pending_blks := chm_assign k a (pending_blks s)\<rparr>)"
  by (auto simp: server_wf_def keyed_assign chm.invar_assign chm.lookup_assign ran_def)

lemma server_wf_pending_erase [keeps_inv]:
  "server_wf s \<Longrightarrow> server_wf (s\<lparr>pending_blks := chm_erase k (pending_blks s)\<rparr>)"
  by (auto simp: server_wf_def keyed_erase chm.invar_erase chm.lookup_erase ran_def)

lemma server_wf_committed_assign [keeps_inv]:
  "server_wf s \<Longrightarrow> a < length (heap s) \<Longrightarrow> block_id (heap s ! a) = k \<Longrightarrow>
     server_wf (s\<lparr>committed_blks := chm_assign k a (committed_blks s)\<rparr>)"
  by (simp add: server_wf_def keyed_assign chm.invar_assign)

text \<open>The last vote: a pending block moves to the merge queue.\<close>

lemma server_wf_to_merge [keeps_inv]:
  assumes "server_wf s" and "map_of (pending_blks s) k = Some a"
  shows "server_wf (s\<lparr>pb_merge_queue := push a (pb_merge_queue s),
                     pending_blks := chm_erase k (pending_blks s)\<rparr>)"
proof -
  have "chm_ok (pending_blks s)" using assms(1) by (simp add: server_wf_def)
  moreover have "j = k" if "map_of (pending_blks s) j = Some a" for j
    using assms that by (metis server_wf_pending)
  ultimately have "ran (map_of (chm_erase k (pending_blks s))) \<subseteq> ran (map_of (pending_blks s)) - {a}"
    by (fastforce simp: chm.lookup_erase ran_def split: if_splits)
  then have "(set (pb_merge_queue s) \<union> {a}) \<inter> ran (map_of (chm_erase k (pending_blks s))) = {}"
    using assms(1) unfolding server_wf_def by blast
  then show ?thesis
    using assms(1) server_wf_pending [OF assms]
    by (simp add: server_wf_def keyed_erase push_def chm.invar_erase)
qed

lemma server_wf_merge_pop [keeps_inv]:
  "server_wf s \<Longrightarrow> pb_merge_queue s = a # q \<Longrightarrow> server_wf (s\<lparr>pb_merge_queue := q\<rparr>)"
  by (auto simp: server_wf_def)

lemma server_wf_relay_push [keeps_inv]:
  "server_wf s \<Longrightarrow> a < length (heap s) \<Longrightarrow>
     server_wf (s\<lparr>relay_blocks := push_all a (relay_blocks s)\<rparr>)"
  by (simp add: server_wf_def queues_valid_push_all)

lemma server_wf_bcast_push [keeps_inv]:
  "server_wf s \<Longrightarrow> a < length (heap s) \<Longrightarrow>
     server_wf (s\<lparr>bcast_commit_blocks := push_all a (bcast_commit_blocks s)\<rparr>)"
  by (simp add: server_wf_def queues_valid_push_all)

lemma server_wf_drained [keeps_inv]:
  "server_wf s \<Longrightarrow> server_wf (s\<lparr>relay_blocks := AList.update k [] (relay_blocks s)\<rparr>)"
  "server_wf s \<Longrightarrow> server_wf (s\<lparr>bcast_commit_blocks := AList.update k [] (bcast_commit_blocks s)\<rparr>)"
  by (simp_all add: server_wf_def queues_valid_update)

text \<open>Fields that well-formedness does not mention.\<close>

lemma server_wf_frame [simp]:
  "server_wf (s\<lparr>server_id := x1\<rparr>) = server_wf s"
  "server_wf (s\<lparr>pb_sync_queue := x2\<rparr>) = server_wf s"
  "server_wf (s\<lparr>pb_sync_labels := x3\<rparr>) = server_wf s"
  "server_wf (s\<lparr>blk_seq_generator := x4\<rparr>) = server_wf s"
  "server_wf (s\<lparr>relay_votes := x5\<rparr>) = server_wf s"
  "server_wf (s\<lparr>dead_block := x6\<rparr>) = server_wf s"
  "server_wf (s\<lparr>peer_status := x7\<rparr>) = server_wf s"
  "server_wf (s\<lparr>peer_stubs := x8\<rparr>) = server_wf s"
  "server_wf (s\<lparr>db_puts := x9\<rparr>) = server_wf s"
  "server_wf (s\<lparr>outbox := x10\<rparr>) = server_wf s"
  by (simp_all add: server_wf_def)

lemma server_wf_clients: "server_wf s \<Longrightarrow> chm_ok cs \<Longrightarrow> server_wf (s\<lparr>clients := cs\<rparr>)"
  and server_wf_pending_txs: "server_wf s \<Longrightarrow> chm_ok ts \<Longrightarrow> server_wf (s\<lparr>pending_txs := ts\<rparr>)"
  by (simp_all add: server_wf_def)

lemma server_wf_new: "server_wf new_server"
  by (simp add: new_server_def server_wf_def keyed_def queues_valid_def)

end
