(* ===== verification/TC_ServerOps.thy ===== *)
theory TC_ServerOps
  imports TC_Server
begin

text \<open>
  What the operations of \<open>TC_Server\<close> do: start-up gives every peer its queues and every
  client its keys; packing moves pending transactions into blocks without losing or
  duplicating any; merging commits every block of the merge queue; the removal of dead
  blocks takes out exactly the blocks whose age is in the configured window. Every
  operation keeps the server well formed and only lets blocks evolve.
\<close>

subsection \<open>Start-up\<close>

lemma peer_queues_fold:
  "(peer_queues n self :: (u64, 'a list) omap) =
     fold (\<lambda>(k, v). omap_insert k v) (map (\<lambda>k. (k, [])) (peer_ids n self)) []"
  by (simp add: peer_queues_def fold_map comp_def)

lemma peer_queues_lookup:
  "map_of (peer_queues n self) k = (if k \<in> {1..n} - {self} then Some [] else None)"
  by (simp add: peer_queues_fold omap.fold_ins_lookup map_of_map_restrict set_peer_ids
      restrict_map_def del: fold_map)

lemma peer_queues_ok: "omap_ok (peer_queues n self)"
  by (simp add: peer_queues_fold omap.fold_ins_invar del: fold_map)

lemma server_wf_init_peer_stubs [keeps_inv]:
  "server_wf s \<Longrightarrow> server_wf (init_peer_stubs C s)"
  by (auto simp: init_peer_stubs_def server_wf_def Let_def queues_valid_def peer_queues_lookup)

lemma add_client_ok:
  assumes "mk_client K n sh i = Inr cp"
  shows "add_client K n sh i s = (None, s\<lparr>clients := chm_insert (word_of_nat (Suc i)) cp (clients s)\<rparr>)"
  using assms by (auto simp: add_client_def mk_client_def bindr_Inr_iff split: if_splits)

lemma mk_client_keys:
  "mk_client K n sh i = Inr cp \<Longrightarrow>
     cl_seen_blocks cp = [] \<and> kl_mk_sk K (sh ! i) n n = Inr (fst (cl_tss_key cp)) \<and>
     kl_mk_pk K (sh ! i) n n = Inr (snd (cl_tss_key cp))"
  by (auto simp: mk_client_def bindr_Inr_iff split: if_splits)

subsection \<open>Packing\<close>

lemma extract_txs_from:
  "cnt < num \<Longrightarrow> extract_txs num cnt ps = take (unat num - unat cnt) ps"
proof (induction num cnt ps rule: extract_txs.induct)
  case (1 num cnt)
  then show ?case by simp
next
  case (2 num cnt p ps)
  then have lt: "unat cnt < unat num" by (simp add: word_less_nat_alt)
  then have suc: "unat (cnt + 1) = unat cnt + 1"
    using unat_Suc_no_overflow [of cnt cnt] "2.prems" by fastforce
  show ?case
  proof (cases "num \<le> cnt + 1")
    case True
    with lt suc have "unat num - unat cnt = 1" by (simp add: word_le_nat_alt)
    with True show ?thesis by simp
  next
    case False
    then have "cnt + 1 < num" by simp
    with "2.IH" False have "extract_txs num (cnt + 1) ps = take (unat num - unat (cnt + 1)) ps"
      by blast
    with False lt suc show ?thesis by (simp add: take_Cons' )
  qed
qed

lemma extract_txs_take: "num \<noteq> 0 \<Longrightarrow> extract_txs num 0 ps = take (unat num) ps"
  using extract_txs_from [of 0 num ps] by (simp add: word_neq_0_conv)

lemma fold_chm_erase: "fold chm_erase ks m = filter (\<lambda>p. fst p \<notin> set ks) m"
  by (induction ks arbitrary: m)
    (auto simp: chm_erase_def AList.delete_eq case_prod_beta intro!: filter_cong)

text \<open>Erasing the keys of a part of a traversal leaves the rest of it.\<close>

lemma erase_taken_mset:
  assumes "chm_ok m" and "mset m = mset (xs @ ys)"
  shows "mset (fold chm_erase (map fst xs) m) = mset ys"
proof -
  have d: "distinct (map fst (xs @ ys))"
    using assms by (metis mset_eq_imp_distinct_iff mset_map)
  have "mset (fold chm_erase (map fst xs) m) = filter_mset (\<lambda>p. fst p \<notin> fst ` set xs) (mset m)"
    by (simp add: fold_chm_erase)
  also have "\<dots> = filter_mset (\<lambda>p. fst p \<notin> fst ` set xs) (mset (xs @ ys))"
    by (simp only: assms(2))
  also have "\<dots> = mset (filter (\<lambda>p. fst p \<notin> fst ` set xs) xs) + mset (filter (\<lambda>p. fst p \<notin> fst ` set xs) ys)"
    by simp
  also have "filter (\<lambda>p. fst p \<notin> fst ` set xs) xs = []" by (simp add: filter_empty_conv)
  also have "filter (\<lambda>p. fst p \<notin> fst ` set xs) ys = ys"
    using d by (auto intro!: filter_True)
  finally show ?thesis by simp
qed

definition packed_block ::
  "((u64 \<times> Transaction) list \<Rightarrow> (u64 \<times> Transaction) list) \<Rightarrow> u64 \<Rightarrow> u64 \<Rightarrow> server \<Rightarrow> Block" where
  "packed_block ord now num_tx s =
     (mk_Block (blk_seq_generator s) 0xDEADBEEF now)
       \<lparr>tx_vec := map snd (extract_txs num_tx 0 (ord (pending_txs s)))\<rparr>"

lemma pack_one_fields:
  "heap (pack_one ord now num s) = heap s @ [packed_block ord now num s]"
  "blk_seq_generator (pack_one ord now num s) = blk_seq_generator s + 1"
  "pending_blks (pack_one ord now num s) =
     chm_assign (blk_seq_generator s) (length (heap s)) (pending_blks s)"
  "relay_blocks (pack_one ord now num s) = push_all (length (heap s)) (relay_blocks s)"
  "pending_txs (pack_one ord now num s) =
     fold chm_erase (map fst (extract_txs num 0 (ord (pending_txs s)))) (pending_txs s)"
  by (simp_all add: pack_one_def alloc_def Let_def packed_block_def)

lemma packed_block_facts:
  "block_id (packed_block ord now num s) = blk_seq_generator s"
  "Block_ok (packed_block ord now num s)"
  "votes (packed_block ord now num s) = []"
  by (simp_all add: packed_block_def entity_defs Block_ok_def)

lemma server_wf_pack_one [keeps_inv]:
  assumes "server_wf s"
  shows "server_wf (pack_one ord now num s)"
proof -
  let ?b = "packed_block ord now num s" and ?a = "length (heap s)"
  let ?s1 = "s\<lparr>blk_seq_generator := blk_seq_generator s + 1, heap := heap s @ [?b]\<rparr>"
  have "server_wf ?s1"
    using server_wf_alloc [of "s\<lparr>blk_seq_generator := blk_seq_generator s + 1\<rparr>" ?b] assms
    by (simp add: packed_block_facts)
  then have "server_wf (?s1\<lparr>relay_blocks := push_all ?a (relay_blocks ?s1)\<rparr>)"
    by (rule server_wf_relay_push) simp
  moreover have "?a \<notin> set (pb_merge_queue s)" using assms by (auto simp: server_wf_def)
  ultimately have "server_wf (?s1\<lparr>relay_blocks := push_all ?a (relay_blocks ?s1),
      pending_blks := chm_assign (blk_seq_generator s) ?a (pending_blks ?s1)\<rparr>)"
    using server_wf_pending_assign
      [of "?s1\<lparr>relay_blocks := push_all ?a (relay_blocks ?s1)\<rparr>" ?a "blk_seq_generator s"]
    by (simp add: packed_block_facts)
  moreover have "chm_ok (pending_txs (pack_one ord now num s))"
    using assms by (simp add: pack_one_fields chm.fold_erase_invar server_wf_def)
  ultimately show ?thesis
    by (auto dest: server_wf_pending_txs simp: pack_one_def alloc_def Let_def packed_block_def)
qed

lemma pack_one_conserves:
  assumes "chm_ok (pending_txs s)" and "visits_all ord" and "num \<noteq> 0"
    and "unat num \<le> length (pending_txs s)"
  shows "length (tx_vec (packed_block ord now num s)) = unat num"
    and "mset (map snd (pending_txs s)) =
      mset (map snd (pending_txs (pack_one ord now num s))) + mset (tx_vec (packed_block ord now num s))"
proof -
  let ?xs = "take (unat num) (ord (pending_txs s))" and ?ys = "drop (unat num) (ord (pending_txs s))"
  have tx: "tx_vec (packed_block ord now num s) = map snd ?xs"
    using assms(3) by (simp add: packed_block_def extract_txs_take)
  then show "length (tx_vec (packed_block ord now num s)) = unat num"
    using assms(2,4) by (simp add: visits_all_length)
  have m: "mset (pending_txs s) = mset (?xs @ ?ys)"
    using assms(2) by (simp add: visits_all_def)
  then have "mset (pending_txs (pack_one ord now num s)) = mset ?ys"
    unfolding pack_one_fields extract_txs_take [OF assms(3)] by (rule erase_taken_mset [OF assms(1)])
  with m show "mset (map snd (pending_txs s)) =
      mset (map snd (pending_txs (pack_one ord now num s))) + mset (tx_vec (packed_block ord now num s))"
    by (simp only: tx mset_map mset_append image_mset_union add.commute)
qed

text \<open>The blocks that an operation added to the store, in the order they were made.\<close>

definition new_blocks :: "server \<Rightarrow> server \<Rightarrow> Block list" where
  "new_blocks s s' = drop (length (heap s)) (heap s')"

lemma pack_blocks_extends: "\<exists>bs. heap (pack_blocks ord clk num n s) = heap s @ bs"
proof (induction n arbitrary: s clk)
  case 0
  then show ?case by simp
next
  case (Suc n)
  obtain bs where "heap (pack_blocks ord (\<lambda>i. clk (Suc i)) num n (pack_one ord (clk 0) num s)) =
      heap (pack_one ord (clk 0) num s) @ bs"
    using Suc.IH by blast
  then show ?case by (simp add: pack_one_fields)
qed

lemma pack_blocks_heap:
  "heap (pack_blocks ord clk num n s) = heap s @ new_blocks s (pack_blocks ord clk num n s)"
  using pack_blocks_extends [of ord clk num n s] by (auto simp: new_blocks_def)

lemma new_blocks_step:
  assumes "unat num \<le> length (pending_txs s)"
  shows "new_blocks s (pack_blocks ord clk num (Suc n) s) =
    packed_block ord (clk 0) num s #
      new_blocks (pack_one ord (clk 0) num s)
        (pack_blocks ord (\<lambda>i. clk (Suc i)) num n (pack_one ord (clk 0) num s))"
  using assms pack_blocks_extends [of ord "\<lambda>i. clk (Suc i)" num n "pack_one ord (clk 0) num s"]
  by (auto simp: new_blocks_def pack_one_fields)

lemma new_blocks_same [simp]: "new_blocks s s = []"
  by (simp add: new_blocks_def)

lemma server_wf_pack_blocks [keeps_inv]: "server_wf s \<Longrightarrow> server_wf (pack_blocks ord clk num n s)"
  by (induction n arbitrary: s clk) (auto intro: server_wf_pack_one)

lemma length_new_blocks_le: "length (new_blocks s (pack_blocks ord clk num n s)) \<le> n"
proof (induction n arbitrary: s clk)
  case 0
  then show ?case by simp
next
  case (Suc n)
  then show ?case
    by (cases "unat num \<le> length (pending_txs s)")
      (simp_all add: new_blocks_step del: pack_blocks.simps, simp)
qed

lemma pack_blocks_conserves:
  fixes clk :: "nat \<Rightarrow> u64" and n :: nat
  assumes "server_wf s" and "visits_all ord" and "num \<noteq> 0"
  defines "s' \<equiv> pack_blocks ord clk num n s"
  shows "(\<forall>b \<in> set (new_blocks s s'). length (tx_vec b) = unat num)
    \<and> mset (map snd (pending_txs s)) =
        mset (map snd (pending_txs s')) + mset (concat (map tx_vec (new_blocks s s')))
    \<and> (length (new_blocks s s') = n \<or> length (pending_txs s') < unat num)"
  using assms(1) unfolding s'_def
proof (induction n arbitrary: s clk)
  case 0
  then show ?case by simp
next
  case (Suc n)
  show ?case
  proof (cases "unat num \<le> length (pending_txs s)")
    case True
    let ?b = "packed_block ord (clk 0) num s" and ?s1 = "pack_one ord (clk 0) num s"
    have "chm_ok (pending_txs s)" using Suc.prems by (simp add: server_wf_def)
    note one = pack_one_conserves [OF this assms(2,3) True, of "clk 0"]
    note IH = Suc.IH [OF server_wf_pack_one [OF Suc.prems, of ord "clk 0" num],
        of "\<lambda>i. clk (Suc i)"]
    have step: "pack_blocks ord clk num (Suc n) s = pack_blocks ord (\<lambda>i. clk (Suc i)) num n ?s1"
      using True by simp
    have nb: "new_blocks s (pack_blocks ord (\<lambda>i. clk (Suc i)) num n ?s1) =
        ?b # new_blocks ?s1 (pack_blocks ord (\<lambda>i. clk (Suc i)) num n ?s1)"
      using new_blocks_step [OF True, of ord clk n] unfolding step .
    show ?thesis
      unfolding step nb using one IH by (auto simp: ac_simps)
  next
    case False
    then show ?thesis by simp
  qed
qed

lemma word_of_nat_shift_neq:
  fixes g :: u64
  assumes "Suc j < 2 ^ 64"
  shows "g + 1 + word_of_nat j \<noteq> g"
proof
  assume "g + 1 + word_of_nat j = g"
  then have "(word_of_nat (Suc j) :: u64) = 0" by (simp add: algebra_simps)
  then have "Suc j mod 2 ^ 64 = 0"
    using unat_of_nat [where ?'a = 64, of "Suc j"] by (simp del: of_nat_Suc)
  with assms show False by simp
qed

lemma pack_blocks_numbers:
  fixes clk :: "nat \<Rightarrow> u64" and num :: u64
    and ord :: "(u64 \<times> Transaction) list \<Rightarrow> (u64 \<times> Transaction) list"
  assumes "n < 2 ^ 64" and "chm_ok (pending_blks s)"
  defines "s' \<equiv> pack_blocks ord clk num n s"
  shows "blk_seq_generator s' = blk_seq_generator s + word_of_nat (length (new_blocks s s'))
    \<and> (\<forall>i < length (new_blocks s s').
         block_id (new_blocks s s' ! i) = blk_seq_generator s + word_of_nat i \<and>
         map_of (pending_blks s') (blk_seq_generator s + word_of_nat i) = Some (length (heap s) + i))
    \<and> (\<forall>k. (\<forall>i < length (new_blocks s s'). k \<noteq> blk_seq_generator s + word_of_nat i) \<longrightarrow>
         map_of (pending_blks s') k = map_of (pending_blks s) k)"
  using assms(1,2) unfolding s'_def
proof (induction n arbitrary: s clk)
  case 0
  then show ?case by simp
next
  case (Suc n)
  show ?case
  proof (cases "unat num \<le> length (pending_txs s)")
    case True
    let ?s1 = "pack_one ord (clk 0) num s" and ?g = "blk_seq_generator s"
    let ?s2 = "pack_blocks ord (\<lambda>i. clk (Suc i)) num n ?s1"
    let ?bs = "new_blocks ?s1 ?s2"
    have step: "pack_blocks ord clk num (Suc n) s = ?s2" using True by simp
    have "chm_ok (pending_blks ?s1)"
      using Suc.prems by (simp add: pack_one_fields chm.invar_assign)
    note IH = Suc.IH [OF _ this, of "\<lambda>i. clk (Suc i)", unfolded pack_one_fields(2)]
    have p1: "map_of (pending_blks ?s1) = (map_of (pending_blks s))(?g \<mapsto> length (heap s))"
      using Suc.prems by (simp add: pack_one_fields chm.lookup_assign)
    have "?g \<noteq> ?g + 1 + word_of_nat j" if "j < length ?bs" for j
    proof -
      have "j < n" using that length_new_blocks_le [of ?s1 ord "\<lambda>i. clk (Suc i)" num n] by simp
      then show ?thesis using word_of_nat_shift_neq [of j ?g] Suc.prems(1) by fastforce
    qed
    with IH Suc.prems p1 have first: "map_of (pending_blks ?s2) ?g = Some (length (heap s))" by simp
    have nb: "new_blocks s ?s2 = packed_block ord (clk 0) num s # ?bs"
      using new_blocks_step [OF True, of ord clk n] unfolding step .
    show ?thesis
      unfolding step nb
    proof (intro conjI allI impI)
      show "blk_seq_generator ?s2 = ?g + word_of_nat (length (packed_block ord (clk 0) num s # ?bs))"
        using IH Suc.prems by (simp add: algebra_simps)
    next
      fix i
      assume i: "i < length (packed_block ord (clk 0) num s # ?bs)"
      show "block_id ((packed_block ord (clk 0) num s # ?bs) ! i) = ?g + word_of_nat i"
        using IH Suc.prems i by (cases i) (simp_all add: packed_block_facts algebra_simps)
      show "map_of (pending_blks ?s2) (?g + word_of_nat i) = Some (length (heap s) + i)"
        using IH Suc.prems i first by (cases i) (simp_all add: pack_one_fields algebra_simps)
    next
      fix k
      assume k: "\<forall>i < length (packed_block ord (clk 0) num s # ?bs). k \<noteq> ?g + word_of_nat i"
      from k [rule_format, of 0] have "k \<noteq> ?g" by simp
      moreover have "k \<noteq> ?g + 1 + word_of_nat i" if "i < length ?bs" for i
        using k [rule_format, of "Suc i"] that by (simp add: add.assoc)
      ultimately show "map_of (pending_blks ?s2) k = map_of (pending_blks s) k"
        using IH Suc.prems p1 by simp
    qed
  next
    case False
    then show ?thesis by simp
  qed
qed

lemma pack_blocks_relay:
  "map_of (relay_blocks s) k = Some q \<Longrightarrow>
     map_of (relay_blocks (pack_blocks ord clk num n s)) k =
       Some (q @ [length (heap s)..<length (heap (pack_blocks ord clk num n s))])"
proof (induction n arbitrary: s clk q)
  case 0
  then show ?case by simp
next
  case (Suc n)
  let ?s1 = "pack_one ord (clk 0) num s"
  have "map_of (relay_blocks ?s1) k = Some (q @ [length (heap s)])"
    using Suc.prems by (simp add: pack_one_fields push_all_lookup)
  from Suc.IH [OF this, of "\<lambda>i. clk (Suc i)"] Suc.prems show ?case
    using pack_blocks_heap [of ord "\<lambda>i. clk (Suc i)" num n ?s1]
    by (auto simp: pack_one_fields upt_rec)
qed

subsection \<open>Merging\<close>

lemma Block_merge_votes_frame:
  "Block_merge_votes B n b = Inr b' \<Longrightarrow> \<exists>g. b' = b\<lparr>tss_sig := g\<rparr>"
proof -
  assume "Block_merge_votes B n b = Inr b'"
  then have "b' = b \<or> (\<exists>g. b' = b\<lparr>tss_sig := Some g\<rparr>)"
    by (auto simp: Block_merge_votes_def bindr_Inr_iff split: if_splits)
  moreover have "b = b\<lparr>tss_sig := tss_sig b\<rparr>" by simp
  ultimately show ?thesis by metis
qed

definition commit_block :: "u64 \<Rightarrow> Block \<Rightarrow> Block" where
  "commit_block now b = b\<lparr>header := (header b)\<lparr>hdr_commit_ts := now, hdr_recv_ts := now\<rparr>\<rparr>"

lemma commit_block_facts:
  assumes "Block_merge_votes B n b = Inr b'"
  shows "evolves b (commit_block now b')" and "Block_ok (commit_block now b') = Block_ok b"
    and "block_id (commit_block now b') = block_id b"
  using Block_merge_votes_frame [OF assms] by (auto simp: commit_block_def evolves_def)

lemma merge_one_ok:
  fixes now :: u64
  assumes "a < length (heap s)" and "Block_merge_votes B (cf_client_count C) (heap s ! a) = Inr b"
  defines "b' \<equiv> commit_block now b"
  shows "merge_one B L C now a s =
    (None, s\<lparr>heap := (heap s)[a := b'],
             committed_blks := chm_assign (block_id (heap s ! a)) a (committed_blks s),
             db_puts := db_puts s @ [(block_name (block_id (heap s ! a)), Block_to_bytes L b')],
             bcast_commit_blocks := push_all a (bcast_commit_blocks s)\<rparr>)"
  using assms commit_block_facts(3) [OF assms(2), of now]
  by (simp add: merge_one_def deref_def Let_def write_block_def commit_block_def)

lemma merge_one_fails:
  assumes "a < length (heap s)" and "Block_merge_votes B (cf_client_count C) (heap s ! a) = Inl e"
  shows "merge_one B L C now a s = (Some e, s)"
  using assms by (simp add: merge_one_def deref_def)

lemma server_wf_merge_one [keeps_inv]:
  assumes "server_wf s" and "a < length (heap s)"
  shows "server_wf (snd (merge_one B L C now a s))"
proof (cases "Block_merge_votes B (cf_client_count C) (heap s ! a)")
  case (Inl e)
  with assms show ?thesis by (simp add: merge_one_fails)
next
  case (Inr b)
  let ?b' = "commit_block now b" and ?k = "block_id (heap s ! a)"
  note cf = commit_block_facts [OF Inr, of now]
  let ?s1 = "write_block a ?b' s"
  have "server_wf ?s1"
    using assms cf by (intro server_wf_write) (simp_all add: server_wf_heap_ok)
  then have "server_wf (?s1\<lparr>committed_blks := chm_assign ?k a (committed_blks ?s1)\<rparr>)"
    by (rule server_wf_committed_assign) (use assms cf in \<open>simp_all add: write_block_def\<close>)
  then have "server_wf (?s1\<lparr>committed_blks := chm_assign ?k a (committed_blks ?s1),
      bcast_commit_blocks := push_all a (bcast_commit_blocks ?s1)\<rparr>)"
    using server_wf_bcast_push [of "?s1\<lparr>committed_blks := chm_assign ?k a (committed_blks ?s1)\<rparr>" a] assms(2)
    by (simp add: write_block_def)
  then show ?thesis
    using merge_one_ok [OF assms(2) Inr, of L now] by (simp add: write_block_def server_wf_def)
qed

lemma merge_votes_empty: "pb_merge_queue s = [] \<Longrightarrow> merge_votes B L C clk s = (None, s)"
  by (simp add: merge_votes.simps)

lemma merge_votes_step:
  assumes "pb_merge_queue s = a # q" and "a < length (heap s)"
    and "Block_merge_votes B (cf_client_count C) (heap s ! a) = Inr b"
  shows "merge_votes B L C clk s =
    merge_votes B L C (\<lambda>i. clk (Suc i))
      (snd (merge_one B L C (clk 0) a (s\<lparr>pb_merge_queue := q\<rparr>)))"
  using assms merge_one_ok [of a "s\<lparr>pb_merge_queue := q\<rparr>" B C b L "clk 0"]
  by (subst merge_votes.simps) simp

lemma merge_votes_all:
  assumes "server_wf s"
    and "\<forall>a \<in> set (pb_merge_queue s). \<exists>b. Block_merge_votes B (cf_client_count C) (heap s ! a) = Inr b"
  shows "\<exists>s'. merge_votes B L C clk s = (None, s') \<and> pb_merge_queue s' = [] \<and> server_wf s'
    \<and> pending_blks s' = pending_blks s \<and> heap_le (heap s) (heap s')
    \<and> (\<forall>k q. map_of (bcast_commit_blocks s) k = Some q \<longrightarrow>
         map_of (bcast_commit_blocks s') k = Some (q @ pb_merge_queue s))
    \<and> map fst (db_puts s') =
         map fst (db_puts s) @ map (\<lambda>a. block_name (block_id (heap s ! a))) (pb_merge_queue s)
    \<and> map_of (committed_blks s') =
         map_of (committed_blks s) ++ map_of (rev (map (\<lambda>a. (block_id (heap s ! a), a)) (pb_merge_queue s)))"
  using assms
proof (induction "pb_merge_queue s" arbitrary: s clk)
  case Nil
  then show ?case
    using merge_votes_empty [of s B L C clk] by simp
next
  case (Cons a q)
  let ?s0 = "s\<lparr>pb_merge_queue := q\<rparr>"
  note q = Cons.hyps(2) [symmetric]
  have a: "a < length (heap s)" and aq: "a \<notin> set q" and cb: "chm_ok (committed_blks s)"
    using Cons.prems(1) by (simp_all add: server_wf_def q)
  obtain b where b: "Block_merge_votes B (cf_client_count C) (heap s ! a) = Inr b"
    using Cons.prems(2) by (auto simp: q)
  note one = merge_one_ok [of a ?s0 B C b L "clk 0", simplified, OF a b]
  define s1 where "s1 = snd (merge_one B L C (clk 0) a ?s0)"
  have wf1: "server_wf s1"
    unfolding s1_def using Cons.prems(1) a
    by (intro server_wf_merge_one server_wf_merge_pop [where a = a]) (simp_all add: q)
  have f: "pb_merge_queue s1 = q" "pending_blks s1 = pending_blks s"
    "heap s1 = (heap s)[a := commit_block (clk 0) b]"
    "bcast_commit_blocks s1 = push_all a (bcast_commit_blocks s)"
    "map fst (db_puts s1) = map fst (db_puts s) @ [block_name (block_id (heap s ! a))]"
    "map_of (committed_blks s1) = (map_of (committed_blks s))(block_id (heap s ! a) \<mapsto> a)"
    unfolding s1_def using one cb by (simp_all add: chm.lookup_assign)
  have other: "heap s1 ! x = heap s ! x" if "x \<in> set q" for x
    using that aq by (metis f(3) nth_list_update_neq)
  have "\<forall>x \<in> set q. \<exists>b. Block_merge_votes B (cf_client_count C) (heap s1 ! x) = Inr b"
    using Cons.prems(2) other by (auto simp: q)
  with Cons.hyps(1) [of s1 "\<lambda>i. clk (Suc i)"] wf1
  obtain s' where s': "merge_votes B L C (\<lambda>i. clk (Suc i)) s1 = (None, s')" "pb_merge_queue s' = []"
    "server_wf s'" "pending_blks s' = pending_blks s1" "heap_le (heap s1) (heap s')"
    "\<And>k q'. map_of (bcast_commit_blocks s1) k = Some q' \<Longrightarrow>
       map_of (bcast_commit_blocks s') k = Some (q' @ q)"
    "map fst (db_puts s') = map fst (db_puts s1) @ map (\<lambda>x. block_name (block_id (heap s1 ! x))) q"
    "map_of (committed_blks s') =
       map_of (committed_blks s1) ++ map_of (rev (map (\<lambda>x. (block_id (heap s1 ! x), x)) q))"
    by (auto simp: f(1))
  have hl: "heap_le (heap s) (heap s')"
    using s'(5) commit_block_facts(1) [OF b] by (auto simp: f intro: heap_le_trans heap_le_update)
  have m: "merge_votes B L C clk s = (None, s')"
    using merge_votes_step [of s a q B C b L clk] a b s'(1) by (simp add: s1_def q)
  have maps: "map (\<lambda>x. (block_id (heap s1 ! x), x)) q = map (\<lambda>x. (block_id (heap s ! x), x)) q"
    "map (\<lambda>x. block_name (block_id (heap s1 ! x))) q = map (\<lambda>x. block_name (block_id (heap s ! x))) q"
    using other by simp_all
  have dbs: "map fst (db_puts s') =
      map fst (db_puts s) @ map (\<lambda>x. block_name (block_id (heap s ! x))) (a # q)"
    using s'(7) [unfolded maps f(5)] by simp
  have com: "map_of (committed_blks s') = map_of (committed_blks s) ++
      map_of (rev (map (\<lambda>x. (block_id (heap s ! x), x)) (a # q)))"
    using s'(8) [unfolded maps f(6)] by (auto simp: map_add_def fun_eq_iff split: option.splits)
  have bc: "map_of (bcast_commit_blocks s') k = Some (q' @ a # q)"
    if "map_of (bcast_commit_blocks s) k = Some q'" for k q'
    using s'(6) [of k "q' @ [a]"] that by (simp add: f(4) push_all_lookup)
  show ?case
    unfolding q using m s'(2-4) f(2) hl bc dbs com by auto
qed

subsection \<open>Dead blocks\<close>

definition expired :: "conf \<Rightarrow> u64 \<Rightarrow> Block \<Rightarrow> bool" where
  "expired C now b \<longleftrightarrow>
     cf_block_die_threshold C < now - hdr_proposal_ts (header b) \<and>
     now - hdr_proposal_ts (header b) \<le> 100000"

lemma remove_dead_one_eq:
  assumes "server_wf s" and "map_of (pending_blks s) i = Some a"
  shows "remove_dead_one C now i s =
    (None, if expired C now (heap s ! a)
           then s\<lparr>dead_block := insert i (dead_block s), pending_blks := chm_erase i (pending_blks s)\<rparr>
           else s)"
  using server_wf_deref_pending [OF assms] assms(2)
  by (auto simp: remove_dead_one_def expired_def Let_def not_less)

lemma server_wf_remove_dead_one [keeps_inv]:
  assumes "server_wf s"
  shows "server_wf (snd (remove_dead_one C now i s))"
proof (cases "map_of (pending_blks s) i")
  case None
  with assms show ?thesis by (simp add: remove_dead_one_def)
next
  case (Some a)
  have "server_wf (s\<lparr>dead_block := insert i (dead_block s)\<rparr>)" using assms by simp
  from server_wf_pending_erase [OF this, of i] assms show ?thesis
    by (simp add: remove_dead_one_eq [OF assms Some])
qed

lemma remove_dead_loop:
  fixes clk :: "u64 \<Rightarrow> u64" and C :: conf
  assumes "server_wf s" and "distinct ids" and "set ids \<subseteq> dom (map_of (pending_blks s))"
  defines "dead \<equiv> {k \<in> set ids. expired C (clk k) (heap s ! the (map_of (pending_blks s) k))}"
  shows "\<exists>s'. foreach (\<lambda>i. remove_dead_one C (clk i) i) ids s = (None, s')
    \<and> map_of (pending_blks s') = (map_of (pending_blks s)) |` (- dead)
    \<and> dead_block s' = dead_block s \<union> dead \<and> heap s' = heap s"
  using assms(1-3) unfolding dead_def
proof (induction ids arbitrary: s)
  case Nil
  then show ?case by (simp add: restrict_map_def)
next
  case (Cons i ids)
  then obtain a where a: "map_of (pending_blks s) i = Some a" by auto
  have ok: "chm_ok (pending_blks s)" using Cons.prems(1) by (simp add: server_wf_def)
  define s1 where "s1 = snd (remove_dead_one C (clk i) i s)"
  note one = remove_dead_one_eq [OF Cons.prems(1) a, of C "clk i"]
  have wf1: "server_wf s1" unfolding s1_def by (rule server_wf_remove_dead_one [OF Cons.prems(1)])
  have p1: "map_of (pending_blks s1) =
      (if expired C (clk i) (heap s ! a) then (map_of (pending_blks s))(i := None) else map_of (pending_blks s))"
    and d1: "dead_block s1 = (if expired C (clk i) (heap s ! a) then insert i (dead_block s) else dead_block s)"
    and h1: "heap s1 = heap s"
    using ok by (simp_all add: s1_def one chm.lookup_erase)
  have sub: "set ids \<subseteq> dom (map_of (pending_blks s1))"
    using Cons.prems(2,3) by (auto simp: p1)
  from Cons.IH [OF wf1 _ sub] Cons.prems(2) obtain s' where s':
    "foreach (\<lambda>i. remove_dead_one C (clk i) i) ids s1 = (None, s')"
    "map_of (pending_blks s') = (map_of (pending_blks s1)) |`
       (- {k \<in> set ids. expired C (clk k) (heap s1 ! the (map_of (pending_blks s1) k))})"
    "dead_block s' = dead_block s1 \<union>
       {k \<in> set ids. expired C (clk k) (heap s1 ! the (map_of (pending_blks s1) k))}"
    "heap s' = heap s1"
    by auto
  have same: "{k \<in> set ids. expired C (clk k) (heap s1 ! the (map_of (pending_blks s1) k))} =
      {k \<in> set ids. expired C (clk k) (heap s ! the (map_of (pending_blks s) k))}"
    using Cons.prems(2) by (auto simp: p1 h1)
  have run: "foreach (\<lambda>i. remove_dead_one C (clk i) i) (i # ids) s = (None, s')"
    using s'(1) by (simp add: one s1_def)
  show ?case
    by (rule exI [of _ s'])
      (use run s' a in \<open>auto simp: same p1 d1 h1 restrict_map_def fun_eq_iff\<close>)
qed

lemma pending_numbers:
  assumes "server_wf s" and "visits_all ord"
  shows "mapr (\<lambda>(k, a). bindr (deref s a) (\<lambda>b. Inr (block_id b))) (ord (pending_blks s)) =
    Inr (map fst (ord (pending_blks s)))"
proof (rule mapr_all_Inr)
  fix p
  assume "p \<in> set (ord (pending_blks s))"
  then have "map_of (pending_blks s) (fst p) = Some (snd p)"
    using assms by (simp add: visits_all_set server_wf_def map_of_eq_Some_iff)
  from server_wf_pending [OF assms(1) this] server_wf_deref_pending [OF assms(1) this]
  show "(\<lambda>(k, a). bindr (deref s a) (\<lambda>b. Inr (block_id b))) p = Inr (fst p)"
    by (simp add: case_prod_beta)
qed

lemma remove_dead_run:
  assumes "server_wf s" and "visits_all ord"
  shows "\<exists>s'. remove_dead_blocks ord clk C s = (None, s')
    \<and> map_of (pending_blks s') = (map_of (pending_blks s)) |`
       (- {k \<in> dom (map_of (pending_blks s)). expired C (clk k) (heap s ! the (map_of (pending_blks s) k))})
    \<and> dead_block s' = dead_block s \<union> {k \<in> dom (map_of (pending_blks s)).
           expired C (clk k) (heap s ! the (map_of (pending_blks s) k))}"
proof -
  let ?ids = "map fst (ord (pending_blks s))"
  have ok: "chm_ok (pending_blks s)" using assms(1) by (simp add: server_wf_def)
  have ids: "set ?ids = dom (map_of (pending_blks s))"
    using assms(2) by (simp add: visits_all_set dom_map_of_conv_image_fst)
  have d: "distinct ?ids" by (rule visits_all_keys [OF assms(2) ok])
  from remove_dead_loop [OF assms(1) d, of C clk] ids obtain s' where s':
    "foreach (\<lambda>i. remove_dead_one C (clk i) i) ?ids s = (None, s')"
    "map_of (pending_blks s') = (map_of (pending_blks s)) |`
       (- {k \<in> dom (map_of (pending_blks s)).
           expired C (clk k) (heap s ! the (map_of (pending_blks s) k))})"
    "dead_block s' = dead_block s \<union> {k \<in> dom (map_of (pending_blks s)).
           expired C (clk k) (heap s ! the (map_of (pending_blks s) k))}"
    by (auto simp del: set_map)
  have "remove_dead_blocks ord clk C s = (None, s')"
    using s'(1) by (simp add: remove_dead_blocks_def pending_numbers [OF assms])
  then show ?thesis using s'(2,3) by blast
qed

subsection \<open>Generated transactions\<close>

lemma generate_tx_fold:
  "pending_txs (generate_tx rng num s) =
     fold (\<lambda>(k, v). chm_insert k v)
       (map (\<lambda>i. (tx_id (random_tx rng i), random_tx rng i)) [0..<unat num]) (pending_txs s)"
  by (simp add: generate_tx_def fold_map comp_def Let_def)

lemma server_wf_generate_tx [keeps_inv]: "server_wf s \<Longrightarrow> server_wf (generate_tx rng num s)"
  unfolding generate_tx_def
  by (rule server_wf_pending_txs)
    (simp_all add: generate_tx_fold [unfolded generate_tx_def, simplified] chm.fold_ins_invar server_wf_def
      del: fold_map)

lemma server_wf_pack_round [keeps_inv]: "server_wf s \<Longrightarrow> server_wf (pack_round ord clk rng C s)"
  by (auto simp: pack_round_def pack_block_def Let_def
      intro: server_wf_pack_blocks server_wf_generate_tx)

subsection \<open>Client profiles\<close>

lemma init_clients_fold:
  assumes "\<And>i. i < unat n \<Longrightarrow> mk_client K n sh i = Inr (cp i)"
  shows "foreach (add_client K n sh) [0..<unat n] s =
    (None, fold (\<lambda>i s. s\<lparr>clients := chm_insert (word_of_nat (Suc i)) (cp i) (clients s)\<rparr>) [0..<unat n] s)"
  by (rule foreach_fold) (use assms in \<open>auto simp: add_client_ok simp del: of_nat_Suc\<close>)

lemma clients_fold:
  "clients (fold (\<lambda>i s. s\<lparr>clients := chm_insert (f i) (cp i) (clients s)\<rparr>) xs s) =
     fold (\<lambda>(k, v). chm_insert k v) (map (\<lambda>i. (f i, cp i)) xs) (clients s)"
  by (induction xs arbitrary: s) simp_all

subsection \<open>Sample servers\<close>

definition sample_conf :: "u64 \<Rightarrow> conf" where
  "sample_conf i =
     \<lparr>cf_server_id = i, cf_server_count = 2, cf_client_count = 2, cf_account_count = 100,
      cf_pb_pool_limit = 8, cf_generate_tx_rate = 3, cf_tx_per_block = 2,
      cf_block_die_threshold = 10000, cf_use_rocksdb = True, cf_peer_addr = [''a'', ''b'']\<rparr>"

definition sample_keys :: keylib where
  "sample_keys =
     \<lparr>kl_dkg_shares = (\<lambda>i t n. Inr [0..<unat n]),
      kl_mk_sk = (\<lambda>x t n. Inr \<lparr>sk_share = x, sk_t = t, sk_n = n\<rparr>),
      kl_mk_pk = (\<lambda>x t n. Inr \<lparr>pk_share = x, pk_t = t, pk_n = n\<rparr>),
      kl_sk_string = (\<lambda>k. [word_of_nat (sk_share k)]),
      kl_mk_pubkey = (\<lambda>d. Inr d)\<rparr>"

definition tx_server :: server where
  "tx_server = new_server
     \<lparr>pending_txs := [(1, mk_Transaction 1 10 20 0 5), (2, mk_Transaction 2 11 21 0 6),
                      (3, mk_Transaction 3 12 22 0 7)],
      blk_seq_generator := 2000000, relay_blocks := [(1, [])]\<rparr>"

lemma tx_server_wf: "server_wf tx_server"
  by (simp add: tx_server_def new_server_def server_wf_def keyed_def queues_valid_def)

definition merge_server :: server where
  "merge_server = new_server
     \<lparr>heap := [sample_block], pb_merge_queue := [0], bcast_commit_blocks := [(1, [])]\<rparr>"

lemma sample_block_facts: "Block_ok sample_block" "block_id sample_block = 7"
  "is_vote_enough 2 sample_block"
  by (simp_all add: sample_defs Block_ok_def is_vote_enough_def)

lemma merge_server_wf: "server_wf merge_server"
  by (simp add: merge_server_def new_server_def server_wf_def keyed_def queues_valid_def
      sample_block_facts)

definition pending_server :: server where
  "pending_server = new_server\<lparr>heap := [sample_block], pending_blks := [(7, 0)]\<rparr>"

lemma pending_server_wf: "server_wf pending_server"
  by (simp add: pending_server_def new_server_def server_wf_def keyed_def queues_valid_def
      sample_block_facts)

subsection \<open>Properties\<close>

text \<open>
  After \<open>init_peer_stubs\<close> the server has one empty vote queue, one empty block queue
  and one empty commit queue for every other server, and none for itself or for a number
  outside 1..n; every peer is marked down.
\<close>

theorem init_peer_stubs_queues:
  "map_of (relay_votes (init_peer_stubs C s)) k =
      (if k \<in> {1..cf_server_count C} - {server_id s} then Some [] else None)
   \<and> map_of (relay_blocks (init_peer_stubs C s)) k =
      (if k \<in> {1..cf_server_count C} - {server_id s} then Some [] else None)
   \<and> map_of (bcast_commit_blocks (init_peer_stubs C s)) k =
      (if k \<in> {1..cf_server_count C} - {server_id s} then Some [] else None)
   \<and> peer_status (init_peer_stubs C s) = replicate (unat (cf_server_count C)) False"
  by (simp add: init_peer_stubs_def Let_def peer_queues_lookup)

text \<open>
  C18: when key generation yields a share for every client and the key constructors accept
  them, start-up registers exactly the clients 1..n, client \<open>i + 1\<close> with the keys of the
  share at index \<open>i\<close> and an empty list of seen blocks.
\<close>

theorem init_client_profile_keys:
  assumes "kl_dkg_shares K (server_id s) n n = Inr sh" and "n = cf_client_count C" and "clients s = []"
    and "\<And>i. i < unat n \<Longrightarrow> mk_client K n sh i = Inr (cp i)"
  shows "fst (init_client_profile K C s) = None
    \<and> dom (map_of (clients (snd (init_client_profile K C s)))) = {1..n}
    \<and> (\<forall>i < unat n. map_of (clients (snd (init_client_profile K C s))) (word_of_nat (Suc i)) = Some (cp i)
         \<and> cl_seen_blocks (cp i) = [] \<and> kl_mk_sk K (sh ! i) n n = Inr (fst (cl_tss_key (cp i)))
         \<and> kl_mk_pk K (sh ! i) n n = Inr (snd (cl_tss_key (cp i))))"
proof -
  let ?kvs = "map (\<lambda>i. (word_of_nat (Suc i) :: u64, cp i)) [0..<unat n]"
  let ?s' = "snd (init_client_profile K C s)"
  have run: "init_client_profile K C s = (None,
      fold (\<lambda>i s. s\<lparr>clients := chm_insert (word_of_nat (Suc i)) (cp i) (clients s)\<rparr>) [0..<unat n] s)"
    using assms(1,2) init_clients_fold [OF assms(4)]
    by (simp add: init_client_profile_def Let_def del: of_nat_Suc)
  have keys: "map fst ?kvs = server_ids n" by (simp add: server_ids_def comp_def)
  have "map_of (clients ?s') = map_of ?kvs"
    unfolding run snd_conv clients_fold assms(3) by (simp add: chm.fold_ins_lookup)
  moreover have "map_of ?kvs (word_of_nat (Suc i)) = Some (cp i)" if "i < unat n" for i
    using that keys distinct_server_ids [of n] by (auto simp: map_of_eq_Some_iff simp del: of_nat_Suc)
  moreover have "dom (map_of ?kvs) = {1..n}"
  proof -
    have "dom (map_of ?kvs) = set (map fst ?kvs)" by (simp only: dom_map_of_conv_image_fst set_map)
    then show ?thesis by (simp only: keys set_server_ids)
  qed
  moreover have "cl_seen_blocks (cp i) = [] \<and> kl_mk_sk K (sh ! i) n n = Inr (fst (cl_tss_key (cp i)))
         \<and> kl_mk_pk K (sh ! i) n n = Inr (snd (cl_tss_key (cp i)))" if "i < unat n" for i
    by (rule mk_client_keys [OF assms(4) [OF that]])
  ultimately show ?thesis using run by simp
qed

theorem init_client_profile_keys_witness:
  "\<exists>p. map_of (clients (snd (init_client_profile sample_keys (sample_conf 1) new_server))) 2 = Some p
     \<and> cl_seen_blocks p = []"
proof -
  let ?cp = "\<lambda>i. \<lparr>cl_id = word_of_nat (Suc i), cl_ecc_pkey = None,
     cl_tss_key = (\<lparr>sk_share = i, sk_t = 2, sk_n = 2\<rparr>, \<lparr>pk_share = i, pk_t = 2, pk_n = 2\<rparr>),
     cl_seen_blocks = []\<rparr>"
  have 1: "kl_dkg_shares sample_keys (server_id new_server) 2 2 = Inr [0..<2]" by (simp add: sample_keys_def)
  have 2: "2 = cf_client_count (sample_conf 1)" by (simp add: sample_conf_def)
  have 3: "clients new_server = []" by (simp add: new_server_def)
  have 4: "mk_client sample_keys 2 [0..<2] i = Inr (?cp i)" if "i < unat (2::u64)" for i
    using that by (simp add: mk_client_def sample_keys_def del: upt_rec_numeral)
  from init_client_profile_keys [OF 1 2 3 4] show ?thesis
    by (auto dest: spec [of _ "Suc 0"])
qed



text \<open>
  C20: packing conserves transactions: every new block has exactly the configured number
  of them, the transactions before are those left pending together with those in the new
  blocks, and packing stops only at the block limit or when too few transactions are left
  for another block. It keeps the server well formed.
\<close>

theorem pack_block_transactions:
  assumes "server_wf s" and "visits_all ord" and "num_tx \<noteq> 0"
    and "s' = pack_block ord clk num_tx num_block s"
  shows "(\<forall>b \<in> set (new_blocks s s'). length (tx_vec b) = unat num_tx)
    \<and> mset (map snd (pending_txs s)) =
        mset (map snd (pending_txs s')) + mset (concat (map tx_vec (new_blocks s s')))
    \<and> (length (new_blocks s s') = unat num_block \<or> length (pending_txs s') < unat num_tx)
    \<and> server_wf s'"
  using pack_blocks_conserves [OF assms(1-3)] server_wf_pack_blocks [OF assms(1)] assms(4)
  by (simp add: pack_block_def)

theorem pack_block_transactions_witness:
  "new_blocks tx_server (pack_block rev (\<lambda>i. 1000) 2 5 tx_server) \<noteq> []
   \<and> mset (map snd (pending_txs tx_server)) =
        mset (map snd (pending_txs (pack_block rev (\<lambda>i. 1000) 2 5 tx_server)))
        + mset (concat (map tx_vec (new_blocks tx_server (pack_block rev (\<lambda>i. 1000) 2 5 tx_server))))"
proof -
  let ?s' = "pack_block rev (\<lambda>i. 1000) 2 5 tx_server"
  have n: "(2 :: u64) \<noteq> 0" by simp
  have facts: "mset (map snd (pending_txs tx_server)) =
        mset (map snd (pending_txs ?s')) + mset (concat (map tx_vec (new_blocks tx_server ?s')))
      \<and> (length (new_blocks tx_server ?s') = unat (5 :: u64) \<or> length (pending_txs ?s') < unat (2 :: u64))"
    using pack_block_transactions [OF tx_server_wf visits_all_rev n refl,
        where clk = "\<lambda>i. 1000" and num_block = 5] by blast
  have "new_blocks tx_server ?s' \<noteq> []"
  proof
    assume nil: "new_blocks tx_server ?s' = []"
    with facts have "size (mset (map snd (pending_txs tx_server))) = size (mset (map snd (pending_txs ?s')))"
      by simp
    moreover have "length (pending_txs tx_server) = 3" by (simp add: tx_server_def)
    ultimately have "length (pending_txs ?s') = 3" by simp
    with nil facts show False by simp
  qed
  with facts show ?thesis by blast
qed

text \<open>
  C21: packed blocks are numbered consecutively from the sequence generator, each is filed
  in the pending map under its number, no other pending entry changes, and each block is
  queued for every peer in the order of packing.
\<close>

theorem pack_block_numbers:
  assumes "server_wf s" and "s' = pack_block ord clk num_tx num_block s"
  shows "blk_seq_generator s' = blk_seq_generator s + word_of_nat (length (new_blocks s s'))
    \<and> (\<forall>i < length (new_blocks s s').
         heap s' ! (length (heap s) + i) = new_blocks s s' ! i \<and>
         block_id (new_blocks s s' ! i) = blk_seq_generator s + word_of_nat i \<and>
         map_of (pending_blks s') (blk_seq_generator s + word_of_nat i) = Some (length (heap s) + i))
    \<and> (\<forall>k. (\<forall>i < length (new_blocks s s'). k \<noteq> blk_seq_generator s + word_of_nat i) \<longrightarrow>
         map_of (pending_blks s') k = map_of (pending_blks s) k)
    \<and> (\<forall>k q. map_of (relay_blocks s) k = Some q \<longrightarrow>
         map_of (relay_blocks s') k = Some (q @ [length (heap s)..<length (heap s')]))"
proof -
  have "unat num_block < 2 ^ 64" using unsigned_less [of num_block] by simp
  moreover have "chm_ok (pending_blks s)" using assms(1) by (simp add: server_wf_def)
  moreover have "heap s' = heap s @ new_blocks s s'"
    unfolding assms(2) pack_block_def by (rule pack_blocks_heap)
  moreover have "map_of (relay_blocks s') k = Some (q @ [length (heap s)..<length (heap s')])"
    if "map_of (relay_blocks s) k = Some q" for k q
    using pack_blocks_relay [OF that] by (simp add: assms(2) pack_block_def)
  ultimately show ?thesis
    using pack_blocks_numbers [of "unat num_block" s ord clk num_tx]
    by (simp add: assms(2) pack_block_def nth_append)
qed

theorem pack_block_numbers_witness:
  "map_of (relay_blocks (pack_block id (\<lambda>i. 1000) 2 5 tx_server)) 1 =
     Some [0..<length (heap (pack_block id (\<lambda>i. 1000) 2 5 tx_server))]"
  using pack_block_numbers [OF tx_server_wf refl, of id "\<lambda>i. 1000" 2 5]
  by (simp add: tx_server_def new_server_def)

text \<open>
  C22: the merge loop ends; when libBLS merges every queued block, it empties the merge
  queue, commits each block under its number (the last queued one wins), records one
  database write per block and queues every block for broadcast to every peer, in order.
  Blocks only evolve and pending blocks are untouched.
\<close>

theorem merge_votes_commits:
  assumes "server_wf s"
    and "\<forall>a \<in> set (pb_merge_queue s). \<exists>b. Block_merge_votes B (cf_client_count C) (heap s ! a) = Inr b"
  shows "\<exists>s'. merge_votes B L C clk s = (None, s') \<and> pb_merge_queue s' = [] \<and> server_wf s'
    \<and> pending_blks s' = pending_blks s \<and> heap_le (heap s) (heap s')
    \<and> (\<forall>k q. map_of (bcast_commit_blocks s) k = Some q \<longrightarrow>
         map_of (bcast_commit_blocks s') k = Some (q @ pb_merge_queue s))
    \<and> map fst (db_puts s') =
         map fst (db_puts s) @ map (\<lambda>a. block_name (block_id (heap s ! a))) (pb_merge_queue s)
    \<and> map_of (committed_blks s') =
         map_of (committed_blks s) ++ map_of (rev (map (\<lambda>a. (block_id (heap s ! a), a)) (pb_merge_queue s)))"
  using assms by (rule merge_votes_all)

lemma sample_block_merges: "\<exists>b. Block_merge_votes ref_bls 2 sample_block = Inr b"
  by (simp add: Block_merge_votes_def collect_shares_def ref_bls_def sample_defs)

theorem merge_votes_commits_witness:
  "\<exists>s'. merge_votes ref_bls ref_flex (sample_conf 2) (\<lambda>i. 5000) merge_server = (None, s')
     \<and> map_of (committed_blks s') 7 = Some 0 \<and> map_of (bcast_commit_blocks s') 1 = Some [0]"
proof -
  have "\<forall>a \<in> set (pb_merge_queue merge_server).
      \<exists>b. Block_merge_votes ref_bls (cf_client_count (sample_conf 2)) (heap merge_server ! a) = Inr b"
    using sample_block_merges by (simp add: merge_server_def sample_conf_def)
  from merge_votes_commits [OF merge_server_wf this, of ref_flex "\<lambda>i. 5000"] show ?thesis
    by (auto simp: merge_server_def new_server_def sample_block_facts)
qed

text \<open>
  C23: the removal of dead blocks never fails; it takes out of the pending map, and
  marks dead, exactly the blocks whose age, computed modulo 2^64, is above the configured
  threshold and at most 100000; older blocks, and blocks from the future, stay.
\<close>

theorem remove_dead_blocks_window:
  assumes "server_wf s" and "visits_all ord"
  shows "\<exists>s'. remove_dead_blocks ord clk C s = (None, s')
    \<and> (\<forall>k. map_of (pending_blks s') k =
         (case map_of (pending_blks s) k of
            None \<Rightarrow> None
          | Some a \<Rightarrow> if expired C (clk k) (heap s ! a) then None else Some a))
    \<and> (\<forall>k. k \<in> dead_block s' \<longleftrightarrow> k \<in> dead_block s \<or>
         (\<exists>a. map_of (pending_blks s) k = Some a \<and> expired C (clk k) (heap s ! a)))"
proof -
  obtain s' where run: "remove_dead_blocks ord clk C s = (None, s')"
    and s': "map_of (pending_blks s') = (map_of (pending_blks s)) |`
       (- {k \<in> dom (map_of (pending_blks s)). expired C (clk k) (heap s ! the (map_of (pending_blks s) k))})"
      "dead_block s' = dead_block s \<union> {k \<in> dom (map_of (pending_blks s)).
           expired C (clk k) (heap s ! the (map_of (pending_blks s) k))}"
    using remove_dead_run [OF assms, of clk C] by (elim exE conjE)
  have "map_of (pending_blks s') k =
      (case map_of (pending_blks s) k of
         None \<Rightarrow> None
       | Some a \<Rightarrow> if expired C (clk k) (heap s ! a) then None else Some a)" for k
    by (cases "map_of (pending_blks s) k") (simp_all add: s'(1) restrict_map_def domIff)
  moreover have "k \<in> dead_block s' \<longleftrightarrow> k \<in> dead_block s \<or>
      (\<exists>a. map_of (pending_blks s) k = Some a \<and> expired C (clk k) (heap s ! a))" for k
    by (cases "map_of (pending_blks s) k") (simp_all add: s'(2) domIff)
  ultimately show ?thesis using run by blast
qed

theorem remove_dead_blocks_window_witness:
  "\<exists>s'. remove_dead_blocks id (\<lambda>k. 20000) (sample_conf 2) pending_server = (None, s')
     \<and> map_of (pending_blks s') 7 = None \<and> 7 \<in> dead_block s'"
  using remove_dead_blocks_window [OF pending_server_wf visits_all_id, of "\<lambda>k. 20000" "sample_conf 2"]
  by (auto simp: pending_server_def expired_def sample_conf_def sample_defs)

end
