(* ===== verification/TC_ServerGrpc.thy ===== *)
theory TC_ServerGrpc
  imports TC_ServerOps
begin

text \<open>
  The service the clients call, class \<open>TcConsensusImpl\<close> of
  \<open>include/server/tc-server-grpc.hpp\<close>: \<open>Register\<close>, \<open>Heartbeat\<close>, \<open>PullPendingBlocks\<close>,
  \<open>GetBlocks\<close> and \<open>VoteBlocks\<close>. A handler maps the request's fields and the server to
  an outcome, the server after it and, where it has one, the payload of the response.
  Numbers of clients are 32-bit in the requests and widened to 64 bits, \<open>ucast\<close>, when
  they are used as keys.

  The lemmas show that a client is offered a block at most once and only after the
  block's sync signal, that \<open>GetBlocks\<close> answers exactly with the pending blocks among
  those asked for, and what a vote does on every branch: routing to the servers
  responsible for the block, counting it here, and the move to the merge queue.
\<close>

subsection \<open>Registration and heartbeats\<close>

record RegisterResponse =
  rr_status :: u32
  rr_id :: u32
  rr_tss_sk :: bytes

definition Register :: "keylib \<Rightarrow> u32 \<Rightarrow> bytes \<Rightarrow> server \<Rightarrow> RegisterResponse res \<times> server" where
  "Register K client_id pkey_data s =
     (case kl_mk_pubkey K pkey_data of
        Inl e \<Rightarrow> (Inl e, s)
      | Inr pkey \<Rightarrow>
          (case map_of (clients s) (ucast client_id) of
             None \<Rightarrow> (Inl NullDeref, s)
           | Some cp \<Rightarrow>
               (Inr \<lparr>rr_status = 0, rr_id = client_id, rr_tss_sk = kl_sk_string K (fst (cl_tss_key cp))\<rparr>,
                s\<lparr>clients := chm_assign (ucast client_id) (cp\<lparr>cl_ecc_pkey := Some pkey\<rparr>) (clients s)\<rparr>)))"

definition Heartbeat :: "u32 \<Rightarrow> server \<Rightarrow> u32 \<times> server" where
  "Heartbeat client_id s = (0, s)"

subsection \<open>Pulling headers of pending blocks\<close>

text \<open>
  One entry of the traversal of the copy of the pending map. The state is the server and
  the headers added to the response so far; \<open>clk k\<close> is the clock reading made for the
  block numbered \<open>k\<close>. The header that is sent is serialised before the distribution
  timestamp is set.
\<close>

definition set_dist_ts :: "u64 \<Rightarrow> addr \<Rightarrow> Block \<Rightarrow> server \<Rightarrow> server" where
  "set_dist_ts now a blk s =
     (if hdr_dist_ts (header blk) = 0
      then write_block a (blk\<lparr>header := (header blk)\<lparr>hdr_dist_ts := now\<rparr>\<rparr>) s else s)"

definition see_block :: "u64 \<Rightarrow> ClientProfile \<Rightarrow> Block \<Rightarrow> server \<Rightarrow> server" where
  "see_block client_id cp blk s =
     s\<lparr>clients := chm_assign client_id
         (cp\<lparr>cl_seen_blocks := chm_insert (block_id blk) (header blk) (cl_seen_blocks cp)\<rparr>) (clients s)\<rparr>"

definition pull_one ::
  "'r flexlib \<Rightarrow> (u64 \<Rightarrow> u64) \<Rightarrow> u64 \<Rightarrow> u64 \<times> addr \<Rightarrow> server \<times> bytes list \<Rightarrow> (server \<times> bytes list) outcome" where
  "pull_one L clk client_id p st =
     (let (k, a) = p; (s, pb_hdrs) = st
      in if k \<notin> pb_sync_labels s then (None, st)
         else (case map_of (clients s) client_id of
                 None \<Rightarrow> (Some NullDeref, st)
               | Some cp \<Rightarrow>
                   (case deref s a of
                      Inl e \<Rightarrow> (Some e, st)
                    | Inr blk \<Rightarrow>
                        if map_of (cl_seen_blocks cp) (block_id blk) \<noteq> None then (None, st)
                        else (None, (set_dist_ts (clk k) a blk (see_block client_id cp blk s),
                                     pb_hdrs @ [BlockHeader_to_bytes L (header blk)])))))"

definition PullPendingBlocks ::
  "'r flexlib \<Rightarrow> ((u64 \<times> addr) list \<Rightarrow> (u64 \<times> addr) list) \<Rightarrow> (u64 \<Rightarrow> u64) \<Rightarrow> u32 \<Rightarrow> server \<Rightarrow>
     (server \<times> bytes list) outcome" where
  "PullPendingBlocks L ord clk client_id s =
     foreach (pull_one L clk (ucast client_id)) (ord (pending_blks s)) (s, [])"

subsection \<open>Getting blocks\<close>

definition get_block_one :: "'r flexlib \<Rightarrow> server \<Rightarrow> bytes \<Rightarrow> bytes list res" where
  "get_block_one L s hdr_bytes =
     (case map_of (pending_blks s) (hdr_id (BlockHeader_from_bytes L hdr_bytes)) of
        None \<Rightarrow> Inr []
      | Some a \<Rightarrow> bindr (deref s a) (\<lambda>b. Inr [Block_to_bytes L b]))"

definition GetBlocks :: "'r flexlib \<Rightarrow> bytes list \<Rightarrow> server \<Rightarrow> bytes list res" where
  "GetBlocks L pb_hdrs s = bindr (mapr (get_block_one L s) pb_hdrs) (\<lambda>pbs. Inr (concat pbs))"

subsection \<open>Votes\<close>

definition relay_vote_to :: "BlockVote \<Rightarrow> u64 \<Rightarrow> server \<Rightarrow> server outcome" where
  "relay_vote_to v target s =
     (case push_at target v (relay_votes s) of
        Inl e \<Rightarrow> (Some e, s)
      | Inr qs \<Rightarrow> (None, s\<lparr>relay_votes := qs\<rparr>))"

text \<open>
  The part that \<open>VoteBlocks\<close> shares with the peers' \<open>RelayVote\<close>: look the block up among
  the pending ones, add the vote under the key \<open>voter\<close> and, when there are enough, move
  the block to the merge queue.
\<close>

definition count_vote :: "conf \<Rightarrow> u64 \<Rightarrow> BlockVote \<Rightarrow> u64 \<Rightarrow> server \<Rightarrow> server outcome" where
  "count_vote C voter v blk_id s =
     (case map_of (pending_blks s) blk_id of
        None \<Rightarrow> (None, s)
      | Some a \<Rightarrow>
          (case deref s a of
             Inl e \<Rightarrow> (Some e, s)
           | Inr b \<Rightarrow>
               let b' = Block_add_vote voter v b;
                   s1 = write_block a b' s
               in if is_vote_enough (cf_client_count C) b'
                  then (None, s1\<lparr>pb_merge_queue := push a (pb_merge_queue s1),
                                 pending_blks := chm_erase blk_id (pending_blks s1)\<rparr>)
                  else (None, s1)))"

definition vote_one :: "conf \<Rightarrow> u64 \<Rightarrow> Block \<Rightarrow> server \<Rightarrow> server outcome" where
  "vote_one C client_id block s =
     (case map_of (votes block) client_id of
        None \<Rightarrow> (None, s)
      | Some vote \<Rightarrow>
          if block_id block \<in> dead_block s then (None, s)
          else (case get_server_id block (cf_server_count C) of
                  Inl e \<Rightarrow> (Some e, s)
                | Inr targets \<Rightarrow>
                    if server_id s \<notin> set targets
                    then foreach (relay_vote_to vote) targets s
                    else (case foreach (relay_vote_to vote) (filter (\<lambda>t. t \<noteq> server_id s) targets) s of
                            (Some e, s1) \<Rightarrow> (Some e, s1)
                          | (None, s1) \<Rightarrow> count_vote C client_id vote (block_id block) s1)))"

definition VoteBlocks ::
  "'ss blslib \<Rightarrow> 'r flexlib \<Rightarrow> conf \<Rightarrow> u32 \<Rightarrow> bytes list \<Rightarrow> server \<Rightarrow> server outcome" where
  "VoteBlocks B L C client_id voted_blocks s =
     decode_each (Block_from_bytes B L) (vote_one C (ucast client_id)) voted_blocks s"

subsection \<open>Pulling: lemmas\<close>

lemma unat_client_id: "unat (ucast (w :: u32) :: u64) = unat w"
proof -
  have "unat w < 2 ^ 32" using unsigned_less [of w, where 'a = nat] by simp
  then show ?thesis by (simp add: unsigned_ucast_eq take_bit_nat_eq_self)
qed

lemma inj_client_id: "inj (ucast :: u32 \<Rightarrow> u64)"
  by (rule injI) (metis unat_client_id word_unat_eq_iff)

lemma map_of_chm_insert:
  "map_of (chm_insert k v m) = (if map_of m k = None then (map_of m)(k \<mapsto> v) else map_of m)"
  by (auto simp: chm_insert_def map_add_def fun_eq_iff split: option.splits)

lemma set_dist_ts_frame [simp]:
  "pending_blks (set_dist_ts now a b s) = pending_blks s"
  "pb_sync_labels (set_dist_ts now a b s) = pb_sync_labels s"
  "clients (set_dist_ts now a b s) = clients s"
  "pb_merge_queue (set_dist_ts now a b s) = pb_merge_queue s"
  "committed_blks (set_dist_ts now a b s) = committed_blks s"
  "bcast_commit_blocks (set_dist_ts now a b s) = bcast_commit_blocks s"
  "outbox (set_dist_ts now a b s) = outbox s"
  "length (heap (set_dist_ts now a b s)) = length (heap s)"
  by (simp_all add: set_dist_ts_def write_block_def)

lemma see_block_frame [simp]:
  "pending_blks (see_block i cp b s) = pending_blks s"
  "pb_sync_labels (see_block i cp b s) = pb_sync_labels s"
  "heap (see_block i cp b s) = heap s"
  "pb_merge_queue (see_block i cp b s) = pb_merge_queue s"
  "committed_blks (see_block i cp b s) = committed_blks s"
  "bcast_commit_blocks (see_block i cp b s) = bcast_commit_blocks s"
  "outbox (see_block i cp b s) = outbox s"
  by (simp_all add: see_block_def)

lemma server_wf_see_block [keeps_inv]: "server_wf s \<Longrightarrow> server_wf (see_block i cp b s)"
  unfolding see_block_def by (rule server_wf_clients) (simp_all add: server_wf_def chm.invar_assign)

lemma evolves_header_ts:
  "evolves b (b\<lparr>header := (header b)\<lparr>hdr_dist_ts := x\<rparr>\<rparr>)"
  by (simp add: evolves_def)

lemma server_wf_set_dist_ts [keeps_inv]:
  "server_wf s \<Longrightarrow> a < length (heap s) \<Longrightarrow> server_wf (set_dist_ts now a (heap s ! a) s)"
  unfolding set_dist_ts_def
  by (auto intro!: server_wf_write evolves_header_ts simp: server_wf_heap_ok)

lemma set_dist_ts_heap:
  "heap_le (heap s) (heap (set_dist_ts now a (heap s ! a) s))"
  "j \<noteq> a \<Longrightarrow> heap (set_dist_ts now a b s) ! j = heap s ! j"
  by (simp_all add: set_dist_ts_def write_block_def heap_le_update evolves_header_ts)

text \<open>The entries of a traversal that a client is offered.\<close>

definition offered :: "server \<Rightarrow> ClientProfile \<Rightarrow> (u64 \<times> addr) list \<Rightarrow> (u64 \<times> addr) list" where
  "offered s cp ps = filter (\<lambda>(k, a). k \<in> pb_sync_labels s \<and> map_of (cl_seen_blocks cp) k = None) ps"

lemma pull_one_step:
  assumes "server_wf s" and "map_of (clients s) i = Some cp" and "map_of (pending_blks s) k = Some a"
  shows "pull_one L clk i (k, a) (s, hs) =
    (None, if k \<in> pb_sync_labels s \<and> map_of (cl_seen_blocks cp) k = None
       then (set_dist_ts (clk k) a (heap s ! a) (see_block i cp (heap s ! a) s),
             hs @ [BlockHeader_to_bytes L (header (heap s ! a))])
       else (s, hs))"
  using assms server_wf_pending [OF assms(1,3)]
  by (auto simp: pull_one_def server_wf_deref_pending)

text \<open>The state after one offered entry, and what the rest of the traversal sees of it.\<close>

definition pulled :: "(u64 \<Rightarrow> u64) \<Rightarrow> u64 \<Rightarrow> ClientProfile \<Rightarrow> u64 \<Rightarrow> addr \<Rightarrow> server \<Rightarrow> server" where
  "pulled clk i cp k a s = set_dist_ts (clk k) a (heap s ! a) (see_block i cp (heap s ! a) s)"

abbreviation seen_after :: "server \<Rightarrow> ClientProfile \<Rightarrow> u64 \<Rightarrow> addr \<Rightarrow> ClientProfile" where
  "seen_after s cp k a \<equiv> cp\<lparr>cl_seen_blocks := chm_insert k (header (heap s ! a)) (cl_seen_blocks cp)\<rparr>"

lemma pulled_facts:
  assumes "server_wf s" and "map_of (pending_blks s) k = Some a"
  shows "server_wf (pulled clk i cp k a s)"
    and "map_of (clients (pulled clk i cp k a s)) = (map_of (clients s))(i \<mapsto> seen_after s cp k a)"
    and "pending_blks (pulled clk i cp k a s) = pending_blks s"
    and "pb_sync_labels (pulled clk i cp k a s) = pb_sync_labels s"
    and "heap_le (heap s) (heap (pulled clk i cp k a s))"
    and "length (heap (pulled clk i cp k a s)) = length (heap s)"
    and "j \<noteq> a \<Longrightarrow> heap (pulled clk i cp k a s) ! j = heap s ! j"
proof -
  note blk = server_wf_pending [OF assms]
  let ?s1 = "see_block i cp (heap s ! a) s"
  have "server_wf ?s1" using assms(1) by (rule server_wf_see_block)
  with blk show "server_wf (pulled clk i cp k a s)"
    using server_wf_set_dist_ts [of ?s1 a "clk k"] by (simp add: pulled_def)
  show "map_of (clients (pulled clk i cp k a s)) = (map_of (clients s))(i \<mapsto> seen_after s cp k a)"
    using assms(1) blk by (simp add: pulled_def see_block_def server_wf_def chm.lookup_assign)
  show "heap_le (heap s) (heap (pulled clk i cp k a s))"
    using set_dist_ts_heap(1) [of ?s1 "clk k" a] by (simp add: pulled_def)
  show "j \<noteq> a \<Longrightarrow> heap (pulled clk i cp k a s) ! j = heap s ! j"
    by (simp add: pulled_def set_dist_ts_heap(2))
qed (simp_all add: pulled_def)

lemma offered_Cons:
  assumes "chm_ok ((k, a) # ps)" and "k \<in> pb_sync_labels s" and "map_of (cl_seen_blocks cp) k = None"
    and "pb_sync_labels s' = pb_sync_labels s"
  shows "offered s cp ((k, a) # ps) = (k, a) # offered s' (seen_after s cp k a) ps"
proof -
  have "map_of (cl_seen_blocks (seen_after s cp k a)) j = map_of (cl_seen_blocks cp) j"
    if "(j, b) \<in> set ps" for j b
    using that assms(1) by (force simp: map_of_chm_insert)
  with assms(2-4) show ?thesis by (auto simp: offered_def intro!: filter_cong)
qed

lemma pull_loop:
  assumes "server_wf s" and "map_of (clients s) i = Some cp"
    and "\<forall>(k, a) \<in> set ps. map_of (pending_blks s) k = Some a" and "chm_ok ps"
  shows "\<exists>s' cp'. foreach (pull_one L clk i) ps (s, hs) =
      (None, (s', hs @ map (\<lambda>(k, a). BlockHeader_to_bytes L (header (heap s ! a))) (offered s cp ps)))
    \<and> server_wf s' \<and> pending_blks s' = pending_blks s \<and> pb_sync_labels s' = pb_sync_labels s
    \<and> heap_le (heap s) (heap s') \<and> length (heap s') = length (heap s)
    \<and> map_of (clients s') = (map_of (clients s))(i \<mapsto> cp')
    \<and> dom (map_of (cl_seen_blocks cp')) = dom (map_of (cl_seen_blocks cp)) \<union> fst ` set (offered s cp ps)"
  using assms
proof (induction ps arbitrary: s cp hs)
  case Nil
  then show ?case
    by (intro exI [of _ s] exI [of _ cp]) (auto simp: offered_def fun_upd_idem)
next
  case (Cons p ps)
  obtain k a where p: "p = (k, a)" by (cases p)
  have ka: "map_of (pending_blks s) k = Some a" using Cons.prems(3) p by simp
  note step = pull_one_step [OF Cons.prems(1,2) ka, of L clk hs]
  show ?case
  proof (cases "k \<in> pb_sync_labels s \<and> map_of (cl_seen_blocks cp) k = None")
    case False
    then have "offered s cp (p # ps) = offered s cp ps" by (auto simp: offered_def p)
    moreover have "foreach (pull_one L clk i) (p # ps) (s, hs) = foreach (pull_one L clk i) ps (s, hs)"
      unfolding p foreach.simps step if_not_P [OF False] by simp
    ultimately show ?thesis
      using Cons.IH [OF Cons.prems(1,2), of hs] Cons.prems(3,4) by simp
  next
    case True
    let ?s2 = "pulled clk i cp k a s" and ?cp1 = "seen_after s cp k a"
    let ?hs2 = "hs @ [BlockHeader_to_bytes L (header (heap s ! a))]"
    note s2 = pulled_facts [OF Cons.prems(1) ka, where clk = clk and i = i and cp = cp]
    have off: "offered s cp (p # ps) = (k, a) # offered ?s2 ?cp1 ps"
      unfolding p by (rule offered_Cons) (use True Cons.prems(4) s2(4) p in auto)
    have "b \<noteq> a" if j: "(j, b) \<in> set ps" for j b
    proof -
      have "map_of (pending_blks s) j = Some b" using j Cons.prems(3) by auto
      then have "block_id (heap s ! b) = j" using server_wf_pending [OF Cons.prems(1)] by blast
      moreover have "j \<noteq> k" using j Cons.prems(4) p by force
      ultimately show ?thesis using server_wf_pending [OF Cons.prems(1) ka] by blast
    qed
    then have hdrs: "map (\<lambda>(k, a). BlockHeader_to_bytes L (header (heap ?s2 ! a))) (offered ?s2 ?cp1 ps) =
        map (\<lambda>(k, a). BlockHeader_to_bytes L (header (heap s ! a))) (offered ?s2 ?cp1 ps)"
      by (auto simp: offered_def s2(7))
    have "map_of (clients ?s2) i = Some ?cp1" by (simp add: s2(2))
    moreover have "\<forall>(k, a) \<in> set ps. map_of (pending_blks ?s2) k = Some a" and "chm_ok ps"
      using Cons.prems(3,4) by (simp_all add: s2(3))
    ultimately obtain s' cp' where s': "foreach (pull_one L clk i) ps (?s2, ?hs2) =
        (None, (s', ?hs2 @ map (\<lambda>(k, a). BlockHeader_to_bytes L (header (heap s ! a))) (offered ?s2 ?cp1 ps)))"
      and keep: "server_wf s'" "pending_blks s' = pending_blks s" "pb_sync_labels s' = pb_sync_labels s"
        "heap_le (heap ?s2) (heap s')" "length (heap s') = length (heap s)"
        "map_of (clients s') = (map_of (clients s))(i \<mapsto> cp')"
        "dom (map_of (cl_seen_blocks cp')) = dom (map_of (cl_seen_blocks ?cp1)) \<union> fst ` set (offered ?s2 ?cp1 ps)"
      using Cons.IH [OF s2(1), of ?cp1 ?hs2] unfolding s2(2,3,4,6) hdrs fun_upd_upd by blast
    have "dom (map_of (cl_seen_blocks cp')) =
        dom (map_of (cl_seen_blocks cp)) \<union> fst ` set (offered s cp (p # ps))"
      using True unfolding keep(7) off by (auto simp: map_of_chm_insert)
    moreover have "foreach (pull_one L clk i) (p # ps) (s, hs) =
        (None, (s', hs @ map (\<lambda>(k, a). BlockHeader_to_bytes L (header (heap s ! a))) (offered s cp (p # ps))))"
      using True step s' unfolding p off [unfolded p] by (simp add: pulled_def)
    ultimately show ?thesis using keep heap_le_trans [OF s2(5) keep(4)] by blast
  qed
qed

lemma offered_facts:
  assumes "server_wf s" and "visits_all ord"
  shows "(k, a) \<in> set (offered s' cp (ord (pending_blks s))) \<Longrightarrow> map_of (pending_blks s) k = Some a"
    and "fst ` set (offered s' cp (ord (pending_blks s))) =
      {k \<in> dom (map_of (pending_blks s)). k \<in> pb_sync_labels s' \<and> map_of (cl_seen_blocks cp) k = None}"
    and "distinct (map fst (offered s' cp (ord (pending_blks s))))"
proof -
  have ok: "chm_ok (pending_blks s)" using assms(1) by (simp add: server_wf_def)
  then show "(k, a) \<in> set (offered s' cp (ord (pending_blks s))) \<Longrightarrow> map_of (pending_blks s) k = Some a"
    by (simp add: offered_def visits_all_set [OF assms(2)])
  show "fst ` set (offered s' cp (ord (pending_blks s))) =
      {k \<in> dom (map_of (pending_blks s)). k \<in> pb_sync_labels s' \<and> map_of (cl_seen_blocks cp) k = None}"
    by (force simp: offered_def visits_all_set [OF assms(2)] dom_map_of_conv_image_fst)
  show "distinct (map fst (offered s' cp (ord (pending_blks s))))"
    using visits_all_keys [OF assms(2) ok] by (simp add: offered_def distinct_map_filter)
qed

lemma PullPendingBlocks_run:
  assumes "server_wf s" and "visits_all ord" and "map_of (clients s) (ucast i) = Some cp"
  shows "\<exists>s' cp'. PullPendingBlocks L ord clk i s =
      (None, (s', map (\<lambda>(k, a). BlockHeader_to_bytes L (header (heap s ! a)))
                      (offered s cp (ord (pending_blks s)))))
    \<and> server_wf s' \<and> pending_blks s' = pending_blks s \<and> pb_sync_labels s' = pb_sync_labels s
    \<and> map_of (clients s') (ucast i) = Some cp'
    \<and> dom (map_of (cl_seen_blocks cp')) =
        dom (map_of (cl_seen_blocks cp)) \<union> fst ` set (offered s cp (ord (pending_blks s)))"
proof -
  have ok: "chm_ok (pending_blks s)" using assms(1) by (simp add: server_wf_def)
  then have "\<forall>(k, a) \<in> set (ord (pending_blks s)). map_of (pending_blks s) k = Some a"
    by (auto simp: visits_all_set [OF assms(2)])
  from pull_loop [OF assms(1,3) this visits_all_keys [OF assms(2) ok], of L clk "[]"]
  obtain s' cp' where "foreach (pull_one L clk (ucast i)) (ord (pending_blks s)) (s, []) =
      (None, (s', [] @ map (\<lambda>(k, a). BlockHeader_to_bytes L (header (heap s ! a)))
                      (offered s cp (ord (pending_blks s)))))"
    and "server_wf s'" "pending_blks s' = pending_blks s" "pb_sync_labels s' = pb_sync_labels s"
      "map_of (clients s') = (map_of (clients s))(ucast i \<mapsto> cp')"
      "dom (map_of (cl_seen_blocks cp')) =
        dom (map_of (cl_seen_blocks cp)) \<union> fst ` set (offered s cp (ord (pending_blks s)))" by blast
  then show ?thesis by (intro exI [of _ s'] exI [of _ cp']) (simp add: PullPendingBlocks_def)
qed

lemma pull_heap_all:
  assumes "\<And>b h. P b \<Longrightarrow> P (b\<lparr>header := h\<rparr>)" and "\<forall>b \<in> set (heap s). P b"
  shows "\<forall>b \<in> set (heap (fst (snd (PullPendingBlocks L ord clk i s)))). P b"
  unfolding PullPendingBlocks_def
proof (rule foreach_invariant [where I = "\<lambda>st. \<forall>b \<in> set (heap (fst st)). P b"])
  fix p and st :: "server \<times> bytes list"
  assume all: "\<forall>b \<in> set (heap (fst st)). P b"
  have "\<forall>b \<in> set ((heap (fst st))[a := (heap (fst st) ! a)\<lparr>header := h\<rparr>]). P b" if "a < length (heap (fst st))" for a h
    using all assms(1) that set_update_subset_insert [of "heap (fst st)" a] by fastforce
  with all show "\<forall>b \<in> set (heap (fst (snd (pull_one L clk (ucast i) p st)))). P b"
    by (auto simp: pull_one_def set_dist_ts_def write_block_def deref_def see_block_def
        split: prod.split option.split sum.split)
qed (simp add: assms(2))

lemma GetBlocks_run:
  assumes "server_wf s" and "flexlib_spec L"
  shows "GetBlocks L (map (BlockHeader_to_bytes L) hs) s =
    Inr (map (Block_to_bytes L) (map (\<lambda>a. heap s ! a) (List.map_filter (\<lambda>h. map_of (pending_blks s) (hdr_id h)) hs)))"
proof -
  let ?got = "\<lambda>h. case map_of (pending_blks s) (hdr_id h) of None \<Rightarrow> [] | Some a \<Rightarrow> [heap s ! a]"
  have one: "get_block_one L s (BlockHeader_to_bytes L h) = Inr (map (Block_to_bytes L) (?got h))" for h
    by (auto simp: get_block_one_def BlockHeader_roundtrip_eq [OF assms(2)] server_wf_deref_pending [OF assms(1)]
        split: option.split)
  have "mapr (get_block_one L s) (map (BlockHeader_to_bytes L) hs) =
      Inr (map (\<lambda>h. map (Block_to_bytes L) (?got h)) hs)"
    by (induction hs) (simp_all add: one)
  then have "GetBlocks L (map (BlockHeader_to_bytes L) hs) s = Inr (map (Block_to_bytes L) (concat (map ?got hs)))"
    by (simp add: GetBlocks_def map_concat comp_def)
  moreover have "concat (map ?got hs) =
      map (\<lambda>a. heap s ! a) (List.map_filter (\<lambda>h. map_of (pending_blks s) (hdr_id h)) hs)"
    by (induction hs) (simp_all add: map_filter_simps split: option.split)
  ultimately show ?thesis by simp
qed

subsection \<open>Votes: lemmas\<close>

lemma relay_vote_to_cases:
  "push_at t v (relay_votes s) = Inl e \<Longrightarrow> relay_vote_to v t s = (Some e, s)"
  "push_at t v (relay_votes s) = Inr qs \<Longrightarrow> relay_vote_to v t s = (None, s\<lparr>relay_votes := qs\<rparr>)"
  by (simp_all add: relay_vote_to_def)

lemma relay_loop_frame: "\<exists>qs. snd (foreach (relay_vote_to v) ts s) = s\<lparr>relay_votes := qs\<rparr>"
proof (induction ts arbitrary: s)
  case Nil
  show ?case by (intro exI [of _ "relay_votes s"]) simp
next
  case (Cons t ts)
  show ?case
  proof (cases "push_at t v (relay_votes s)")
    case (Inl e)
    then show ?thesis by (intro exI [of _ "relay_votes s"]) (simp add: relay_vote_to_cases)
  next
    case (Inr qs)
    then show ?thesis using Cons.IH [of "s\<lparr>relay_votes := qs\<rparr>"] by (simp add: relay_vote_to_cases)
  qed
qed

lemma relay_loop:
  assumes "distinct ts" and "set ts \<subseteq> dom (map_of (relay_votes s))"
  shows "\<exists>qs. foreach (relay_vote_to v) ts s = (None, s\<lparr>relay_votes := qs\<rparr>) \<and>
    (\<forall>k. map_of qs k = (if k \<in> set ts then Some (the (map_of (relay_votes s) k) @ [v])
                        else map_of (relay_votes s) k))"
  using assms
proof (induction ts arbitrary: s)
  case Nil
  show ?case by (intro exI [of _ "relay_votes s"]) simp
next
  case (Cons t ts)
  from Cons.prems obtain q where q: "map_of (relay_votes s) t = Some q" by auto
  let ?s1 = "s\<lparr>relay_votes := AList.update t (q @ [v]) (relay_votes s)\<rparr>"
  have "set ts \<subseteq> dom (map_of (relay_votes ?s1))"
    using Cons.prems by (auto simp: update_conv')
  with Cons obtain qs where "foreach (relay_vote_to v) ts ?s1 = (None, ?s1\<lparr>relay_votes := qs\<rparr>)"
    and "\<forall>k. map_of qs k = (if k \<in> set ts then Some (the (map_of (relay_votes ?s1) k) @ [v])
                        else map_of (relay_votes ?s1) k)" by (metis distinct.simps(2))
  then show ?case
    using q Cons.prems(1)
    by (intro exI [of _ qs]) (auto simp: relay_vote_to_cases(2) push_at_Some update_conv')
qed

abbreviation moved_to_merge :: "addr \<Rightarrow> u64 \<Rightarrow> server \<Rightarrow> server" where
  "moved_to_merge a k s \<equiv>
     s\<lparr>pb_merge_queue := push a (pb_merge_queue s), pending_blks := chm_erase k (pending_blks s)\<rparr>"

lemma count_vote_pending:
  assumes "server_wf s" and "map_of (pending_blks s) k = Some a"
  shows "count_vote C i v k s =
    (let s1 = write_block a (Block_add_vote i v (heap s ! a)) s
     in (None, if is_vote_enough (cf_client_count C) (Block_add_vote i v (heap s ! a))
               then moved_to_merge a k s1 else s1))"
  using assms by (simp add: count_vote_def server_wf_deref_pending Let_def)

lemma count_vote_absent: "map_of (pending_blks s) k = None \<Longrightarrow> count_vote C i v k s = (None, s)"
  by (simp add: count_vote_def)

lemma server_wf_voted [keeps_inv]:
  assumes "server_wf s" and "map_of (pending_blks s) k = Some a"
  shows "server_wf (write_block a (Block_add_vote i v (heap s ! a)) s)"
  using assms server_wf_pending [OF assms] by (auto intro!: server_wf_write evolves_add_vote)

lemma count_vote_ok:
  assumes "server_wf s"
  shows "fst (count_vote C i v k s) = None" and "server_wf (snd (count_vote C i v k s))"
proof -
  have "fst (count_vote C i v k s) = None \<and> server_wf (snd (count_vote C i v k s))"
  proof (cases "map_of (pending_blks s) k")
    case None
    with assms show ?thesis by (simp add: count_vote_absent)
  next
    case (Some a)
    let ?s1 = "write_block a (Block_add_vote i v (heap s ! a)) s"
    have "server_wf ?s1" using assms Some by (rule server_wf_voted)
    moreover have "map_of (pending_blks ?s1) k = Some a" using Some by (simp add: write_block_def)
    ultimately have "server_wf (moved_to_merge a k ?s1)" by (rule server_wf_to_merge)
    with \<open>server_wf ?s1\<close> show ?thesis
      using count_vote_pending [OF assms Some, of C i v] by (simp add: Let_def)
  qed
  then show "fst (count_vote C i v k s) = None" and "server_wf (snd (count_vote C i v k s))"
    by simp_all
qed

text \<open>
  A vote that is not for a dead block: every step of \<open>vote_one\<close> is a change of the relay
  queues followed, on a responsible server, by the counting.
\<close>

lemma vote_one_shape:
  "(\<exists>qs. snd (vote_one C i b s) = s\<lparr>relay_votes := qs\<rparr>) \<or>
   (\<exists>qs v. map_of (votes b) i = Some v \<and>
      vote_one C i b s = count_vote C i v (block_id b) (s\<lparr>relay_votes := qs\<rparr>))"
proof (cases "\<exists>v ts. map_of (votes b) i = Some v \<and> block_id b \<notin> dead_block s
    \<and> get_server_id b (cf_server_count C) = Inr ts")
  case False
  then have "snd (vote_one C i b s) = s\<lparr>relay_votes := relay_votes s\<rparr>"
    by (auto simp: vote_one_def split: option.splits sum.splits)
  then show ?thesis by blast
next
  case True
  then obtain v ts where v: "map_of (votes b) i = Some v" and alive: "block_id b \<notin> dead_block s"
    and ts: "get_server_id b (cf_server_count C) = Inr ts" by blast
  let ?ts = "filter (\<lambda>t. t \<noteq> server_id s) ts"
  obtain qs qs1 where qs: "snd (foreach (relay_vote_to v) ts s) = s\<lparr>relay_votes := qs\<rparr>"
    and qs1: "snd (foreach (relay_vote_to v) ?ts s) = s\<lparr>relay_votes := qs1\<rparr>"
    using relay_loop_frame by metis
  obtain r where r: "foreach (relay_vote_to v) ?ts s = (r, s\<lparr>relay_votes := qs1\<rparr>)"
    using qs1 by (cases "foreach (relay_vote_to v) ?ts s") simp
  show ?thesis
  proof (cases r)
    case None
    with v alive ts qs r show ?thesis by (auto simp: vote_one_def)
  next
    case (Some e)
    with v alive ts qs r have "snd (vote_one C i b s) = s\<lparr>relay_votes := qs\<rparr> \<or>
        snd (vote_one C i b s) = s\<lparr>relay_votes := qs1\<rparr>"
      by (simp add: vote_one_def)
    then show ?thesis by blast
  qed
qed

lemma server_wf_vote_one [keeps_inv]: "server_wf s \<Longrightarrow> server_wf (snd (vote_one C i b s))"
  using vote_one_shape [of C i b s] by (auto intro!: count_vote_ok(2))

lemma server_wf_VoteBlocks [keeps_inv]: "server_wf s \<Longrightarrow> server_wf (snd (VoteBlocks B L C i bs s))"
  unfolding VoteBlocks_def by (rule decode_each_invariant) (simp_all add: server_wf_vote_one)

text \<open>What a responsible and a non-responsible server do with a vote.\<close>

definition peers_ready :: "conf \<Rightarrow> server \<Rightarrow> bool" where
  "peers_ready C s \<longleftrightarrow> {1..cf_server_count C} - {server_id s} \<subseteq> dom (map_of (relay_votes s))"

lemma vote_one_relays:
  assumes n: "cf_server_count C \<noteq> 0" "cf_server_count C \<noteq> - 1"
    and v: "map_of (votes b) i = Some v" and alive: "block_id b \<notin> dead_block s"
    and queues: "peers_ready C s"
    and ts: "get_server_id b (cf_server_count C) = Inr ts"
  shows "\<exists>qs. vote_one C i b s =
      (if server_id s \<in> set ts then count_vote C i v (block_id b) (s\<lparr>relay_votes := qs\<rparr>)
       else (None, s\<lparr>relay_votes := qs\<rparr>))
    \<and> (\<forall>k. map_of qs k = (if k \<in> set ts - {server_id s} then Some (the (map_of (relay_votes s) k) @ [v])
                          else map_of (relay_votes s) k))"
proof -
  let ?ts = "filter (\<lambda>t. t \<noteq> server_id s) ts"
  have sub: "set ts \<subseteq> {1..cf_server_count C}" by (rule get_server_id_subset [OF n ts])
  have "distinct ?ts" using set_get_server_id(3) [OF n ts] by simp
  moreover have "set ?ts \<subseteq> dom (map_of (relay_votes s))" using sub queues by (auto simp: peers_ready_def)
  ultimately obtain qs where qs: "foreach (relay_vote_to v) ?ts s = (None, s\<lparr>relay_votes := qs\<rparr>)"
    and look: "\<forall>k. map_of qs k = (if k \<in> set ?ts then Some (the (map_of (relay_votes s) k) @ [v])
                          else map_of (relay_votes s) k)"
    using relay_loop by blast
  have "?ts = ts" if "server_id s \<notin> set ts" using that by (auto intro: filter_True)
  with qs look v alive ts show ?thesis
    by (intro exI [of _ qs]) (auto simp: vote_one_def)
qed

text \<open>
  A request with one block, read back from the bytes of the client, is one \<open>vote_one\<close>.
\<close>

lemma VoteBlocks_single:
  assumes "flexlib_spec L" and "sendable B b"
  shows "VoteBlocks B L C i [Block_to_bytes L b] s =
    vote_one C (ucast i) (b\<lparr>tss_sig := None\<rparr>) s"
  using block_wire.decode_each_written [OF assms(1), of "[b]" B] assms(2)
  by (simp add: VoteBlocks_def foreach_single del: foreach.simps)

subsection \<open>A quorum of votes\<close>

text \<open>
  \<open>cast C k\<close> is the counting of the votes of the clients in a list, one after the other.
  After \<open>m\<close> different voters the block has \<open>m\<close> votes; it waits for merging as soon as
  \<open>m\<close> is the number of clients.
\<close>

definition cast :: "conf \<Rightarrow> u64 \<Rightarrow> (u64 \<Rightarrow> BlockVote) \<Rightarrow> u64 list \<Rightarrow> server \<Rightarrow> server outcome" where
  "cast C k v cs s = foreach (\<lambda>i. count_vote C i (v i) k) cs s"

text \<open>The votes of a block after those of \<open>cs\<close>, and a block that differs only in its votes.\<close>

definition voted_by :: "(u64 \<Rightarrow> BlockVote) \<Rightarrow> u64 list \<Rightarrow> Block \<Rightarrow> Block \<Rightarrow> bool" where
  "voted_by v cs b b' \<longleftrightarrow> b' = b\<lparr>votes := votes b'\<rparr> \<and> Block_ok b' \<and>
     length (votes b') = length (votes b) + length cs \<and>
     (\<forall>i. map_of (votes b') i = (if i \<in> set cs then Some (v i) else map_of (votes b) i))"

lemma voted_by_Cons:
  assumes "Block_ok b" and "map_of (votes b) i = None" and "i \<notin> set cs"
    and "voted_by v cs (Block_add_vote i (v i) b) b'"
  shows "voted_by v (i # cs) b b'"
proof -
  let ?b1 = "Block_add_vote i (v i) b"
  have len: "length (votes ?b1) = Suc (length (votes b))"
    using assms(1,2) by (simp add: Block_add_vote_def Block_ok_def omap.count_ins)
  have look: "map_of (votes ?b1) = (map_of (votes b))(i \<mapsto> v i)"
    using assms(1,2) by (simp add: Block_add_vote_lookup)
  have "b' = ?b1\<lparr>votes := votes b'\<rparr>" using assms(4) unfolding voted_by_def by blast
  then have "b' = b\<lparr>votes := votes b'\<rparr>" by (simp add: Block_add_vote_def)
  moreover have "Block_ok b'" "length (votes b') = length (votes ?b1) + length cs"
    "\<And>j. map_of (votes b') j = (if j \<in> set cs then Some (v j) else map_of (votes ?b1) j)"
    using assms(4) unfolding voted_by_def by blast+
  ultimately show ?thesis unfolding voted_by_def by (simp add: len look)
qed

lemma cast_waiting:
  assumes "server_wf s" and "map_of (pending_blks s) k = Some a" and "distinct cs"
    and "\<forall>i \<in> set cs. map_of (votes (heap s ! a)) i = None"
    and "length (votes (heap s ! a)) + length cs < unat (cf_client_count C)"
  shows "\<exists>s'. cast C k v cs s = (None, s') \<and> server_wf s' \<and> pending_blks s' = pending_blks s
    \<and> pb_merge_queue s' = pb_merge_queue s \<and> voted_by v cs (heap s ! a) (heap s' ! a)"
  using assms
proof (induction cs arbitrary: s)
  case Nil
  then show ?case using server_wf_pending [OF Nil(1,2)] by (simp add: cast_def voted_by_def)
next
  case (Cons i cs)
  note blk = server_wf_pending [OF Cons.prems(1,2)]
  let ?b = "Block_add_vote i (v i) (heap s ! a)"
  let ?s1 = "write_block a ?b s"
  have i: "map_of (votes (heap s ! a)) i = None" using Cons.prems(4) by simp
  have len: "length (votes ?b) = Suc (length (votes (heap s ! a)))"
    using i blk by (simp add: Block_add_vote_def Block_ok_def omap.count_ins)
  have look: "map_of (votes ?b) = (map_of (votes (heap s ! a)))(i \<mapsto> v i)"
    using i blk by (simp add: Block_add_vote_lookup)
  have "\<not> is_vote_enough (cf_client_count C) ?b"
    using len Cons.prems(5) by (simp add: is_vote_enough_def)
  then have step: "count_vote C i (v i) k s = (None, ?s1)"
    using count_vote_pending [OF Cons.prems(1,2), of C i "v i"] by (simp add: Let_def)
  have h: "heap ?s1 ! a = ?b" and pend: "pending_blks ?s1 = pending_blks s"
    and merge: "pb_merge_queue ?s1 = pb_merge_queue s"
    using blk by (simp_all add: write_block_def)
  have "\<exists>s'. cast C k v cs ?s1 = (None, s') \<and> server_wf s' \<and> pending_blks s' = pending_blks ?s1
      \<and> pb_merge_queue s' = pb_merge_queue ?s1 \<and> voted_by v cs (heap ?s1 ! a) (heap s' ! a)"
    by (rule Cons.IH)
      (use Cons.prems len look in \<open>auto simp: h pend intro: server_wf_voted\<close>)
  then obtain s' where s': "cast C k v cs ?s1 = (None, s')" "server_wf s'" "pending_blks s' = pending_blks s"
    "pb_merge_queue s' = pb_merge_queue s" "voted_by v cs ?b (heap s' ! a)"
    unfolding h pend merge by blast
  have "voted_by v (i # cs) (heap s ! a) (heap s' ! a)"
    using blk i Cons.prems(3) s'(5) by (intro voted_by_Cons) simp_all
  with s' step show ?case by (auto simp: cast_def)
qed

lemma cast_quorum:
  assumes "server_wf s" and "map_of (pending_blks s) k = Some a" and "votes (heap s ! a) = []"
    and "distinct cs" and "length cs = unat (cf_client_count C)" and "cs \<noteq> []"
  shows "\<exists>s'. cast C k v cs s = (None, s') \<and> server_wf s'
    \<and> map_of (pending_blks s') = (map_of (pending_blks s))(k := None)
    \<and> pb_merge_queue s' = pb_merge_queue s @ [a]
    \<and> heap s' ! a = (heap s ! a)\<lparr>votes := votes (heap s' ! a)\<rparr>
    \<and> (\<forall>i. map_of (votes (heap s' ! a)) i = (if i \<in> set cs then Some (v i) else None))"
proof -
  let ?cs = "butlast cs" and ?i = "last cs"
  have cs: "cs = ?cs @ [?i]" using assms(6) by simp
  have d: "distinct ?cs" "?i \<notin> set ?cs" using assms(4) cs by (metis distinct_append distinct_butlast
      not_distinct_conv_prefix)+
  have len: "length ?cs < unat (cf_client_count C)"
    using assms(6) by (simp add: assms(5) [symmetric])
  obtain s1 where s1: "cast C k v ?cs s = (None, s1)" "server_wf s1" "pending_blks s1 = pending_blks s"
      "pb_merge_queue s1 = pb_merge_queue s" and voted: "voted_by v ?cs (heap s ! a) (heap s1 ! a)"
    using cast_waiting [OF assms(1,2) d(1), of C v] assms(3) len by auto
  have same: "heap s1 ! a = (heap s ! a)\<lparr>votes := votes (heap s1 ! a)\<rparr>"
    and n1: "length (votes (heap s1 ! a)) = length ?cs"
    and look1: "\<And>i. map_of (votes (heap s1 ! a)) i = (if i \<in> set ?cs then Some (v i) else None)"
    using voted assms(3) by (auto simp: voted_by_def)
  have pend: "map_of (pending_blks s1) k = Some a" using assms(2) s1(3) by simp
  note blk = server_wf_pending [OF s1(2) pend]
  let ?b = "Block_add_vote ?i (v ?i) (heap s1 ! a)"
  let ?s2 = "write_block a ?b s1"
  have fresh: "map_of (votes (heap s1 ! a)) ?i = None" using d(2) look1 by simp
  then have "length (votes ?b) = Suc (length ?cs)"
    using blk n1 by (simp add: Block_add_vote_def Block_ok_def omap.count_ins)
  then have "is_vote_enough (cf_client_count C) ?b"
    using assms(5,6) by (simp add: is_vote_enough_def)
  then have step: "count_vote C ?i (v ?i) k s1 = (None, moved_to_merge a k ?s2)"
    using count_vote_pending [OF s1(2) pend, of C ?i "v ?i"] by (simp add: Let_def)
  have "cast C k v cs s = (None, moved_to_merge a k ?s2)"
    using s1(1) step by (subst cs) (simp add: cast_def foreach_append del: append_butlast_last_id)
  moreover have "server_wf (moved_to_merge a k ?s2)"
    using count_vote_ok(2) [OF s1(2), of C ?i "v ?i" k] step by simp
  moreover have "chm_ok (pending_blks s)" using assms(1) by (simp add: server_wf_def)
  moreover have "set cs = insert ?i (set ?cs)" by (subst cs) (simp del: append_butlast_last_id)
  moreover have "?b = (heap s ! a)\<lparr>votes := votes ?b\<rparr>"
    using same by (metis Block_add_vote_def Block.select_convs(3) Block.update_convs(3) Block.surjective)
  ultimately show ?thesis
    using blk s1(3,4) look1 fresh
    by (simp add: write_block_def chm.lookup_erase push_def Block_add_vote_lookup)
qed

lemma count_vote_frame:
  "count_vote C i v k (s\<lparr>relay_votes := qs\<rparr>) =
     (fst (count_vote C i v k s), (snd (count_vote C i v k s))\<lparr>relay_votes := qs\<rparr>)"
  "server_id (snd (count_vote C i v k s)) = server_id s"
  "dead_block (snd (count_vote C i v k s)) = dead_block s"
  "relay_votes (snd (count_vote C i v k s)) = relay_votes s"
  by (simp_all add: count_vote_def deref_def write_block_def Let_def split: option.split sum.split)

lemma cast_frame:
  "cast C k v cs (s\<lparr>relay_votes := qs\<rparr>) = (fst (cast C k v cs s), (snd (cast C k v cs s))\<lparr>relay_votes := qs\<rparr>)"
  unfolding cast_def
proof (induction cs arbitrary: s)
  case Nil
  show ?case by simp
next
  case (Cons i cs)
  obtain r s1 where r: "count_vote C i (v i) k s = (r, s1)" by fastforce
  then show ?case using Cons.IH [of s1] by (cases r) (simp_all add: count_vote_frame(1))
qed

text \<open>The block a client sends back: its copy, with its own vote in it.\<close>

definition ballot :: "'ss blslib \<Rightarrow> u64 \<Rightarrow> u32 \<Rightarrow> BlockVote \<Rightarrow> Block \<Rightarrow> bool" where
  "ballot B k i v b \<longleftrightarrow> sendable B b \<and> block_id b = k \<and> map_of (votes b) (ucast i) = Some v"

abbreviation responsible :: "conf \<Rightarrow> u64 \<Rightarrow> u64 set" where
  "responsible C k \<equiv> {k mod cf_server_count C + 1, next_server (cf_server_count C) (k mod cf_server_count C + 1)}"

lemma VoteBlocks_responsible:
  assumes "flexlib_spec L" and "cf_server_count C \<noteq> 0" "cf_server_count C \<noteq> - 1"
    and "ballot B k i v b" and "k \<notin> dead_block s" and "peers_ready C s"
    and "get_server_id b (cf_server_count C) = Inr ts" and "server_id s \<in> set ts"
  shows "\<exists>qs. VoteBlocks B L C i [Block_to_bytes L b] s = count_vote C (ucast i) v k (s\<lparr>relay_votes := qs\<rparr>)
    \<and> (\<forall>j. map_of qs j = (if j \<in> set ts - {server_id s} then Some (the (map_of (relay_votes s) j) @ [v])
                          else map_of (relay_votes s) j))"
proof -
  have b: "sendable B b" "block_id b = k" "map_of (votes b) (ucast i) = Some v"
    using assms(4) by (simp_all add: ballot_def)
  have "get_server_id (b\<lparr>tss_sig := None\<rparr>) (cf_server_count C) = Inr ts"
    using assms(7) get_server_id_header [of "b\<lparr>tss_sig := None\<rparr>" b] by simp
  from vote_one_relays [OF assms(2,3) _ _ assms(6) this, of "ucast i" v] b assms(5,8) show ?thesis
    by (simp add: VoteBlocks_single [OF assms(1) b(1)])
qed

lemma peers_ready_relay:
  assumes "peers_ready C s" and "server_id s' = server_id s"
    and "dom (map_of (relay_votes s)) \<subseteq> dom (map_of (relay_votes s'))"
  shows "peers_ready C s'"
  using assms unfolding peers_ready_def by auto

lemma VoteBlocks_cast:
  assumes "flexlib_spec L" and n: "cf_server_count C \<noteq> 0" "cf_server_count C \<noteq> - 1"
    and "\<forall>i \<in> set cs. ballot B k i (v (ucast i)) (blk i)" and "k \<notin> dead_block s" and "peers_ready C s"
    and "server_id s \<in> responsible C k" and "server_wf s"
  shows "\<exists>qs. foreach (\<lambda>i. VoteBlocks B L C i [Block_to_bytes L (blk i)]) cs s =
    (None, (snd (cast C k v (map ucast cs) s))\<lparr>relay_votes := qs\<rparr>)
    \<and> dom (map_of (relay_votes s)) \<subseteq> dom (map_of qs)"
  using assms(4-)
proof (induction cs arbitrary: s)
  case Nil
  then show ?case by (intro exI [of _ "relay_votes s"]) (simp add: cast_def)
next
  case (Cons i cs)
  let ?i = "ucast i :: u64"
  obtain ts where ts: "get_server_id (blk i) (cf_server_count C) = Inr ts"
    using get_server_id_eq [OF n] by blast
  have bid: "block_id (blk i) = k" using Cons.prems(1) by (simp add: ballot_def)
  have "set ts = responsible C k" using set_get_server_id(1) [OF n ts] unfolding bid .
  with Cons.prems(4) have self: "server_id s \<in> set ts" by (simp only:)
  from Cons.prems(1) VoteBlocks_responsible [OF assms(1) n _ Cons.prems(2,3) ts self] obtain qs where
    step: "VoteBlocks B L C i [Block_to_bytes L (blk i)] s = count_vote C ?i (v ?i) k (s\<lparr>relay_votes := qs\<rparr>)"
    and qs: "\<forall>j. map_of qs j = (if j \<in> set ts - {server_id s} then Some (the (map_of (relay_votes s) j) @ [v ?i])
                          else map_of (relay_votes s) j)"
    by (metis list.set_intros(1))
  obtain s1 where s1: "count_vote C ?i (v ?i) k s = (None, s1)" and wf1: "server_wf s1"
    using count_vote_ok [OF Cons.prems(5), of C ?i "v ?i" k]
    by (metis prod.collapse)
  let ?s2 = "s1\<lparr>relay_votes := qs\<rparr>"
  have fr: "server_id s1 = server_id s" "dead_block s1 = dead_block s"
    using count_vote_frame(2,3) [of C ?i "v ?i" k s] s1 by simp_all
  have "peers_ready C ?s2"
    by (rule peers_ready_relay [OF Cons.prems(3)]) (use qs fr in \<open>auto simp: domIff split: if_splits\<close>)
  then have "\<exists>qs'. foreach (\<lambda>i. VoteBlocks B L C i [Block_to_bytes L (blk i)]) cs ?s2 =
      (None, (snd (cast C k v (map ucast cs) ?s2))\<lparr>relay_votes := qs'\<rparr>)
      \<and> dom (map_of (relay_votes ?s2)) \<subseteq> dom (map_of qs')"
    using Cons.prems fr wf1 by (intro Cons.IH) simp_all
  moreover have "dom (map_of (relay_votes s)) \<subseteq> dom (map_of (relay_votes ?s2))"
    using qs by (auto simp: domIff split: if_splits)
  moreover have "VoteBlocks B L C i [Block_to_bytes L (blk i)] s = (None, ?s2)"
    using step s1 by (simp add: count_vote_frame(1))
  moreover have "cast C k v (map ucast (i # cs)) s = cast C k v (map ucast cs) s1"
    using s1 by (simp add: cast_def)
  ultimately show ?case
    using cast_frame [of C k v "map ucast cs" qs s1]
    by auto (rule exI, rule conjI, rule refl, rule subset_trans)
qed

subsection \<open>A sample server\<close>

definition sample_client :: ClientProfile where
  "sample_client = \<lparr>cl_id = 1, cl_ecc_pkey = None,
     cl_tss_key = (\<lparr>sk_share = 5, sk_t = 2, sk_n = 2\<rparr>, \<lparr>pk_share = 5, pk_t = 2, pk_n = 2\<rparr>),
     cl_seen_blocks = []\<rparr>"

definition vote_server :: server where
  "vote_server = new_server
     \<lparr>server_id := 2, heap := [mk_Block 7 0 0], pending_blks := [(7, 0)], relay_votes := [(1, [])],
      clients := [(1, sample_client)], pb_sync_labels := {7}\<rparr>"

lemma vote_server_wf: "server_wf vote_server"
  by (simp add: vote_server_def new_server_def server_wf_def keyed_def queues_valid_def mk_Block_def
      mk_BlockHeader_def Block_ok_def)

lemma vote_server_ready: "peers_ready (sample_conf 2) vote_server"
  by (auto simp: peers_ready_def vote_server_def sample_conf_def word_le_nat_alt
      word_unat_eq_iff split: if_splits)

subsection \<open>Properties\<close>

text \<open>
  C24: registering a known client stores its public key, answers with the client's own
  secret share and leaves every other client's profile alone; for an unknown client the
  handler dereferences an empty accessor.
\<close>

theorem Register_profile:
  assumes "server_wf s" and "kl_mk_pubkey K d = Inr pkey"
  shows "(\<forall>cp. map_of (clients s) (ucast i) = Some cp \<longrightarrow>
      (\<exists>s'. Register K i d s = (Inr \<lparr>rr_status = 0, rr_id = i, rr_tss_sk = kl_sk_string K (fst (cl_tss_key cp))\<rparr>, s')
        \<and> map_of (clients s') = (map_of (clients s))(ucast i \<mapsto> cp\<lparr>cl_ecc_pkey := Some pkey\<rparr>)
        \<and> server_wf s'))
    \<and> (map_of (clients s) (ucast i) = None \<longrightarrow> Register K i d s = (Inl NullDeref, s))"
proof -
  have ok: "chm_ok (clients s)" using assms(1) by (simp add: server_wf_def)
  have "server_wf (s\<lparr>clients := chm_assign k cp (clients s)\<rparr>)" for k cp
    using assms(1) chm.invar_assign [OF ok] by (rule server_wf_clients)
  with assms(2) show ?thesis by (auto simp: Register_def chm.lookup_assign [OF ok])
qed

theorem Register_profile_witness:
  "(\<exists>s'. Register sample_keys 1 [9] vote_server =
      (Inr \<lparr>rr_status = 0, rr_id = 1, rr_tss_sk = [5]\<rparr>, s')
     \<and> map_of (clients s') 1 = Some (sample_client\<lparr>cl_ecc_pkey := Some [9]\<rparr>))
   \<and> Register sample_keys 3 [9] vote_server = (Inl NullDeref, vote_server)"
proof -
  have "kl_mk_pubkey sample_keys [9] = Inr [9]" by (simp add: sample_keys_def)
  note spec = Register_profile [OF vote_server_wf this]
  have "map_of (clients vote_server) (ucast (1 :: u32)) = Some sample_client"
    and "map_of (clients vote_server) (ucast (3 :: u32)) = None"
    by (simp_all add: vote_server_def)
  moreover have "kl_sk_string sample_keys (fst (cl_tss_key sample_client)) = [5]"
    by (simp add: sample_keys_def sample_client_def)
  ultimately show ?thesis using spec [of 1] spec [of 3] by auto
qed

text \<open>
  C25: a registered client that pulls receives, once each, the headers of exactly the
  pending blocks that have been signalled and that it has not been sent before; a second
  pull right after returns nothing. The handler does not fail.
\<close>

theorem PullPendingBlocks_once:
  assumes "server_wf s" and "visits_all ord" and "visits_all ord'" and "flexlib_spec L"
    and "map_of (clients s) (ucast i) = Some cp"
  shows "\<exists>s' hdrs. PullPendingBlocks L ord clk i s = (None, (s', hdrs))
    \<and> distinct (map (\<lambda>h. hdr_id (BlockHeader_from_bytes L h)) hdrs)
    \<and> (\<lambda>h. hdr_id (BlockHeader_from_bytes L h)) ` set hdrs =
        {k \<in> dom (map_of (pending_blks s)). k \<in> pb_sync_labels s \<and> map_of (cl_seen_blocks cp) k = None}
    \<and> (\<forall>h \<in> set hdrs. \<exists>k a. map_of (pending_blks s) k = Some a \<and>
         BlockHeader_from_bytes L h = header (heap s ! a))
    \<and> (\<exists>s''. PullPendingBlocks L ord' clk' i s' = (None, (s'', [])))"
proof -
  let ?ps = "offered s cp (ord (pending_blks s))"
  let ?hdr = "\<lambda>(k, a). BlockHeader_to_bytes L (header (heap s ! a))"
  note offer = offered_facts [OF assms(1,2), where s' = s and cp = cp]
  obtain s' cp' where run: "PullPendingBlocks L ord clk i s = (None, (s', map ?hdr ?ps))"
    and s': "server_wf s'" "pending_blks s' = pending_blks s" "pb_sync_labels s' = pb_sync_labels s"
      "map_of (clients s') (ucast i) = Some cp'"
      "dom (map_of (cl_seen_blocks cp')) = dom (map_of (cl_seen_blocks cp)) \<union> fst ` set ?ps"
    using PullPendingBlocks_run [OF assms(1,2,5)] by blast
  have ids: "hdr_id (BlockHeader_from_bytes L (?hdr p)) = fst p" if "p \<in> set ?ps" for p
  proof -
    obtain k a where p: "p = (k, a)" by (cases p)
    with that offer(1) have "block_id (heap s ! a) = k" using server_wf_pending [OF assms(1)] by blast
    then show ?thesis by (simp add: p BlockHeader_roundtrip_eq [OF assms(4)])
  qed
  have "distinct (map (\<lambda>h. hdr_id (BlockHeader_from_bytes L h)) (map ?hdr ?ps))"
    using offer(3) ids by (simp add: comp_def cong: map_cong)
  moreover have "(\<lambda>h. hdr_id (BlockHeader_from_bytes L h)) ` set (map ?hdr ?ps) =
      {k \<in> dom (map_of (pending_blks s)). k \<in> pb_sync_labels s \<and> map_of (cl_seen_blocks cp) k = None}"
    unfolding offer(2) [symmetric] using ids by (simp add: image_image cong: image_cong)
  moreover have "\<exists>k a. map_of (pending_blks s) k = Some a \<and> BlockHeader_from_bytes L h = header (heap s ! a)"
    if "h \<in> set (map ?hdr ?ps)" for h
    using that offer(1) by (auto simp: BlockHeader_roundtrip_eq [OF assms(4)]) blast
  moreover have "\<exists>s''. PullPendingBlocks L ord' clk' i s' = (None, (s'', []))"
  proof -
    have "fst ` set (offered s' cp' (ord' (pending_blks s'))) =
        {k \<in> dom (map_of (pending_blks s')). k \<in> pb_sync_labels s' \<and> map_of (cl_seen_blocks cp') k = None}"
      by (rule offered_facts(2) [OF s'(1) assms(3)])
    also have "\<dots> = {}" using s'(5) offer(2) by (auto simp: s'(2,3))
    finally show ?thesis using PullPendingBlocks_run [OF s'(1) assms(3) s'(4), of L clk'] by auto
  qed
  ultimately show ?thesis using run by blast
qed

theorem PullPendingBlocks_once_witness:
  "\<exists>s' hdrs. PullPendingBlocks ref_flex id (\<lambda>k. 5) 1 vote_server = (None, (s', hdrs))
    \<and> (\<lambda>h. hdr_id (BlockHeader_from_bytes ref_flex h)) ` set hdrs = {7}
    \<and> (\<exists>s''. PullPendingBlocks ref_flex rev (\<lambda>k. 6) 1 s' = (None, (s'', [])))"
proof -
  have cl: "map_of (clients vote_server) (ucast (1 :: u32)) = Some sample_client"
    by (simp add: vote_server_def)
  have "{k \<in> dom (map_of (pending_blks vote_server)). k \<in> pb_sync_labels vote_server \<and>
      map_of (cl_seen_blocks sample_client) k = None} = {7}"
    by (auto simp: vote_server_def sample_client_def)
  with PullPendingBlocks_once [OF vote_server_wf visits_all_id visits_all_rev ref_flex_spec cl,
      of "\<lambda>k. 5" "\<lambda>k. 6"] show ?thesis by auto
qed

text \<open>
  \<open>GetBlocks\<close> answers with the blocks that are pending, in the order of the headers
  asked for; reading the answer gives these blocks without their threshold signatures.
\<close>

theorem GetBlocks_pending:
  assumes "server_wf s" and "flexlib_spec L" and "\<forall>b \<in> set (heap s). sendable B b"
  shows "\<exists>pbs. GetBlocks L (map (BlockHeader_to_bytes L) hs) s = Inr pbs
    \<and> mapr (Block_from_bytes B L) pbs =
        Inr (map (\<lambda>a. (heap s ! a)\<lparr>tss_sig := None\<rparr>)
          (List.map_filter (\<lambda>h. map_of (pending_blks s) (hdr_id h)) hs))"
proof -
  let ?bs = "map (\<lambda>a. heap s ! a) (List.map_filter (\<lambda>h. map_of (pending_blks s) (hdr_id h)) hs)"
  have "\<forall>b \<in> set ?bs. sendable B b"
    using assms(3) server_wf_pending [OF assms(1)] by (auto simp: map_filter_def)
  from block_wire.read_back_all [OF assms(2) this] GetBlocks_run [OF assms(1,2), of hs] show ?thesis
    by (auto simp: comp_def)
qed

theorem GetBlocks_pending_witness:
  "\<exists>pbs. GetBlocks ref_flex (map (BlockHeader_to_bytes ref_flex) [mk_BlockHeader 9 0 0, mk_BlockHeader 7 0 0])
      pending_server = Inr pbs
    \<and> mapr (Block_from_bytes ref_bls ref_flex) pbs = Inr [sample_block]"
proof -
  have "\<forall>b \<in> set (heap pending_server). sendable ref_bls b"
    by (simp add: pending_server_def sample_block_sendable)
  moreover have "List.map_filter (\<lambda>h. map_of (pending_blks pending_server) (hdr_id h))
      [mk_BlockHeader 9 0 0, mk_BlockHeader 7 0 0] = [0]"
    by (simp add: pending_server_def mk_BlockHeader_def map_filter_simps)
  moreover have "(heap pending_server ! 0)\<lparr>tss_sig := None\<rparr> = sample_block"
    by (simp add: pending_server_def sample_defs)
  ultimately show ?thesis
    using GetBlocks_pending [OF pending_server_wf ref_flex_spec,
      of ref_bls "[mk_BlockHeader 9 0 0, mk_BlockHeader 7 0 0]"] by simp
qed

text \<open>
  C26: a vote for a block that is not dead reaches the relay queue of every server
  responsible for the block other than the receiving one, and no other queue; a server
  that is not responsible does nothing else with it, and a responsible one adds it to its
  pending copy, where an earlier vote of the same client stays.
\<close>

theorem VoteBlocks_routes:
  assumes "flexlib_spec L" and "server_wf s" and "cf_server_count C \<noteq> 0" "cf_server_count C \<noteq> - 1"
    and "ballot B k i v b" and "k \<notin> dead_block s" and "peers_ready C s"
    and "targets = responsible C k"
  shows "\<exists>s'. VoteBlocks B L C i [Block_to_bytes L b] s = (None, s') \<and> server_wf s'
    \<and> (\<forall>j. map_of (relay_votes s') j =
         (if j \<in> targets - {server_id s} then map_option (\<lambda>q. q @ [v]) (map_of (relay_votes s) j)
          else map_of (relay_votes s) j))
    \<and> (server_id s \<notin> targets \<longrightarrow> heap s' = heap s \<and> pending_blks s' = pending_blks s)
    \<and> (\<forall>a. server_id s \<in> targets \<longrightarrow> map_of (pending_blks s) k = Some a \<longrightarrow>
         heap s' ! a = Block_add_vote (ucast i) v (heap s ! a))"
proof -
  let ?b = "b\<lparr>tss_sig := None\<rparr>"
  have b: "sendable B b" "block_id b = k" "map_of (votes b) (ucast i) = Some v"
    using assms(5) by (simp_all add: ballot_def)
  obtain ts where ts: "get_server_id ?b (cf_server_count C) = Inr ts"
    using get_server_id_eq [OF assms(3,4)] by blast
  have tset: "set ts = targets" using set_get_server_id(1) [OF assms(3,4) ts] b(2) by (simp add: assms(8))
  have in_queue: "map_of (relay_votes s) j \<noteq> None" if "j \<in> targets - {server_id s}" for j
    using that assms(7) get_server_id_subset [OF assms(3,4) ts] unfolding tset peers_ready_def by blast
  have "map_of (votes ?b) (ucast i) = Some v" and "block_id ?b \<notin> dead_block s" and bid: "block_id ?b = k"
    using b assms(6) by simp_all
  from vote_one_relays [OF assms(3,4) this(1,2) assms(7) ts, unfolded tset bid] obtain qs where
    step: "VoteBlocks B L C i [Block_to_bytes L b] s =
      (if server_id s \<in> targets then count_vote C (ucast i) v k (s\<lparr>relay_votes := qs\<rparr>)
       else (None, s\<lparr>relay_votes := qs\<rparr>))"
    and qs: "\<forall>j. map_of qs j = (if j \<in> targets - {server_id s} then Some (the (map_of (relay_votes s) j) @ [v])
                          else map_of (relay_votes s) j)"
    unfolding VoteBlocks_single [OF assms(1) b(1)] by blast
  have relayed: "map_of qs j = (if j \<in> targets - {server_id s} then map_option (\<lambda>q. q @ [v]) (map_of (relay_votes s) j)
          else map_of (relay_votes s) j)" for j
    using qs in_queue [of j] by auto
  let ?s1 = "s\<lparr>relay_votes := qs\<rparr>" and ?s' = "snd (VoteBlocks B L C i [Block_to_bytes L b] s)"
  have wf1: "server_wf ?s1" using assms(2) by simp
  note cv = count_vote_ok [OF wf1, of C "ucast i" v k]
  have "fst (VoteBlocks B L C i [Block_to_bytes L b] s) = None \<and> server_wf ?s' \<and> relay_votes ?s' = qs"
    using step cv wf1 count_vote_frame(4) [of C "ucast i" v k ?s1] by simp
  moreover have "heap ?s' ! a = Block_add_vote (ucast i) v (heap s ! a)"
    if "server_id s \<in> targets" "map_of (pending_blks s) k = Some a" for a
    using that step count_vote_pending [OF wf1, of k a C "ucast i" v] server_wf_pending [OF assms(2) that(2)]
    by (simp add: Let_def write_block_def)
  ultimately show ?thesis using step relayed
    by (intro exI [of _ ?s']) (auto simp: prod_eq_iff)
qed

lemma sample_ballot:
  "i \<in> {1, 2} \<Longrightarrow> ballot ref_bls 7 i (sample_vote 7 (ucast i)) sample_block"
  using sample_block_sendable by (auto simp: ballot_def sample_block_facts sample_defs)

lemma sample_conf_counts [simp]:
  "cf_server_count (sample_conf i) = 2" "cf_client_count (sample_conf i) = 2"
  by (simp_all add: sample_conf_def)

theorem VoteBlocks_routes_witness:
  "\<exists>s'. VoteBlocks ref_bls ref_flex (sample_conf 2) 1 [Block_to_bytes ref_flex sample_block] vote_server = (None, s')
    \<and> map_of (relay_votes s') 1 = Some [sample_vote 7 1]
    \<and> heap s' ! 0 = Block_add_vote 1 (sample_vote 7 1) (mk_Block 7 0 0)"
proof -
  have n: "cf_server_count (sample_conf 2) \<noteq> 0" "cf_server_count (sample_conf 2) \<noteq> - 1" by simp_all
  have b: "ballot ref_bls 7 1 (sample_vote 7 1) sample_block" using sample_ballot [of 1] by simp
  have d: "7 \<notin> dead_block vote_server" by (simp add: vote_server_def new_server_def)
  from VoteBlocks_routes [OF ref_flex_spec vote_server_wf n b d vote_server_ready refl] show ?thesis
    by (simp add: sample_block_facts) (auto simp: vote_server_def)
qed

text \<open>
  At a server responsible for a block, the votes of as many different clients as are
  configured, arriving in any order, take the block out of the pending map and put it on
  the merge queue exactly once, with exactly these votes.
\<close>

theorem VoteBlocks_quorum:
  fixes v :: "u64 \<Rightarrow> BlockVote"
  assumes "flexlib_spec L" and "server_wf s" and "cf_server_count C \<noteq> 0" "cf_server_count C \<noteq> - 1"
    and "\<forall>i \<in> set cs. ballot B k i (v (ucast i)) (blk i)"
    and "k \<notin> dead_block s" and "peers_ready C s" and "server_id s \<in> responsible C k"
    and "map_of (pending_blks s) k = Some a" and "votes (heap s ! a) = []"
    and "distinct cs" and "length cs = unat (cf_client_count C)" and "cs \<noteq> []"
  shows "\<exists>s'. foreach (\<lambda>i. VoteBlocks B L C i [Block_to_bytes L (blk i)]) cs s = (None, s')
    \<and> server_wf s' \<and> map_of (pending_blks s') = (map_of (pending_blks s))(k := None)
    \<and> pb_merge_queue s' = pb_merge_queue s @ [a]
    \<and> (\<forall>j. map_of (votes (heap s' ! a)) j = (if j \<in> ucast ` set cs then Some (v j) else None))"
proof -
  have "distinct (map ucast cs :: u64 list)"
    using assms(11) by (simp add: distinct_map inj_on_subset [OF inj_client_id])
  with cast_quorum [OF assms(2,9,10), of "map ucast cs" C v] assms(12,13) obtain s1 where
    "cast C k v (map ucast cs) s = (None, s1)" "server_wf s1"
    "map_of (pending_blks s1) = (map_of (pending_blks s))(k := None)"
    "pb_merge_queue s1 = pb_merge_queue s @ [a]"
    "\<forall>j. map_of (votes (heap s1 ! a)) j = (if j \<in> ucast ` set cs then Some (v j) else None)"
    by auto
  moreover obtain qs where "foreach (\<lambda>i. VoteBlocks B L C i [Block_to_bytes L (blk i)]) cs s =
      (None, (snd (cast C k v (map ucast cs) s))\<lparr>relay_votes := qs\<rparr>)"
    using VoteBlocks_cast [OF assms(1,3-8,2)] by blast
  ultimately show ?thesis by simp
qed

theorem VoteBlocks_quorum_witness:
  "\<exists>s'. foreach (\<lambda>i. VoteBlocks ref_bls ref_flex (sample_conf 2) i [Block_to_bytes ref_flex sample_block])
      [2, 1] vote_server = (None, s') \<and> pb_merge_queue s' = [0] \<and> map_of (pending_blks s') 7 = None"
proof -
  let ?C = "sample_conf 2"
  have n: "cf_server_count ?C \<noteq> 0" "cf_server_count ?C \<noteq> - 1" by simp_all
  have b: "\<forall>i \<in> set [2, 1 :: u32]. ballot ref_bls 7 i (sample_vote 7 (ucast i)) sample_block"
    using sample_ballot [of 1] sample_ballot [of 2] by simp
  have d: "7 \<notin> dead_block vote_server" and p: "server_id vote_server \<in> responsible ?C 7"
    and m: "map_of (pending_blks vote_server) 7 = Some 0" "votes (heap vote_server ! 0) = []"
    and q: "distinct [2, 1 :: u32]" "length [2, 1 :: u32] = unat (cf_client_count ?C)" "[2, 1 :: u32] \<noteq> []"
    by (simp_all add: vote_server_def new_server_def mk_Block_def)
  from VoteBlocks_quorum [OF ref_flex_spec vote_server_wf n b d vote_server_ready p m q]
  show ?thesis by (auto simp: vote_server_def new_server_def)
qed

end
