(* ===== verification/TC_PeerGrpc.thy ===== *)
theory TC_PeerGrpc
  imports TC_ServerGrpc
begin

text \<open>
  The service between servers, \<open>include/server/tc-server-peer-grpc.hpp\<close>: the handlers of
  class \<open>TcPeerConsensusImpl\<close>, the senders \<open>SPHeartbeat\<close>, \<open>RelayVote\<close>, \<open>RelayBlock\<close>,
  \<open>SPBcastCommit\<close> and \<open>RelayBlockSync\<close> of class \<open>TcServer\<close>, and the loops of
  \<open>src/server/tc-server.cpp\<close> that call the senders for every peer.

  A sender hands its request to the stub of the target, which appends it to \<open>outbox\<close>,
  and waits for the status of the call. The status is an argument where the code uses it
  (heartbeats) and is ignored where the code only logs it. \<open>handle_peer\<close> dispatches a
  request to the handler of the receiving server.

  The lemmas show what each sender takes from its queue and puts on the wire, that a
  receiving handler processes exactly the entities the sender serialised, and what a
  commit broadcast does to the receiver.
\<close>

subsection \<open>The contract of a sender\<close>

text \<open>
  A sender moves what its server has queued for a target, \<open>out\<close>, to the end of a log
  (the requests sent, or the numbers of the blocks relayed) and changes nothing else that
  \<open>rest\<close> shows. A loop over different targets then logs the queues one after the other
  and leaves them empty.
\<close>

locale peer_sender =
  fixes send :: "u64 \<Rightarrow> server \<Rightarrow> server outcome"
    and log :: "server \<Rightarrow> 'a list"
    and out :: "server \<Rightarrow> u64 \<Rightarrow> 'a list"
    and ready :: "u64 \<Rightarrow> server \<Rightarrow> bool"
    and rest :: "server \<Rightarrow> 'x"
  assumes send_ok: "ready t s \<Longrightarrow> fst (send t s) = None"
    and ready_send: "ready t s \<Longrightarrow> ready u s \<Longrightarrow> ready u (snd (send t s))"
    and log_send: "ready t s \<Longrightarrow> log (snd (send t s)) = log s @ out s t"
    and out_send: "ready t s \<Longrightarrow> out (snd (send t s)) u = (if u = t then [] else out s u)"
    and rest_send: "ready t s \<Longrightarrow> rest (snd (send t s)) = rest s"
begin

lemma send_all:
  assumes "\<forall>t \<in> set ts. ready t s" and "distinct ts"
  shows "\<exists>s'. foreach send ts s = (None, s') \<and> log s' = log s @ concat (map (out s) ts)
    \<and> (\<forall>u. out s' u = (if u \<in> set ts then [] else out s u)) \<and> rest s' = rest s
    \<and> (\<forall>u. ready u s \<longrightarrow> ready u s')"
  using assms
proof (induction ts arbitrary: s)
  case Nil
  show ?case by simp
next
  case (Cons t ts)
  have t: "ready t s" using Cons.prems(1) by simp
  obtain s1 where s1: "send t s = (None, s1)"
    using send_ok [OF t] by (cases "send t s") simp
  note laws = ready_send [OF t, unfolded s1 snd_conv] log_send [OF t, unfolded s1 snd_conv]
    out_send [OF t, unfolded s1 snd_conv] rest_send [OF t, unfolded s1 snd_conv]
  have "\<forall>u \<in> set ts. ready u s1" using Cons.prems(1) laws(1) by simp
  with Cons.IH [of s1] Cons.prems(2) obtain s' where
    "foreach send ts s1 = (None, s')" "log s' = log s1 @ concat (map (out s1) ts)"
    "\<forall>u. out s' u = (if u \<in> set ts then [] else out s1 u)" "rest s' = rest s1"
    "\<forall>u. ready u s1 \<longrightarrow> ready u s'" by auto
  moreover have "map (out s1) ts = map (out s) ts"
    using Cons.prems(2) by (auto simp: laws)
  ultimately show ?case using s1 by (intro exI [of _ s']) (simp add: laws)
qed

end

subsection \<open>Handlers\<close>

definition SPHeartbeat_handler :: "u32 \<Rightarrow> server \<Rightarrow> server outcome" where
  "SPHeartbeat_handler peer_id s = (None, s)"

definition relay_vote_one :: "conf \<Rightarrow> BlockVote \<Rightarrow> server \<Rightarrow> server outcome" where
  "relay_vote_one C vote s =
     (if vote_block_id vote \<in> dead_block s then (None, s)
      else (case map_of (pending_blks s) (vote_block_id vote) of
              None \<Rightarrow> (None, s)
            | Some a \<Rightarrow>
                (case deref s a of
                   Inl e \<Rightarrow> (Some AssertFailed, s)
                 | Inr b \<Rightarrow> count_vote C (vote_voter_id vote) vote (vote_block_id vote) s)))"

definition RelayVote_handler ::
  "'ss blslib \<Rightarrow> 'r flexlib \<Rightarrow> conf \<Rightarrow> bytes list \<Rightarrow> server \<Rightarrow> server outcome" where
  "RelayVote_handler B L C req_votes s =
     decode_each (BlockVote_from_bytes B L) (relay_vote_one C) req_votes s"

definition relay_block_one :: "Block \<Rightarrow> server \<Rightarrow> server outcome" where
  "relay_block_one block s =
     (let (a, s1) = alloc block s
      in (None, s1\<lparr>pending_blks := chm_assign (block_id block) a (pending_blks s1)\<rparr>))"

definition RelayBlock_handler ::
  "'ss blslib \<Rightarrow> 'r flexlib \<Rightarrow> bytes list \<Rightarrow> server \<Rightarrow> server outcome" where
  "RelayBlock_handler B L req_blocks s =
     decode_each (Block_from_bytes B L) relay_block_one req_blocks s"

text \<open>\<open>clk j\<close> is the clock reading made for the \<open>j\<close>-th block of the request.\<close>

definition commit_one :: "'r flexlib \<Rightarrow> conf \<Rightarrow> (nat \<Rightarrow> u64) \<Rightarrow> nat \<Rightarrow> Block \<Rightarrow> server \<Rightarrow> server outcome" where
  "commit_one L C clk j block s =
     (let block' = block\<lparr>header := (header block)\<lparr>hdr_recv_ts := clk j\<rparr>\<rparr>
      in case map_of (pending_blks s) (block_id block') of
           None \<Rightarrow> (None, s)
         | Some _ \<Rightarrow>
             let (a, s1) = alloc block' s;
                 s2 = s1\<lparr>committed_blks := chm_assign (block_id block') a (committed_blks s1)\<rparr>;
                 s3 = (if cf_use_rocksdb C
                       then s2\<lparr>db_puts := db_puts s2 @ [(block_name (block_id block'), Block_to_bytes L block')]\<rparr>
                       else s2)
             in (None, s3\<lparr>pending_blks := chm_erase (block_id block') (pending_blks s3)\<rparr>))"

definition SPBcastCommit_handler ::
  "'ss blslib \<Rightarrow> 'r flexlib \<Rightarrow> conf \<Rightarrow> (nat \<Rightarrow> u64) \<Rightarrow> bytes list \<Rightarrow> server \<Rightarrow> server outcome" where
  "SPBcastCommit_handler B L C clk req_blocks s =
     decode_each_at (Block_from_bytes B L) (commit_one L C clk) req_blocks s"

definition RelayBlockSync_handler :: "u64 \<Rightarrow> server \<Rightarrow> server outcome" where
  "RelayBlockSync_handler blk_id s = (None, s\<lparr>pb_sync_labels := insert blk_id (pb_sync_labels s)\<rparr>)"

definition handle_peer ::
  "'ss blslib \<Rightarrow> 'r flexlib \<Rightarrow> conf \<Rightarrow> (nat \<Rightarrow> u64) \<Rightarrow> request \<Rightarrow> server \<Rightarrow> server outcome" where
  "handle_peer B L C clk req s =
     (case req of
        SPHeartbeatRequest peer_id \<Rightarrow> SPHeartbeat_handler peer_id s
      | RelayVoteRequest peer_id vs \<Rightarrow> RelayVote_handler B L C vs s
      | RelayBlockRequest peer_id bs \<Rightarrow> RelayBlock_handler B L bs s
      | SPBcastCommitRequest peer_id bs timestamp \<Rightarrow> SPBcastCommit_handler B L C clk bs s
      | RelayBlockSyncRequest peer_id blk_id \<Rightarrow> RelayBlockSync_handler blk_id s)"

subsection \<open>Senders\<close>

definition call_peer :: "u64 \<Rightarrow> request \<Rightarrow> server \<Rightarrow> server outcome" where
  "call_peer target req s =
     (case map_of (peer_stubs s) target of
        None \<Rightarrow> (Some NullDeref, s)
      | Some ad \<Rightarrow> (None, s\<lparr>outbox := outbox s @ [(target, req)]\<rparr>))"

definition SPHeartbeat :: "bool \<Rightarrow> u64 \<Rightarrow> server \<Rightarrow> server outcome" where
  "SPHeartbeat status_ok target s =
     (case call_peer target (SPHeartbeatRequest (ucast (server_id s))) s of
        (Some e, s1) \<Rightarrow> (Some e, s1)
      | (None, s1) \<Rightarrow>
          let ix = unat (target - 1)
          in if ix < length (peer_status s1)
             then (None, s1\<lparr>peer_status := (peer_status s1)[ix := status_ok]\<rparr>)
             else (Some OutOfRange, s1))"

definition RelayVote :: "'r flexlib \<Rightarrow> u64 \<Rightarrow> server \<Rightarrow> server outcome" where
  "RelayVote L target s =
     (case map_of (relay_votes s) target of
        None \<Rightarrow> (Some NullDeref, s)
      | Some q \<Rightarrow>
          let (ser_votes, q') = pop_all (BlockVote_to_bytes L) q;
              s1 = s\<lparr>relay_votes := AList.update target q' (relay_votes s)\<rparr>
          in if ser_votes = [] then (None, s1)
             else call_peer target (RelayVoteRequest (ucast (server_id s)) ser_votes) s1)"

text \<open>
  The loop that pops blocks from a queue and reads them; it stops at a null pointer. The
  result is the blocks read, the queue left and the failure, if any.
\<close>

fun pop_blocks :: "(addr \<Rightarrow> Block res) \<Rightarrow> addr list \<Rightarrow> Block list \<times> addr list \<times> exn option" where
  "pop_blocks rd [] = ([], [], None)"
| "pop_blocks rd (a # q) =
     (case rd a of
        Inl e \<Rightarrow> ([], q, Some e)
      | Inr b \<Rightarrow> (let (bs, r, e) = pop_blocks rd q in (b # bs, r, e)))"

definition RelayBlock :: "'r flexlib \<Rightarrow> u64 \<Rightarrow> server \<Rightarrow> server outcome" where
  "RelayBlock L target s =
     (case map_of (relay_blocks s) target of
        None \<Rightarrow> (Some NullDeref, s)
      | Some q \<Rightarrow>
          let (bs, q', failed) = pop_blocks (deref s) q;
              s1 = s\<lparr>relay_blocks := AList.update target q' (relay_blocks s)\<rparr>
          in case failed of
               Some e \<Rightarrow> (Some e, s1)
             | None \<Rightarrow>
                 if bs = [] then (None, s1)
                 else (case call_peer target
                               (RelayBlockRequest (ucast (server_id s)) (map (Block_to_bytes L) bs)) s1 of
                         (Some e, s2) \<Rightarrow> (Some e, s2)
                       | (None, s2) \<Rightarrow>
                           (None, s2\<lparr>pb_sync_queue := fold push (map block_id bs) (pb_sync_queue s2)\<rparr>)))"

definition SPBcastCommit :: "'r flexlib \<Rightarrow> u64 \<Rightarrow> u64 \<Rightarrow> server \<Rightarrow> server outcome" where
  "SPBcastCommit L now target s =
     (case map_of (bcast_commit_blocks s) target of
        None \<Rightarrow> (Some NullDeref, s)
      | Some q \<Rightarrow>
          let (bs, q', failed) = pop_blocks (deref s) q;
              s1 = s\<lparr>bcast_commit_blocks := AList.update target q' (bcast_commit_blocks s)\<rparr>
          in case failed of
               Some e \<Rightarrow> (Some ProcessExit, s1)
             | None \<Rightarrow>
                 if bs = [] then (None, s1)
                 else call_peer target
                        (SPBcastCommitRequest (ucast (server_id s)) (map (Block_to_bytes L) bs) now) s1)"

definition RelayBlockSync :: "u64 \<Rightarrow> u64 \<Rightarrow> server \<Rightarrow> server outcome" where
  "RelayBlockSync blk_id target s =
     call_peer target (RelayBlockSyncRequest (ucast (server_id s)) blk_id) s"

subsection \<open>Loops over the peers\<close>

definition send_heartbeats :: "conf \<Rightarrow> (u64 \<Rightarrow> bool) \<Rightarrow> server \<Rightarrow> server outcome" where
  "send_heartbeats C status_ok s =
     foreach (\<lambda>t. SPHeartbeat (status_ok t) t) (peer_ids (cf_server_count C) (server_id s)) s"

definition send_relay_votes :: "'r flexlib \<Rightarrow> conf \<Rightarrow> server \<Rightarrow> server outcome" where
  "send_relay_votes L C s = foreach (RelayVote L) (peer_ids (cf_server_count C) (server_id s)) s"

definition bcast_commits :: "'r flexlib \<Rightarrow> conf \<Rightarrow> (u64 \<Rightarrow> u64) \<Rightarrow> server \<Rightarrow> server outcome" where
  "bcast_commits L C clk s =
     foreach (\<lambda>t. SPBcastCommit L (clk t) t) (peer_ids (cf_server_count C) (server_id s)) s"

definition send_relay_block_sync :: "conf \<Rightarrow> u64 \<Rightarrow> server \<Rightarrow> server outcome" where
  "send_relay_block_sync C blk_id s =
     (case foreach (RelayBlockSync blk_id) (peer_ids (cf_server_count C) (server_id s)) s of
        (Some e, s1) \<Rightarrow> (Some e, s1)
      | (None, s1) \<Rightarrow> (None, s1\<lparr>pb_sync_labels := insert blk_id (pb_sync_labels s1)\<rparr>))"

lemma call_peer_queue: "pb_sync_queue (snd (call_peer t req s)) = pb_sync_queue s"
  by (simp add: call_peer_def split: option.split)

lemma send_relay_block_sync_queue:
  "pb_sync_queue (snd (send_relay_block_sync C k s)) = pb_sync_queue s"
proof -
  have "pb_sync_queue (snd (foreach (RelayBlockSync k) ts s)) = pb_sync_queue s" for ts
    by (rule foreach_invariant [where I = "\<lambda>s'. pb_sync_queue s' = pb_sync_queue s"])
      (simp_all add: RelayBlockSync_def call_peer_queue)
  then show ?thesis
    unfolding send_relay_block_sync_def
    by (auto split: prod.split option.split) (metis snd_conv)+
qed

function drain_sync :: "conf \<Rightarrow> server \<Rightarrow> server outcome" where
  "drain_sync C s =
     (case try_pop (pb_sync_queue s) of
        None \<Rightarrow> (None, s)
      | Some (blk_id, q) \<Rightarrow>
          (case send_relay_block_sync C blk_id (s\<lparr>pb_sync_queue := q\<rparr>) of
             (None, s') \<Rightarrow> drain_sync C s'
           | (Some e, s') \<Rightarrow> (Some e, s')))"
  by pat_completeness auto
termination
proof (relation "measure (\<lambda>(C, s). length (pb_sync_queue s))", goal_cases)
  case 1
  then show ?case by simp
next
  case (2 C s p k q x s')
  then have "s' = snd (send_relay_block_sync C k (s\<lparr>pb_sync_queue := q\<rparr>))"
    by (metis snd_conv)
  then have "pb_sync_queue s' = q" by (simp add: send_relay_block_sync_queue)
  with "2" show ?case by (auto dest: lq.try_pop_shrinks)
qed

declare drain_sync.simps [simp del]

definition send_relay_blocks :: "'r flexlib \<Rightarrow> conf \<Rightarrow> server \<Rightarrow> server outcome" where
  "send_relay_blocks L C s =
     (case foreach (RelayBlock L) (peer_ids (cf_server_count C) (server_id s)) s of
        (Some e, s1) \<Rightarrow> (Some e, s1)
      | (None, s1) \<Rightarrow> drain_sync C s1)"

subsection \<open>Handlers: lemmas\<close>

lemma relay_vote_one_wf:
  "server_wf s \<Longrightarrow> relay_vote_one C vote s =
     (if vote_block_id vote \<in> dead_block s then (None, s)
      else count_vote C (vote_voter_id vote) vote (vote_block_id vote) s)"
  by (simp add: relay_vote_one_def count_vote_absent server_wf_deref_pending split: option.split)

lemma relay_vote_one_ok:
  assumes "server_wf s"
  shows "fst (relay_vote_one C v s) = None \<and> server_wf (snd (relay_vote_one C v s))"
  using assms count_vote_ok by (simp add: relay_vote_one_wf)

lemma relay_block_one_effect:
  "relay_block_one b s = (None, s\<lparr>heap := heap s @ [b],
     pending_blks := chm_assign (block_id b) (length (heap s)) (pending_blks s)\<rparr>)"
  by (simp add: relay_block_one_def alloc_def)

lemma server_wf_relay_block_one [keeps_inv]:
  assumes "server_wf s" and "Block_ok b"
  shows "server_wf (snd (relay_block_one b s))"
proof -
  let ?s1 = "s\<lparr>heap := heap s @ [b]\<rparr>"
  have "length (heap s) \<notin> set (pb_merge_queue s)" using assms(1) by (auto simp: server_wf_def)
  then have "server_wf (?s1\<lparr>pending_blks := chm_assign (block_id b) (length (heap s)) (pending_blks ?s1)\<rparr>)"
    using assms by (intro server_wf_pending_assign server_wf_alloc) simp_all
  then show ?thesis by (simp add: relay_block_one_effect)
qed

abbreviation received :: "u64 \<Rightarrow> Block \<Rightarrow> Block" where
  "received now b \<equiv> b\<lparr>header := (header b)\<lparr>hdr_recv_ts := now\<rparr>\<rparr>"

lemma commit_one_effect:
  "commit_one L C clk j b s =
     (if map_of (pending_blks s) (block_id b) = None then (None, s)
      else (None, s\<lparr>heap := heap s @ [received (clk j) b],
        committed_blks := chm_assign (block_id b) (length (heap s)) (committed_blks s),
        pending_blks := chm_erase (block_id b) (pending_blks s),
        db_puts := (if cf_use_rocksdb C
           then db_puts s @ [(block_name (block_id b), Block_to_bytes L (received (clk j) b))] else db_puts s)\<rparr>))"
  by (auto simp: commit_one_def alloc_def Let_def split: option.split)

lemma server_wf_commit_one [keeps_inv]:
  assumes "server_wf s" and "Block_ok b"
  shows "server_wf (snd (commit_one L C clk j b s))"
proof -
  let ?s1 = "s\<lparr>heap := heap s @ [received (clk j) b]\<rparr>"
  let ?s2 = "?s1\<lparr>committed_blks := chm_assign (block_id b) (length (heap s)) (committed_blks ?s1)\<rparr>"
  let ?s3 = "?s2\<lparr>pending_blks := chm_erase (block_id b) (pending_blks ?s2)\<rparr>"
  have "server_wf ?s3"
    using assms by (intro server_wf_pending_erase server_wf_committed_assign server_wf_alloc) simp_all
  then have "server_wf (?s3\<lparr>db_puts := x\<rparr>)" for x by simp
  with assms(1) show ?thesis by (simp add: commit_one_effect)
qed

lemma server_wf_handle_peer [keeps_inv]:
  assumes "server_wf s"
  shows "server_wf (snd (handle_peer B L C clk req s))"
proof (cases req)
  case (RelayVoteRequest i vs)
  have "server_wf (snd (RelayVote_handler B L C vs s))"
    unfolding RelayVote_handler_def using assms by (rule decode_each_invariant) (simp add: relay_vote_one_ok)
  with RelayVoteRequest show ?thesis by (simp add: handle_peer_def)
next
  case (RelayBlockRequest i bs)
  have "server_wf (snd (RelayBlock_handler B L bs s))"
    unfolding RelayBlock_handler_def using assms
    by (rule decode_each_invariant) (auto intro: server_wf_relay_block_one dest: Block_from_bytes_ok)
  with RelayBlockRequest show ?thesis by (simp add: handle_peer_def)
next
  case (SPBcastCommitRequest i bs ts)
  have "server_wf (snd (SPBcastCommit_handler B L C clk bs s))"
    unfolding SPBcastCommit_handler_def using assms
    by (rule decode_each_at_invariant) (auto intro: server_wf_commit_one dest: Block_from_bytes_ok)
  with SPBcastCommitRequest show ?thesis by (simp add: handle_peer_def)
qed (use assms in \<open>simp_all add: handle_peer_def SPHeartbeat_handler_def RelayBlockSync_handler_def\<close>)

subsection \<open>Senders: lemmas\<close>

lemma call_peer_cases:
  "call_peer t req s = (Some NullDeref, s) \<or>
   call_peer t req s = (None, s\<lparr>outbox := outbox s @ [(t, req)]\<rparr>)"
  by (simp add: call_peer_def split: option.split)

lemma call_peer_stub:
  "map_of (peer_stubs s) t \<noteq> None \<Longrightarrow> call_peer t req s = (None, s\<lparr>outbox := outbox s @ [(t, req)]\<rparr>)"
  by (auto simp: call_peer_def)

lemma pop_blocks_all:
  "(\<And>a. a \<in> set q \<Longrightarrow> rd a = Inr (f a)) \<Longrightarrow> pop_blocks rd q = (map f q, [], None)"
  by (induction q) simp_all

lemma pop_blocks_queue:
  assumes "server_wf s"
  shows "map_of (relay_blocks s) t = Some q \<Longrightarrow> pop_blocks (deref s) q = (map ((!) (heap s)) q, [], None)"
    and "map_of (bcast_commit_blocks s) t = Some q \<Longrightarrow> pop_blocks (deref s) q = (map ((!) (heap s)) q, [], None)"
  using assms by (auto intro!: pop_blocks_all simp: server_wf_def queues_valid_def deref_def)

lemma fold_push: "fold push xs q = q @ xs"
  by (induction xs arbitrary: q) (simp_all add: push_def)

text \<open>What each sender does when the queue and the stub of the target exist.\<close>

definition post :: "u64 \<Rightarrow> request \<Rightarrow> bytes list \<Rightarrow> (u64 \<times> request) list" where
  "post t req payload = (if payload = [] then [] else [(t, req)])"

lemma RelayVote_effect:
  assumes "map_of (relay_votes s) t = Some q" and "map_of (peer_stubs s) t \<noteq> None"
  shows "RelayVote L t s = (None, s\<lparr>relay_votes := AList.update t [] (relay_votes s),
     outbox := outbox s @ post t (RelayVoteRequest (ucast (server_id s)) (map (BlockVote_to_bytes L) q))
       (map (BlockVote_to_bytes L) q)\<rparr>)"
  using assms by (simp add: RelayVote_def pop_all_eq call_peer_stub post_def)

lemma RelayBlock_effect:
  assumes "server_wf s" and "map_of (relay_blocks s) t = Some q" and "map_of (peer_stubs s) t \<noteq> None"
    and "bs = map ((!) (heap s)) q"
  shows "RelayBlock L t s = (None, s\<lparr>relay_blocks := AList.update t [] (relay_blocks s),
     pb_sync_queue := pb_sync_queue s @ map block_id bs,
     outbox := outbox s @ post t (RelayBlockRequest (ucast (server_id s)) (map (Block_to_bytes L) bs))
       (map (Block_to_bytes L) bs)\<rparr>)"
  using assms(2-) pop_blocks_queue(1) [OF assms(1,2)]
  by (simp add: RelayBlock_def call_peer_stub post_def fold_push)

lemma SPBcastCommit_effect:
  assumes "server_wf s" and "map_of (bcast_commit_blocks s) t = Some q" and "map_of (peer_stubs s) t \<noteq> None"
    and "bs = map ((!) (heap s)) q"
  shows "SPBcastCommit L now t s = (None, s\<lparr>bcast_commit_blocks := AList.update t [] (bcast_commit_blocks s),
     outbox := outbox s @ post t (SPBcastCommitRequest (ucast (server_id s)) (map (Block_to_bytes L) bs) now)
       (map (Block_to_bytes L) bs)\<rparr>)"
  using assms(2-) pop_blocks_queue(2) [OF assms(1,2)]
  by (simp add: SPBcastCommit_def call_peer_stub post_def)

text \<open>A server whose start-up has reached every peer: queues and stubs exist.\<close>

abbreviation peers_of :: "conf \<Rightarrow> server \<Rightarrow> u64 list" where
  "peers_of C s \<equiv> peer_ids (cf_server_count C) (server_id s)"

definition linked :: "u64 list \<Rightarrow> server \<Rightarrow> bool" where
  "linked ts s \<longleftrightarrow> (\<forall>t \<in> set ts. map_of (peer_stubs s) t \<noteq> None \<and> map_of (relay_votes s) t \<noteq> None \<and>
     map_of (relay_blocks s) t \<noteq> None \<and> map_of (bcast_commit_blocks s) t \<noteq> None)"

lemma linked_tl: "linked (t # ts) s \<Longrightarrow> linked ts s"
  by (simp add: linked_def)

lemma linked_frame [simp]:
  "linked ts (s\<lparr>outbox := x1\<rparr>) = linked ts s"
  "linked ts (s\<lparr>pb_sync_queue := x2\<rparr>) = linked ts s"
  "linked ts (s\<lparr>pb_sync_labels := x3\<rparr>) = linked ts s"
  by (simp_all add: linked_def)

lemma linked_drained:
  "linked ts s \<Longrightarrow> linked ts (s\<lparr>relay_votes := AList.update t [] (relay_votes s)\<rparr>)"
  "linked ts s \<Longrightarrow> linked ts (s\<lparr>relay_blocks := AList.update t [] (relay_blocks s)\<rparr>)"
  "linked ts s \<Longrightarrow> linked ts (s\<lparr>bcast_commit_blocks := AList.update t [] (bcast_commit_blocks s)\<rparr>)"
  by (auto simp: linked_def update_conv')

lemma RelayBlockSync_loop:
  "linked ts s \<Longrightarrow> foreach (RelayBlockSync k) ts s =
     (None, s\<lparr>outbox := outbox s @ map (\<lambda>t. (t, RelayBlockSyncRequest (ucast (server_id s)) k)) ts\<rparr>)"
proof (induction ts arbitrary: s)
  case Nil
  show ?case by simp
next
  case (Cons t ts)
  let ?s1 = "s\<lparr>outbox := outbox s @ [(t, RelayBlockSyncRequest (ucast (server_id s)) k)]\<rparr>"
  have "RelayBlockSync k t s = (None, ?s1)"
    using Cons.prems by (simp add: RelayBlockSync_def call_peer_stub linked_def)
  moreover have "linked ts ?s1" using linked_tl [OF Cons.prems] by simp
  ultimately show ?case using Cons.IH [of ?s1] by simp
qed

abbreviation signals :: "u32 \<Rightarrow> u64 list \<Rightarrow> u64 list \<Rightarrow> (u64 \<times> request) list" where
  "signals self ts ks \<equiv> concat (map (\<lambda>k. map (\<lambda>t. (t, RelayBlockSyncRequest self k)) ts) ks)"

lemma drain_sync_effect:
  assumes "linked (peers_of C s) s"
  shows "drain_sync C s = (None, s\<lparr>pb_sync_queue := [], pb_sync_labels := pb_sync_labels s \<union> set (pb_sync_queue s),
    outbox := outbox s @ signals (ucast (server_id s)) (peers_of C s) (pb_sync_queue s)\<rparr>)"
  using assms
proof (induction "pb_sync_queue s" arbitrary: s)
  case Nil
  then show ?case by (subst drain_sync.simps) simp
next
  case (Cons k q)
  note q = Cons.hyps(2) [symmetric]
  let ?sig = "map (\<lambda>t. (t, RelayBlockSyncRequest (ucast (server_id s)) k)) (peers_of C s)"
  let ?s1 = "s\<lparr>pb_sync_queue := q, pb_sync_labels := insert k (pb_sync_labels s), outbox := outbox s @ ?sig\<rparr>"
  have "linked (peers_of C s) (s\<lparr>pb_sync_queue := q\<rparr>)" using Cons.prems by simp
  from RelayBlockSync_loop [OF this, of k]
  have "send_relay_block_sync C k (s\<lparr>pb_sync_queue := q\<rparr>) = (None, ?s1)"
    by (simp add: send_relay_block_sync_def)
  moreover have "drain_sync C ?s1 = (None, ?s1\<lparr>pb_sync_queue := [],
      pb_sync_labels := pb_sync_labels ?s1 \<union> set (pb_sync_queue ?s1),
      outbox := outbox ?s1 @ signals (ucast (server_id ?s1)) (peers_of C ?s1) (pb_sync_queue ?s1)\<rparr>)"
    by (rule Cons.hyps(1)) (use Cons.prems in simp_all)
  ultimately show ?case by (subst drain_sync.simps) (simp add: q)
qed

definition relayed_blocks :: "server \<Rightarrow> u64 \<Rightarrow> Block list" where
  "relayed_blocks s t = map ((!) (heap s)) (the (map_of (relay_blocks s) t))"

definition committed_posts :: "server \<Rightarrow> u64 \<Rightarrow> Block list" where
  "committed_posts s t = map ((!) (heap s)) (the (map_of (bcast_commit_blocks s) t))"

definition vote_posts :: "'r flexlib \<Rightarrow> server \<Rightarrow> u64 \<Rightarrow> (u64 \<times> request) list" where
  "vote_posts L s t =
     post t (RelayVoteRequest (ucast (server_id s)) (map (BlockVote_to_bytes L) (the (map_of (relay_votes s) t))))
       (map (BlockVote_to_bytes L) (the (map_of (relay_votes s) t)))"

definition block_posts :: "'r flexlib \<Rightarrow> server \<Rightarrow> u64 \<Rightarrow> (u64 \<times> request) list" where
  "block_posts L s t =
     post t (RelayBlockRequest (ucast (server_id s)) (map (Block_to_bytes L) (relayed_blocks s t)))
       (map (Block_to_bytes L) (relayed_blocks s t))"

definition commit_posts :: "'r flexlib \<Rightarrow> (u64 \<Rightarrow> u64) \<Rightarrow> server \<Rightarrow> u64 \<Rightarrow> (u64 \<times> request) list" where
  "commit_posts L clk s t =
     post t (SPBcastCommitRequest (ucast (server_id s)) (map (Block_to_bytes L) (committed_posts s t)) (clk t))
       (map (Block_to_bytes L) (committed_posts s t))"

abbreviation ready :: "u64 \<Rightarrow> server \<Rightarrow> bool" where
  "ready t s \<equiv> server_wf s \<and> linked [t] s"

lemma ready_all: "server_wf s \<Longrightarrow> linked ts s \<Longrightarrow> \<forall>t \<in> set ts. ready t s"
  by (simp add: linked_def)

lemmas posts_defs = vote_posts_def block_posts_def commit_posts_def relayed_blocks_def
  committed_posts_def post_def

lemma sender_runs:
  assumes "ready t s"
  shows "RelayVote L t s = (None, s\<lparr>relay_votes := AList.update t [] (relay_votes s),
      outbox := outbox s @ vote_posts L s t\<rparr>)"
    and "RelayBlock L t s = (None, s\<lparr>relay_blocks := AList.update t [] (relay_blocks s),
      pb_sync_queue := pb_sync_queue s @ map block_id (relayed_blocks s t),
      outbox := outbox s @ block_posts L s t\<rparr>)"
    and "SPBcastCommit L (clk t) t s = (None, s\<lparr>bcast_commit_blocks := AList.update t [] (bcast_commit_blocks s),
      outbox := outbox s @ commit_posts L clk s t\<rparr>)"
proof -
  obtain qv qb qc where "map_of (relay_votes s) t = Some qv" "map_of (relay_blocks s) t = Some qb"
    "map_of (bcast_commit_blocks s) t = Some qc" "map_of (peer_stubs s) t \<noteq> None"
    using assms by (auto simp: linked_def)
  with assms RelayVote_effect [of s t qv L] RelayBlock_effect [of s t qb _ L] SPBcastCommit_effect [of s t qc _ L "clk t"]
  show "RelayVote L t s = (None, s\<lparr>relay_votes := AList.update t [] (relay_votes s),
      outbox := outbox s @ vote_posts L s t\<rparr>)"
    and "RelayBlock L t s = (None, s\<lparr>relay_blocks := AList.update t [] (relay_blocks s),
      pb_sync_queue := pb_sync_queue s @ map block_id (relayed_blocks s t),
      outbox := outbox s @ block_posts L s t\<rparr>)"
    and "SPBcastCommit L (clk t) t s = (None, s\<lparr>bcast_commit_blocks := AList.update t [] (bcast_commit_blocks s),
      outbox := outbox s @ commit_posts L clk s t\<rparr>)"
    by (simp_all add: posts_defs)
qed

lemma posts_after:
  "vote_posts L (s\<lparr>relay_votes := AList.update t [] (relay_votes s), outbox := x\<rparr>) u =
     (if u = t then [] else vote_posts L s u)"
  "block_posts L (s\<lparr>relay_blocks := AList.update t [] (relay_blocks s), pb_sync_queue := y, outbox := x\<rparr>) u =
     (if u = t then [] else block_posts L s u)"
  "relayed_blocks (s\<lparr>relay_blocks := AList.update t [] (relay_blocks s), pb_sync_queue := y, outbox := x\<rparr>) u =
     (if u = t then [] else relayed_blocks s u)"
  "commit_posts L clk (s\<lparr>bcast_commit_blocks := AList.update t [] (bcast_commit_blocks s), outbox := x\<rparr>) u =
     (if u = t then [] else commit_posts L clk s u)"
  by (simp_all add: posts_defs update_conv')

lemma ready_after:
  assumes "ready u s"
  shows "ready u (s\<lparr>relay_votes := AList.update t [] (relay_votes s), outbox := x\<rparr>)"
    and "ready u (s\<lparr>relay_blocks := AList.update t [] (relay_blocks s), pb_sync_queue := y, outbox := x\<rparr>)"
    and "ready u (s\<lparr>bcast_commit_blocks := AList.update t [] (bcast_commit_blocks s), outbox := x\<rparr>)"
  using assms by (simp_all add: server_wf_drained linked_drained)

interpretation vote_sender: peer_sender "RelayVote L" outbox "vote_posts L" ready
  "\<lambda>s. s\<lparr>relay_votes := [], outbox := []\<rparr>" for L :: "'r flexlib"
  by unfold_locales (simp_all only: sender_runs(1) fst_conv snd_conv posts_after ready_after, simp_all)

interpretation block_sender: peer_sender "RelayBlock L" outbox "block_posts L" ready
  "\<lambda>s. s\<lparr>relay_blocks := [], pb_sync_queue := [], outbox := []\<rparr>" for L :: "'r flexlib"
  by unfold_locales (simp_all only: sender_runs(2) fst_conv snd_conv posts_after ready_after, simp_all)

interpretation sync_sender: peer_sender "RelayBlock L" pb_sync_queue
  "\<lambda>s t. map block_id (relayed_blocks s t)" ready
  "\<lambda>s. s\<lparr>relay_blocks := [], pb_sync_queue := [], outbox := []\<rparr>" for L :: "'r flexlib"
  by unfold_locales (simp_all only: sender_runs(2) fst_conv snd_conv posts_after ready_after, simp_all)

interpretation commit_sender: peer_sender "\<lambda>t. SPBcastCommit L (clk t) t" outbox "commit_posts L clk" ready
  "\<lambda>s. s\<lparr>bcast_commit_blocks := [], outbox := []\<rparr>" for L :: "'r flexlib" and clk :: "u64 \<Rightarrow> u64"
  by unfold_locales (simp_all only: sender_runs(3) fst_conv snd_conv posts_after ready_after, simp_all)

subsection \<open>Effect of the loops\<close>

lemma relay_rest:
  assumes "s'\<lparr>relay_blocks := [], pb_sync_queue := [], outbox := []\<rparr> =
    s\<lparr>relay_blocks := [], pb_sync_queue := [], outbox := []\<rparr>"
  shows "server_id s' = server_id s" "pb_sync_labels s' = pb_sync_labels s" "heap s' = heap s"
    "pending_blks s' = pending_blks s"
  using arg_cong [OF assms, of server_id] arg_cong [OF assms, of pb_sync_labels]
    arg_cong [OF assms, of heap] arg_cong [OF assms, of pending_blks]
  by simp_all

lemma linked_ready: "server_wf s \<Longrightarrow> linked ts s \<longleftrightarrow> (\<forall>t \<in> set ts. ready t s)"
  by (simp add: linked_def)

lemma send_relay_blocks_effect:
  assumes "server_wf s" and "linked (peers_of C s) s"
    and "ks = pb_sync_queue s @ concat (map (\<lambda>t. map block_id (relayed_blocks s t)) (peers_of C s))"
  shows "\<exists>s'. send_relay_blocks L C s = (None, s')
    \<and> outbox s' = outbox s @ concat (map (block_posts L s) (peers_of C s))
        @ signals (ucast (server_id s)) (peers_of C s) ks
    \<and> pb_sync_labels s' = pb_sync_labels s \<union> set ks \<and> pb_sync_queue s' = []
    \<and> heap s' = heap s \<and> pending_blks s' = pending_blks s
    \<and> (\<forall>t \<in> set (peers_of C s). relayed_blocks s' t = [])"
proof -
  note all = ready_all [OF assms(1,2)]
  from block_sender.send_all [OF all distinct_peer_ids, of L] obtain s1 where
    run: "foreach (RelayBlock L) (peers_of C s) s = (None, s1)"
    and ob: "outbox s1 = outbox s @ concat (map (block_posts L s) (peers_of C s))"
    and rest: "s1\<lparr>relay_blocks := [], pb_sync_queue := [], outbox := []\<rparr> =
      s\<lparr>relay_blocks := [], pb_sync_queue := [], outbox := []\<rparr>"
    and rdy: "\<forall>u. ready u s \<longrightarrow> ready u s1" by blast
  from sync_sender.send_all [OF all distinct_peer_ids, of L] run
  have q: "pb_sync_queue s1 = ks"
    and "\<forall>u. map block_id (relayed_blocks s1 u) =
      (if u \<in> set (peers_of C s) then [] else map block_id (relayed_blocks s u))"
    by (auto simp: assms(3))
  then have empty: "\<forall>t \<in> set (peers_of C s). relayed_blocks s1 t = []"
    by (metis map_is_Nil_conv)
  note same = relay_rest [OF rest]
  have "linked (peers_of C s1) s1" using rdy all by (auto simp: linked_def same(1))
  from drain_sync_effect [OF this] run q same ob have
    "send_relay_blocks L C s = (None, s1\<lparr>pb_sync_queue := [], pb_sync_labels := pb_sync_labels s \<union> set ks,
      outbox := (outbox s @ concat (map (block_posts L s) (peers_of C s)))
        @ signals (ucast (server_id s)) (peers_of C s) ks\<rparr>)"
    by (simp add: send_relay_blocks_def)
  then show ?thesis using same empty by (simp add: relayed_blocks_def)
qed

lemma relay_block_loop:
  assumes "server_wf r" and "\<forall>b \<in> set bs. Block_ok b"
  shows "\<exists>r'. foreach relay_block_one bs r = (None, r') \<and> server_wf r' \<and> heap r' = heap r @ bs
    \<and> map_of (pending_blks r') = map_of (pending_blks r) ++
        map_of (rev (zip (map block_id bs) [length (heap r)..<length (heap r) + length bs]))"
  using assms
proof (induction bs arbitrary: r)
  case Nil
  then show ?case by simp
next
  case (Cons b bs)
  let ?r1 = "snd (relay_block_one b r)"
  have wf1: "server_wf ?r1" using Cons.prems by (intro server_wf_relay_block_one) simp_all
  with Cons.IH [of ?r1] Cons.prems(2) obtain r' where
    r': "foreach relay_block_one bs ?r1 = (None, r')" "server_wf r'" "heap r' = heap ?r1 @ bs"
    "map_of (pending_blks r') = map_of (pending_blks ?r1) ++
        map_of (rev (zip (map block_id bs) [length (heap ?r1)..<length (heap ?r1) + length bs]))"
    by auto
  have ok: "chm_ok (pending_blks r)" using Cons.prems(1) by (simp add: server_wf_def)
  have "[length (heap r)..<length (heap r) + length (b # bs)] =
      length (heap r) # [Suc (length (heap r))..<Suc (length (heap r)) + length bs]"
    by (simp add: upt_rec)
  moreover have "map_of (pending_blks ?r1) = (map_of (pending_blks r))(block_id b \<mapsto> length (heap r))"
    using ok by (simp add: relay_block_one_effect chm.lookup_assign)
  ultimately have "map_of (pending_blks r') = map_of (pending_blks r) ++
        map_of (rev (zip (map block_id (b # bs)) [length (heap r)..<length (heap r) + length (b # bs)]))"
    using r'(4) by (simp add: relay_block_one_effect map_add_assoc [symmetric])
  moreover have "foreach relay_block_one (b # bs) r = foreach relay_block_one bs ?r1"
    by (simp add: relay_block_one_effect [of b])
  ultimately show ?case using r'(1-3) by (intro exI [of _ r']) (simp add: relay_block_one_effect [of b])
qed

abbreviation commit_all ::
  "'r flexlib \<Rightarrow> conf \<Rightarrow> (nat \<Rightarrow> u64) \<Rightarrow> nat \<Rightarrow> Block list \<Rightarrow> server \<Rightarrow> server outcome" where
  "commit_all L C clk n bs r \<equiv> foreach (\<lambda>(j, x). commit_one L C clk j x) (enumerate n bs) r"

definition same_block :: "Block \<Rightarrow> Block \<Rightarrow> bool" where
  "same_block b c \<longleftrightarrow> block_id c = block_id b \<and> hdr_base_id (header c) = hdr_base_id (header b) \<and>
     hdr_proposal_ts (header c) = hdr_proposal_ts (header b) \<and>
     hdr_commit_ts (header c) = hdr_commit_ts (header b) \<and> tx_vec c = tx_vec b \<and> votes c = votes b"

text \<open>
  What a commit broadcast with the blocks \<open>bs\<close> does to a server: the blocks that were
  pending, and only these, become committed, each as one of the blocks received.
\<close>

definition took :: "Block list \<Rightarrow> server \<Rightarrow> u64 \<Rightarrow> bool" where
  "took bs r' k \<longleftrightarrow> (\<exists>a b. map_of (committed_blks r') k = Some a \<and> a < length (heap r') \<and> b \<in> set bs \<and>
     block_id b = k \<and> same_block b (heap r' ! a))"

definition commits :: "Block list \<Rightarrow> server \<Rightarrow> server \<Rightarrow> bool" where
  "commits bs r r' \<longleftrightarrow> server_wf r' \<and> (\<exists>hs. heap r' = heap r @ hs)
     \<and> (\<forall>k. map_of (pending_blks r') k = (if k \<in> block_id ` set bs then None else map_of (pending_blks r) k))
     \<and> (\<forall>k. if k \<in> block_id ` set bs \<and> map_of (pending_blks r) k \<noteq> None then took bs r' k
             else map_of (committed_blks r') k = map_of (committed_blks r) k)"

lemma took_mono: "took bs r k \<Longrightarrow> set bs \<subseteq> set cs \<Longrightarrow> took cs r k"
  unfolding took_def by blast

lemma commits_skip:
  assumes "map_of (pending_blks r) (block_id b) = None" and "commits bs r r'"
  shows "commits (b # bs) r r'"
proof -
  have pend: "map_of (pending_blks r') k = (if k \<in> block_id ` set bs then None else map_of (pending_blks r) k)"
    and com: "if k \<in> block_id ` set bs \<and> map_of (pending_blks r) k \<noteq> None then took bs r' k
      else map_of (committed_blks r') k = map_of (committed_blks r) k" for k
    using assms(2) unfolding commits_def by blast+
  have "if k \<in> block_id ` set (b # bs) \<and> map_of (pending_blks r) k \<noteq> None then took (b # bs) r' k
      else map_of (committed_blks r') k = map_of (committed_blks r) k" for k
    using com [of k] assms(1) took_mono [of bs r' k "b # bs"]
    by (cases "k = block_id b") (auto split: if_splits)
  then show ?thesis using assms pend by (simp add: commits_def)
qed

lemma commits_take:
  assumes "server_wf r" and "map_of (pending_blks r) (block_id b) = Some x"
    and "commits bs (snd (commit_one L C clk n b r)) r'"
  shows "commits (b # bs) r r'"
proof -
  let ?r1 = "snd (commit_one L C clk n b r)"
  have ok: "chm_ok (pending_blks r)" "chm_ok (committed_blks r)"
    using assms(1) by (simp_all add: server_wf_def)
  have p1: "map_of (pending_blks ?r1) = (map_of (pending_blks r))(block_id b := None)"
    and c1: "map_of (committed_blks ?r1) = (map_of (committed_blks r))(block_id b \<mapsto> length (heap r))"
    and h1: "heap ?r1 = heap r @ [received (clk n) b]"
    using assms(2) ok by (simp_all add: commit_one_effect chm.lookup_erase chm.lookup_assign)
  obtain hs where wf: "server_wf r'" and hp: "heap r' = heap ?r1 @ hs"
    and pend: "\<And>k. map_of (pending_blks r') k =
      (if k \<in> block_id ` set bs then None else map_of (pending_blks ?r1) k)"
    and com: "\<And>k. if k \<in> block_id ` set bs \<and> map_of (pending_blks ?r1) k \<noteq> None then took bs r' k
             else map_of (committed_blks r') k = map_of (committed_blks ?r1) k"
    using assms(3) unfolding commits_def by blast
  have "map_of (committed_blks r') (block_id b) = Some (length (heap r))"
    using com [of "block_id b"] by (simp add: p1 c1)
  then have b: "took (b # bs) r' (block_id b)"
    unfolding took_def using hp h1 by (intro exI [of _ "length (heap r)"] exI [of _ b]) (simp add: same_block_def)
  have "if k \<in> block_id ` set (b # bs) \<and> map_of (pending_blks r) k \<noteq> None then took (b # bs) r' k
             else map_of (committed_blks r') k = map_of (committed_blks r) k" for k
    using com [of k] b took_mono [of bs r' k "b # bs"] assms(2)
    by (cases "k = block_id b") (auto simp: p1 c1 split: if_splits)
  with wf hp h1 pend p1 show ?thesis by (simp add: commits_def)
qed

lemma commit_loop:
  assumes "server_wf r" and "\<forall>b \<in> set bs. Block_ok b"
  shows "\<exists>r'. commit_all L C clk n bs r = (None, r') \<and> commits bs r r'"
  using assms
proof (induction bs arbitrary: r n)
  case Nil
  then show ?case by (intro exI [of _ r]) (simp add: commits_def)
next
  case (Cons b bs)
  obtain r1 where r1: "commit_one L C clk n b r = (None, r1)"
    by (cases "map_of (pending_blks r) (block_id b)") (auto simp: commit_one_effect)
  have "server_wf r1" using server_wf_commit_one [of r b L C clk n] Cons.prems r1 by simp
  with Cons.IH [of r1 "Suc n"] Cons.prems(2) obtain r' where
    r': "commit_all L C clk (Suc n) bs r1 = (None, r')" "commits bs r1 r'" by auto
  have "commits (b # bs) r r'"
  proof (cases "map_of (pending_blks r) (block_id b)")
    case None
    with r1 have "r1 = r" by (simp add: commit_one_effect)
    with None r'(2) show ?thesis by (simp add: commits_skip)
  next
    case (Some x)
    then show ?thesis
      using r'(2) r1 by (intro commits_take [OF Cons.prems(1) Some, of bs L C clk n]) simp
  qed
  with r1 r'(1) show ?case by (intro exI [of _ r']) simp
qed

lemma handle_block_post:
  assumes "flexlib_spec L" and "\<forall>b \<in> set bs. sendable B b"
  shows "handle_peer B L C clk (RelayBlockRequest i (map (Block_to_bytes L) bs)) r =
      foreach relay_block_one (map (\<lambda>b. b\<lparr>tss_sig := None\<rparr>) bs) r"
    and "handle_peer B L C clk (SPBcastCommitRequest i (map (Block_to_bytes L) bs) ts) r =
      commit_all L C clk 0 (map (\<lambda>b. b\<lparr>tss_sig := None\<rparr>) bs) r"
proof -
  show "handle_peer B L C clk (RelayBlockRequest i (map (Block_to_bytes L) bs)) r =
      foreach relay_block_one (map (\<lambda>b. b\<lparr>tss_sig := None\<rparr>) bs) r"
    using block_wire.decode_each_written [OF assms] by (simp add: handle_peer_def RelayBlock_handler_def)
  have "enumerate 0 (map f bs) = map (\<lambda>(j, x). (j, f x)) (enumerate 0 bs)" for f :: "Block \<Rightarrow> Block"
    by (simp add: enumerate_eq_zip zip_map2)
  then show "handle_peer B L C clk (SPBcastCommitRequest i (map (Block_to_bytes L) bs) ts) r =
      commit_all L C clk 0 (map (\<lambda>b. b\<lparr>tss_sig := None\<rparr>) bs) r"
    using block_wire.decode_each_at_written [OF assms]
    by (simp add: handle_peer_def SPBcastCommit_handler_def foreach_map case_prod_beta')
qed

lemma sendable_stripped_ok: "\<forall>b \<in> set bs. sendable B b \<Longrightarrow> \<forall>b \<in> set (map (\<lambda>b. b\<lparr>tss_sig := None\<rparr>) bs). Block_ok b"
  by (simp add: sendable_def block_shares_ok_def)

lemma same_block_stripped: "same_block (b\<lparr>tss_sig := g\<rparr>) c = same_block b c"
  by (simp add: same_block_def)

lemma SPHeartbeat_loop:
  assumes "linked ts s" and "distinct ts" and "\<forall>t \<in> set ts. 1 \<le> t \<and> unat t \<le> length (peer_status s)"
  shows "\<exists>s'. foreach (\<lambda>t. SPHeartbeat (ok t) t) ts s = (None, s')
    \<and> length (peer_status s') = length (peer_status s)
    \<and> (\<forall>t. 1 \<le> t \<longrightarrow> unat t \<le> length (peer_status s) \<longrightarrow>
         peer_status s' ! (unat t - 1) = (if t \<in> set ts then ok t else peer_status s ! (unat t - 1)))"
  using assms
proof (induction ts arbitrary: s)
  case Nil
  then show ?case by simp
next
  case (Cons t ts)
  let ?s1 = "s\<lparr>outbox := outbox s @ [(t, SPHeartbeatRequest (ucast (server_id s)))],
      peer_status := (peer_status s)[unat t - 1 := ok t]\<rparr>"
  have t: "1 \<le> t" "unat t \<le> length (peer_status s)" using Cons.prems(3) by simp_all
  have pos: "1 \<le> unat u" if "1 \<le> u" for u :: u64 using that by (simp add: word_le_nat_alt)
  have "unat (t - 1) = unat t - 1" using t(1) by (metis unat_minus_one word_le_nat_alt unat_1 unat_0 not_one_le_zero)
  moreover have "unat t - 1 < length (peer_status s)" using t pos by fastforce
  moreover have "map_of (peer_stubs s) t \<noteq> None" using Cons.prems(1) by (simp add: linked_def)
  ultimately have step: "SPHeartbeat (ok t) t s = (None, ?s1)"
    by (simp add: SPHeartbeat_def call_peer_stub Let_def)
  have "linked ts ?s1" using linked_tl [OF Cons.prems(1)] by (simp add: linked_def)
  with Cons.IH [of ?s1] Cons.prems(2,3) obtain s' where
    run: "foreach (\<lambda>t. SPHeartbeat (ok t) t) ts ?s1 = (None, s')" "length (peer_status s') = length (peer_status s)"
    and st: "\<forall>u. 1 \<le> u \<longrightarrow> unat u \<le> length (peer_status s) \<longrightarrow>
      peer_status s' ! (unat u - 1) = (if u \<in> set ts then ok u else (peer_status s)[unat t - 1 := ok t] ! (unat u - 1))"
    by auto
  have "peer_status s' ! (unat u - 1) = (if u \<in> set (t # ts) then ok u else peer_status s ! (unat u - 1))"
    if u: "1 \<le> u" "unat u \<le> length (peer_status s)" for u
  proof (cases "u = t")
    case True
    then show ?thesis using st u Cons.prems(2) pos [OF u(1)] by auto
  next
    case False
    then have "unat u - 1 \<noteq> unat t - 1" using pos [OF u(1)] pos [OF t(1)] by (simp add: word_unat_eq_iff)
    with False st u show ?thesis by simp
  qed
  with run step show ?case by (intro exI [of _ s']) simp
qed

subsection \<open>A sample server\<close>

definition peer_server :: server where
  "peer_server = new_server
     \<lparr>server_id := 2, heap := [sample_block], peer_stubs := [(1, ''a'')], peer_status := [False, False],
      relay_votes := [(1, [sample_vote 7 1])], relay_blocks := [(1, [0])],
      bcast_commit_blocks := [(1, [0])]\<rparr>"

lemma peer_server_wf: "server_wf peer_server"
  by (simp add: peer_server_def new_server_def server_wf_def keyed_def queues_valid_def sample_block_facts)

lemma peer_ids_2: "peer_ids 2 2 = [1]"
  by (simp add: peer_ids_def server_ids_def upt_rec)

lemma peer_server_peers: "peers_of (sample_conf 2) peer_server = [1]"
  by (simp add: peer_ids_2 peer_server_def)

lemma peer_server_linked: "linked (peers_of (sample_conf 2) peer_server) peer_server"
  unfolding peer_server_peers by (simp add: linked_def peer_server_def)

subsection \<open>Properties\<close>

text \<open>
  C27: \<open>send_relay_votes\<close> empties the vote queue of every peer, and for every peer whose
  queue was not empty sends one request; the receiving server then processes exactly the
  queued votes, in their order. No request goes to a peer without queued votes.
\<close>

theorem send_relay_votes_delivers:
  assumes "flexlib_spec L" and "server_wf s" and "linked (peers_of C s) s"
    and "\<forall>t q. map_of (relay_votes s) t = Some q \<longrightarrow> (\<forall>v \<in> set q. vote_ok B v)"
  shows "\<exists>s' sent. send_relay_votes L C s = (None, s') \<and> outbox s' = outbox s @ sent
    \<and> map fst sent = filter (\<lambda>t. map_of (relay_votes s) t \<noteq> Some []) (peers_of C s)
    \<and> (\<forall>t req. (t, req) \<in> set sent \<longrightarrow>
         (\<forall>C' clk r. handle_peer B L C' clk req r = foreach (relay_vote_one C') (the (map_of (relay_votes s) t)) r))
    \<and> (\<forall>t \<in> set (peers_of C s). vote_posts L s' t = [])"
proof -
  let ?sent = "concat (map (vote_posts L s) (peers_of C s))"
  obtain s' where run: "send_relay_votes L C s = (None, s')" "outbox s' = outbox s @ ?sent"
    "\<forall>t \<in> set (peers_of C s). vote_posts L s' t = []"
    using vote_sender.send_all [OF ready_all [OF assms(2,3)] distinct_peer_ids, of L]
    by (auto simp: send_relay_votes_def)
  have queue: "\<exists>q. map_of (relay_votes s) t = Some q" if "t \<in> set (peers_of C s)" for t
    using that assms(3) by (auto simp: linked_def)
  have "map fst (concat (map (vote_posts L s) ts)) = filter (\<lambda>t. map_of (relay_votes s) t \<noteq> Some []) ts"
    if "set ts \<subseteq> set (peers_of C s)" for ts
    using that
  proof (induction ts)
    case (Cons t ts)
    then show ?case using queue [of t] by (auto simp: posts_defs)
  qed simp
  moreover have "handle_peer B L C' clk req r = foreach (relay_vote_one C') (the (map_of (relay_votes s) t)) r"
    if "(t, req) \<in> set ?sent" for t req C' clk r
  proof -
    from that have t: "t \<in> set (peers_of C s)" and req: "req = RelayVoteRequest (ucast (server_id s))
        (map (BlockVote_to_bytes L) (the (map_of (relay_votes s) t)))"
      by (auto simp: posts_defs split: if_splits)
    obtain q where "map_of (relay_votes s) t = Some q" using queue [OF t] by blast
    with assms(4) vote_wire.decode_each_written [OF assms(1), of q B] req show ?thesis
      by (simp add: handle_peer_def RelayVote_handler_def)
  qed
  ultimately show ?thesis using run by blast
qed

theorem send_relay_votes_delivers_witness:
  "\<exists>s' req. send_relay_votes ref_flex (sample_conf 2) peer_server = (None, s') \<and> outbox s' = [(1, req)]
    \<and> (\<forall>C' clk r. handle_peer ref_bls ref_flex C' clk req r = foreach (relay_vote_one C') [sample_vote 7 1] r)"
proof -
  have "\<forall>t q. map_of (relay_votes peer_server) t = Some q \<longrightarrow> (\<forall>v \<in> set q. vote_ok ref_bls v)"
    by (simp add: peer_server_def sample_vote_ok)
  from send_relay_votes_delivers [OF ref_flex_spec peer_server_wf peer_server_linked this]
  obtain s' sent where s': "send_relay_votes ref_flex (sample_conf 2) peer_server = (None, s')"
    "outbox s' = outbox peer_server @ sent"
    "map fst sent = filter (\<lambda>t. map_of (relay_votes peer_server) t \<noteq> Some []) [1]"
    and all: "\<forall>t req. (t, req) \<in> set sent \<longrightarrow> (\<forall>C' clk r. handle_peer ref_bls ref_flex C' clk req r =
           foreach (relay_vote_one C') (the (map_of (relay_votes peer_server) t)) r)"
    unfolding peer_server_peers by auto
  have q: "map_of (relay_votes peer_server) 1 = Some [sample_vote 7 1]" and "outbox peer_server = []"
    by (simp_all add: peer_server_def new_server_def)
  with s'(2,3) obtain req where "sent = [(1, req)]" "outbox s' = [(1, req)]" by (cases sent) auto
  with s'(1) all q show ?thesis by auto
qed



text \<open>
  Relayed blocks arrive: the receiver files every block of the request under its
  number, with header, transactions and votes as sent, and no other pending entry changes.
\<close>

theorem RelayBlock_handler_stores:
  assumes "flexlib_spec L" and "server_wf r" and "\<forall>b \<in> set bs. sendable B b"
  shows "\<exists>r'. handle_peer B L C clk (RelayBlockRequest i (map (Block_to_bytes L) bs)) r = (None, r') \<and> server_wf r'
    \<and> (\<forall>k. k \<notin> block_id ` set bs \<longrightarrow> map_of (pending_blks r') k = map_of (pending_blks r) k)
    \<and> (\<forall>k \<in> block_id ` set bs. \<exists>a b. map_of (pending_blks r') k = Some a \<and> b \<in> set bs \<and> block_id b = k
         \<and> heap r' ! a = b\<lparr>tss_sig := None\<rparr>)"
proof -
  let ?bs = "map (\<lambda>b. b\<lparr>tss_sig := None\<rparr>) bs" and ?n = "length (heap r)"
  let ?new = "map_of (rev (zip (map block_id bs) [?n..<?n + length bs]))"
  obtain r' where run: "foreach relay_block_one ?bs r = (None, r')" "server_wf r'"
    and hp: "heap r' = heap r @ ?bs" and pend: "map_of (pending_blks r') = map_of (pending_blks r) ++ ?new"
    using relay_block_loop [OF assms(2) sendable_stripped_ok [OF assms(3)]] by (auto simp: comp_def)
  have dom: "dom ?new = block_id ` set bs"
    by (simp only: dom_map_of_conv_image_fst set_rev set_map [symmetric] map_fst_zip length_map length_upt
        add_diff_cancel_left')
  have "\<exists>a b. map_of (pending_blks r') k = Some a \<and> b \<in> set bs \<and> block_id b = k \<and> heap r' ! a = b\<lparr>tss_sig := None\<rparr>"
    if "k \<in> block_id ` set bs" for k
  proof -
    have "k \<in> dom ?new" unfolding dom by (rule that)
    then obtain a where a: "?new k = Some a" using domD by fast
    then obtain j where j: "j < length bs" "k = block_id (bs ! j)" "a = ?n + j"
      by (auto dest!: map_of_SomeD simp: in_set_zip)
    with a show ?thesis
      by (intro exI [of _ a] exI [of _ "bs ! j"]) (simp add: pend hp nth_append)
  qed
  moreover have "map_of (pending_blks r') k = map_of (pending_blks r) k" if "k \<notin> block_id ` set bs" for k
    using that dom by (auto simp: pend map_add_def split: option.split)
  ultimately show ?thesis
    using run by (auto simp: handle_block_post(1) [OF assms(1,3)])
qed

theorem RelayBlock_handler_stores_witness:
  "\<exists>r' a. handle_peer ref_bls ref_flex (sample_conf 1) (\<lambda>j. 0) (RelayBlockRequest 2 [Block_to_bytes ref_flex sample_block]) new_server
     = (None, r') \<and> map_of (pending_blks r') 7 = Some a \<and> tx_vec (heap r' ! a) = tx_vec sample_block"
proof -
  have "\<forall>b \<in> set [sample_block]. sendable ref_bls b" by (simp add: sample_block_sendable)
  from RelayBlock_handler_stores [OF ref_flex_spec server_wf_new this, of "sample_conf 1" "\<lambda>j. 0" 2]
  show ?thesis by (auto simp: sample_block_facts)
qed

text \<open>
  C29: a commit broadcast commits exactly the blocks of the request that are pending at the
  receiver: each moves from the pending to the committed map with the transactions, votes
  and commit time it was sent with; other committed entries stay, and blocks that are not
  pending are ignored.
\<close>

theorem SPBcastCommit_handler_commits:
  assumes "flexlib_spec L" and "server_wf r" and "\<forall>b \<in> set bs. sendable B b"
  shows "\<exists>r'. handle_peer B L C clk (SPBcastCommitRequest i (map (Block_to_bytes L) bs) ts) r = (None, r') \<and> server_wf r'
    \<and> (\<forall>k. map_of (pending_blks r') k = (if k \<in> block_id ` set bs then None else map_of (pending_blks r) k))
    \<and> (\<forall>k. k \<notin> block_id ` set bs \<or> map_of (pending_blks r) k = None \<longrightarrow>
         map_of (committed_blks r') k = map_of (committed_blks r) k)
    \<and> (\<forall>k \<in> block_id ` set bs. map_of (pending_blks r) k \<noteq> None \<longrightarrow>
         (\<exists>a b. map_of (committed_blks r') k = Some a \<and> b \<in> set bs \<and> block_id b = k \<and> same_block b (heap r' ! a)))"
proof -
  let ?bs = "map (\<lambda>b. b\<lparr>tss_sig := None\<rparr>) bs"
  have ids: "block_id ` set ?bs = block_id ` set bs" by (simp add: image_image)
  obtain r' where run: "commit_all L C clk 0 ?bs r = (None, r')" and c: "commits ?bs r r'"
    using commit_loop [OF assms(2) sendable_stripped_ok [OF assms(3)]] by blast
  have com: "if k \<in> block_id ` set bs \<and> map_of (pending_blks r) k \<noteq> None then took ?bs r' k
      else map_of (committed_blks r') k = map_of (committed_blks r) k" for k
    using c unfolding commits_def ids by blast
  have "\<exists>a b. map_of (committed_blks r') k = Some a \<and> b \<in> set bs \<and> block_id b = k \<and> same_block b (heap r' ! a)"
    if "k \<in> block_id ` set bs" "map_of (pending_blks r) k \<noteq> None" for k
    using that com [of k] by (auto simp: took_def same_block_stripped)
  moreover have "map_of (committed_blks r') k = map_of (committed_blks r) k"
    if "k \<notin> block_id ` set bs \<or> map_of (pending_blks r) k = None" for k
    using that com [of k] by (auto split: if_splits)
  moreover have "map_of (pending_blks r') k = (if k \<in> block_id ` set bs then None else map_of (pending_blks r) k)" for k
    using c unfolding commits_def ids by blast
  moreover have "server_wf r'" using c by (simp add: commits_def)
  ultimately show ?thesis
    unfolding handle_block_post(2) [OF assms(1,3)] run by blast
qed

theorem SPBcastCommit_handler_commits_witness:
  "\<exists>r' a. handle_peer ref_bls ref_flex (sample_conf 1) (\<lambda>j. 0)
      (SPBcastCommitRequest 2 [Block_to_bytes ref_flex sample_block] 9) pending_server = (None, r')
     \<and> map_of (pending_blks r') 7 = None \<and> map_of (committed_blks r') 7 = Some a
     \<and> votes (heap r' ! a) = votes sample_block"
proof -
  have "\<forall>b \<in> set [sample_block]. sendable ref_bls b" by (simp add: sample_block_sendable)
  from SPBcastCommit_handler_commits [OF ref_flex_spec pending_server_wf this, of "sample_conf 1" "\<lambda>j. 0" 2 9]
  have "\<exists>r'. handle_peer ref_bls ref_flex (sample_conf 1) (\<lambda>j. 0)
      (SPBcastCommitRequest 2 [Block_to_bytes ref_flex sample_block] 9) pending_server = (None, r')
     \<and> map_of (pending_blks r') 7 = None
     \<and> (map_of (pending_blks pending_server) 7 \<noteq> None \<longrightarrow>
         (\<exists>a. map_of (committed_blks r') 7 = Some a \<and> same_block sample_block (heap r' ! a)))"
    by (auto simp: sample_block_facts)
  moreover have "map_of (pending_blks pending_server) 7 \<noteq> None" by (simp add: pending_server_def)
  ultimately show ?thesis unfolding same_block_def by blast
qed

text \<open>
  A round of heartbeats records, for every peer, whether its call succeeded; no index
  is out of range, and the entry of the server itself stays.
\<close>

theorem send_heartbeats_status:
  assumes "linked (peers_of C s) s" and "length (peer_status s) = unat (cf_server_count C)"
  shows "\<exists>s'. send_heartbeats C ok s = (None, s') \<and> length (peer_status s') = length (peer_status s)
    \<and> (\<forall>t \<in> {1..cf_server_count C}. peer_status s' ! (unat t - 1) =
         (if t = server_id s then peer_status s ! (unat t - 1) else ok t))"
proof -
  have "\<forall>t \<in> set (peers_of C s). 1 \<le> t \<and> unat t \<le> length (peer_status s)"
    using assms(2) by (auto simp: set_peer_ids word_le_nat_alt)
  from SPHeartbeat_loop [OF assms(1) distinct_peer_ids this, of ok] show ?thesis
    using assms(2) by (auto simp: send_heartbeats_def set_peer_ids word_le_nat_alt)
qed

theorem send_heartbeats_status_witness:
  "\<exists>s'. send_heartbeats (sample_conf 2) (\<lambda>t. True) peer_server = (None, s') \<and> peer_status s' ! 0 = True"
proof -
  have "length (peer_status peer_server) = unat (cf_server_count (sample_conf 2))"
    by (simp add: peer_server_def)
  from send_heartbeats_status [OF peer_server_linked this, of "\<lambda>t. True"] show ?thesis
    by (fastforce simp: peer_server_def dest!: bspec [of _ _ 1])
qed

end
