(* ===== verification/TC_Invariant.thy ===== *)
theory TC_Invariant
  imports TC_PeerGrpc
begin

text \<open>
  The safety invariant of one server, kept by every operation of the previous theories.

  \<open>core\<close> is the part of a block that never changes: its number, base, proposal time and
  transactions. Relative to a set \<open>P\<close> of cores (those of the blocks that have been packed
  anywhere), \<open>server_inv\<close> says of a well-formed server that every block in its store has
  a core in \<open>P\<close>, that every block that is decided (on the merge queue, committed, or
  queued for broadcast) has at least as many votes as there are clients, and that the same
  holds of every block in a request it has sent.

  Of libBLS this needs that the getters of a signature share return what its constructor
  was given, \<open>bls_ctor_spec\<close>, so that a vote that was read can be written again.
\<close>

subsection \<open>Cores, decided blocks and requests\<close>

definition core :: "Block \<Rightarrow> u64 \<times> u64 \<times> u64 \<times> Transaction list" where
  "core b = (block_id b, hdr_base_id (header b), hdr_proposal_ts (header b), tx_vec b)"

definition bls_ctor_spec :: "'ss blslib \<Rightarrow> bool" where
  "bls_ctor_spec B \<longleftrightarrow> (\<forall>p h i t n s. bls_mk_share B p h i t n = Inr s \<longrightarrow>
     s = \<lparr>ss_point = p, ss_hint = h, ss_signer_index = i, ss_t = t, ss_n = n\<rparr>)"

definition decided :: "server \<Rightarrow> addr set" where
  "decided s = set (pb_merge_queue s) \<union> ran (map_of (committed_blks s)) \<union>
     {a. \<exists>k q. map_of (bcast_commit_blocks s) k = Some q \<and> a \<in> set q}"

definition req_ok :: "'ss blslib \<Rightarrow> 'r flexlib \<Rightarrow> u64 \<Rightarrow> (u64 \<times> u64 \<times> u64 \<times> Transaction list) set \<Rightarrow> request \<Rightarrow> bool" where
  "req_ok B L n P req =
     (case req of
        RelayBlockRequest i bs \<Rightarrow>
          (\<forall>x \<in> set bs. \<forall>b. Block_from_bytes B L x = Inr b \<longrightarrow> core b \<in> P)
      | SPBcastCommitRequest i bs ts \<Rightarrow>
          (\<forall>x \<in> set bs. \<forall>b. Block_from_bytes B L x = Inr b \<longrightarrow> core b \<in> P \<and> is_vote_enough n b)
      | _ \<Rightarrow> True)"

definition server_inv ::
  "'ss blslib \<Rightarrow> 'r flexlib \<Rightarrow> u64 \<Rightarrow> (u64 \<times> u64 \<times> u64 \<times> Transaction list) set \<Rightarrow> u64 \<Rightarrow> server \<Rightarrow> bool" where
  "server_inv B L n P g s \<longleftrightarrow>
     server_wf s \<and> blk_seq_generator s = g \<and>
     (\<forall>b \<in> set (heap s). core b \<in> P \<and> block_shares_ok B b) \<and>
     (\<forall>a \<in> decided s. is_vote_enough n (heap s ! a)) \<and>
     (\<forall>m \<in> set (outbox s). req_ok B L n P (snd m))"

lemma evolves_core: "evolves b b' \<Longrightarrow> core b' = core b"
  by (simp add: evolves_def core_def)

lemma core_simps [simp]:
  "core (b\<lparr>tss_sig := g\<rparr>) = core b"
  "core (Block_add_vote k v b) = core b"
  "core (received now b) = core b"
  by (simp_all add: core_def)

lemma is_vote_enough_simps [simp]:
  "is_vote_enough n (b\<lparr>tss_sig := g\<rparr>) = is_vote_enough n b"
  "is_vote_enough n (b\<lparr>header := h\<rparr>) = is_vote_enough n b"
  by (simp_all add: is_vote_enough_def)

lemma block_shares_ok_simps [simp]:
  "block_shares_ok B (b\<lparr>tss_sig := g\<rparr>) = block_shares_ok B b"
  "block_shares_ok B (b\<lparr>header := h\<rparr>) = block_shares_ok B b"
  by (simp_all add: block_shares_ok_def)

lemma set_omap_insert: "set (omap_insert k v m) \<subseteq> insert (k, v) (set m)"
  by (induction k v m rule: omap_insert.induct) auto

lemma block_shares_ok_add_vote:
  "block_shares_ok B b \<Longrightarrow> vote_ok B v \<Longrightarrow> block_shares_ok B (Block_add_vote k v b)"
  using set_omap_insert [of k v "votes b"]
  by (auto simp: block_shares_ok_def Block_add_vote_def Block_ok_def omap.invar_ins)

lemma decided_valid: "server_wf s \<Longrightarrow> a \<in> decided s \<Longrightarrow> a < length (heap s)"
  by (auto simp: decided_def server_wf_def keyed_def queues_valid_def ran_def)

lemma req_ok_mono: "req_ok B L n P req \<Longrightarrow> P \<subseteq> Q \<Longrightarrow> req_ok B L n Q req"
  by (auto simp: req_ok_def split: request.splits)

lemma server_inv_mono: "server_inv B L n P g s \<Longrightarrow> P \<subseteq> Q \<Longrightarrow> server_inv B L n Q g s"
  unfolding server_inv_def using req_ok_mono by blast

subsection \<open>What is read can be written again\<close>

lemma BlockVote_from_bytes_ok:
  assumes "bls_ctor_spec B" and "BlockVote_from_bytes B L bs = Inr v"
  shows "vote_ok B v"
proof (cases "vote_sig_share v")
  case None
  then show ?thesis by (simp add: vote_ok_def)
next
  case (Some s)
  with assms(2) obtain x where "BLSSigShare_from_bytes B L x = Inr s"
    by (auto simp: BlockVote_from_bytes_def bindr_Inr_iff empty_BlockVote_def Let_def split: if_splits)
  then obtain g h i t n where len: "length g = 96" and mk: "bls_mk_share B g h i t n = Inr s"
    by (auto simp: BLSSigShare_from_bytes_def bindr_Inr_iff assertr_def Let_def split: if_splits)
  with assms(1) have "s = \<lparr>ss_point = g, ss_hint = h, ss_signer_index = i, ss_t = t, ss_n = n\<rparr>"
    unfolding bls_ctor_spec_def by blast
  with Some len mk show ?thesis by (simp add: vote_ok_def share_ok_def)
qed

lemma Block_from_bytes_shares:
  assumes "bls_ctor_spec B" and "Block_from_bytes B L bs = Inr b"
  shows "block_shares_ok B b"
proof -
  obtain m vs where vs: "foldr_res (read_vote B L m) (fb_keys L m) [] = Inr vs" and b: "votes b = vs"
    using assms(2) by (auto simp: Block_from_bytes_def bindr_Inr_iff Let_def empty_Block_def)
  have "omap_ok vs \<and> (\<forall>v \<in> set (map snd vs). vote_ok B v)"
  proof (rule foldr_res_invariant [OF vs])
    fix key ws ws'
    assume IH: "omap_ok ws \<and> (\<forall>v \<in> set (map snd ws). vote_ok B v)"
      and step: "read_vote B L m key ws = Inr ws'"
    then obtain v k where "BlockVote_from_bytes B L (fb_blob L (fb_get L m key)) = Inr v"
      and ws': "ws' = omap_insert k v ws"
      by (auto simp: read_vote_def bindr_Inr_iff)
    then have "vote_ok B v" by (intro BlockVote_from_bytes_ok [OF assms(1)])
    with IH ws' set_omap_insert [of k v ws] show "omap_ok ws' \<and> (\<forall>v \<in> set (map snd ws'). vote_ok B v)"
      by (auto simp: omap.invar_ins)
  qed simp
  with b show ?thesis by (simp add: block_shares_ok_def Block_ok_def)
qed

lemma written_block_read:
  assumes "flexlib_spec L" and "block_shares_ok B b" and "Block_from_bytes B L (Block_to_bytes L b) = Inr b'"
  shows "core b' = core b" and "is_vote_enough n b' = is_vote_enough n b"
  using assms by (auto simp: Block_roundtrip_cases split: if_splits)

subsection \<open>Closure\<close>

text \<open>A step that changes neither the store nor the requests and decides nothing new.\<close>

lemma server_inv_frame:
  assumes "server_inv B L n P g s" and "server_wf s'" and "heap s' = heap s"
    and "blk_seq_generator s' = blk_seq_generator s" and "decided s' \<subseteq> decided s" and "outbox s' = outbox s"
  shows "server_inv B L n P g s'"
  using assms unfolding server_inv_def by auto

lemma server_inv_wf: "server_inv B L n P g s \<Longrightarrow> server_wf s"
  by (simp add: server_inv_def)

text \<open>A new block in the store.\<close>

lemma server_inv_alloc:
  assumes "server_inv B L n P g s" and "server_wf s'" and "heap s' = heap s @ [b]"
    and "core b \<in> P" and "block_shares_ok B b"
    and "blk_seq_generator s' = blk_seq_generator s" and "outbox s' = outbox s"
    and "\<And>a. a \<in> decided s' \<Longrightarrow> a \<in> decided s \<or> a = length (heap s) \<and> is_vote_enough n b"
  shows "server_inv B L n P g s'"
proof -
  have "is_vote_enough n (heap s' ! a)" if "a \<in> decided s'" for a
    using assms(8) [OF that] assms(1) decided_valid [OF server_inv_wf [OF assms(1)]]
    by (auto simp: assms(3) nth_append server_inv_def)
  with assms show ?thesis unfolding server_inv_def by auto
qed

text \<open>A block in the store evolves.\<close>

lemma server_inv_write:
  assumes "server_inv B L n P g s" and "server_wf s'" and "heap s' = (heap s)[a := b]" and "a < length (heap s)"
    and "evolves (heap s ! a) b" and "block_shares_ok B b"
    and "blk_seq_generator s' = blk_seq_generator s" and "outbox s' = outbox s"
    and "\<And>x. x \<in> decided s' \<Longrightarrow> x \<in> decided s \<or> x = a \<and> is_vote_enough n b"
  shows "server_inv B L n P g s'"
proof -
  have old: "is_vote_enough n ((heap s)[a := b] ! x)" if "x \<in> decided s" for x
    using that assms(1,4,5) decided_valid [OF server_inv_wf [OF assms(1)] that]
    by (cases "x = a") (auto simp: server_inv_def intro: evolves_enough)
  have "is_vote_enough n (heap s' ! x)" if "x \<in> decided s'" for x
    using assms(9) [OF that] old assms(4) unfolding assms(3) by auto
  moreover have "core c \<in> P \<and> block_shares_ok B c" if "c \<in> set (heap s')" for c
  proof -
    from that have "c = b \<or> c \<in> set (heap s)"
      unfolding assms(3) using set_update_subset_insert by fastforce
    then show ?thesis
      using assms(1,4,6) evolves_core [OF assms(5)] by (auto simp: server_inv_def)
  qed
  ultimately show ?thesis using assms(1,2,7,8) by (simp add: server_inv_def)
qed

lemma server_inv_outbox:
  "server_inv B L n P g s \<Longrightarrow> \<forall>m \<in> set ms. req_ok B L n P (snd m) \<Longrightarrow>
     server_inv B L n P g (s\<lparr>outbox := outbox s @ ms\<rparr>)"
  by (auto simp: server_inv_def decided_def)

subsection \<open>Votes\<close>

lemma decided_write [simp]: "decided (write_block a b s) = decided s"
  by (simp add: decided_def write_block_def)

lemma write_block_frame [simp]:
  "heap (write_block a b s) = (heap s)[a := b]"
  "blk_seq_generator (write_block a b s) = blk_seq_generator s"
  "outbox (write_block a b s) = outbox s"
  by (simp_all add: write_block_def)

lemma decided_moved: "decided (moved_to_merge a k s) = insert a (decided s)"
  by (auto simp: decided_def push_def)

lemma server_inv_count_vote:
  assumes inv: "server_inv B L (cf_client_count C) P g s" and "vote_ok B v"
  shows "server_inv B L (cf_client_count C) P g (snd (count_vote C i v k s))"
proof (cases "map_of (pending_blks s) k")
  case None
  with inv show ?thesis by (simp add: count_vote_absent)
next
  case (Some a)
  note wf = server_inv_wf [OF inv]
  note blk = server_wf_pending [OF wf Some]
  let ?b = "Block_add_vote i v (heap s ! a)"
  let ?s' = "snd (count_vote C i v k s)"
  have shares: "block_shares_ok B ?b"
    using inv blk assms(2) by (intro block_shares_ok_add_vote) (simp_all add: server_inv_def)
  have s': "?s' = (if is_vote_enough (cf_client_count C) ?b then moved_to_merge a k (write_block a ?b s)
      else write_block a ?b s)"
    using count_vote_pending [OF wf Some, of C i v] by (simp add: Let_def)
  have "heap ?s' = (heap s)[a := ?b]" "blk_seq_generator ?s' = blk_seq_generator s" "outbox ?s' = outbox s"
    by (simp_all add: s')
  moreover have "x \<in> decided s \<or> x = a \<and> is_vote_enough (cf_client_count C) ?b" if "x \<in> decided ?s'" for x
    using that unfolding s' by (auto simp: decided_moved simp del: decided_write split: if_splits)
      (simp_all add: decided_def write_block_def)
  ultimately show ?thesis
    using server_inv_write [OF inv count_vote_ok(2) [OF wf], of C i v k a ?b] blk shares
    by (simp add: evolves_add_vote)
qed

lemma server_inv_relay_votes:
  "server_inv B L n P g (s\<lparr>relay_votes := qs\<rparr>) = server_inv B L n P g s"
  by (simp add: server_inv_def decided_def)

lemma server_inv_vote_one:
  assumes "server_inv B L (cf_client_count C) P g s" and "block_shares_ok B b"
  shows "server_inv B L (cf_client_count C) P g (snd (vote_one C i b s))"
proof -
  have "vote_ok B v" if "map_of (votes b) i = Some v" for v
    using that assms(2) map_of_SomeD [OF that] by (auto simp: block_shares_ok_def)
  with vote_one_shape [of C i b s] assms(1) show ?thesis
    by (auto simp: server_inv_relay_votes intro!: server_inv_count_vote)
qed

lemma server_inv_VoteBlocks:
  assumes "bls_ctor_spec B" and "server_inv B L (cf_client_count C) P g s"
  shows "server_inv B L (cf_client_count C) P g (snd (VoteBlocks B L C i bs s))"
  unfolding VoteBlocks_def using assms(2)
  by (rule decode_each_invariant) (auto intro: server_inv_vote_one Block_from_bytes_shares [OF assms(1)])

subsection \<open>Requests of peers\<close>

lemma server_inv_relay_block_one:
  assumes "server_inv B L n P g s" and "core b \<in> P" and "block_shares_ok B b"
  shows "server_inv B L n P g (snd (relay_block_one b s))"
proof -
  have "server_wf (snd (relay_block_one b s))"
    using server_inv_wf [OF assms(1)] assms(3)
    by (intro server_wf_relay_block_one) (simp_all add: block_shares_ok_def)
  then show ?thesis
    by (rule server_inv_alloc [OF assms(1) _ _ assms(2,3)]) (simp_all add: relay_block_one_effect decided_def)
qed

lemma server_inv_commit_one:
  assumes "server_inv B L n P g s" and "core b \<in> P" and "block_shares_ok B b" and "is_vote_enough n b"
  shows "server_inv B L n P g (snd (commit_one L' C clk j b s))"
proof (cases "map_of (pending_blks s) (block_id b)")
  case None
  with assms(1) show ?thesis by (simp add: commit_one_effect)
next
  case (Some x)
  let ?s' = "snd (commit_one L' C clk j b s)"
  note wf = server_inv_wf [OF assms(1)]
  have wf': "server_wf ?s'"
    using wf assms(3) by (intro server_wf_commit_one) (simp_all add: block_shares_ok_def)
  have "chm_ok (committed_blks s)" using wf by (simp add: server_wf_def)
  then have "a \<in> decided s \<or> a = length (heap s) \<and> is_vote_enough n (received (clk j) b)"
    if "a \<in> decided ?s'" for a
    using that assms(4) Some
    by (auto simp: decided_def commit_one_effect chm.lookup_assign ran_def split: if_splits)
  then show ?thesis
    by (intro server_inv_alloc [OF assms(1) wf', of "received (clk j) b"])
      (use assms Some in \<open>simp_all add: commit_one_effect\<close>)
qed

lemma server_inv_handle_peer:
  assumes ctor: "bls_ctor_spec B" and inv: "server_inv B L (cf_client_count C) P g s"
    and req: "req_ok B L (cf_client_count C) P req"
  shows "server_inv B L (cf_client_count C) P g (snd (handle_peer B L C clk req s))"
proof (cases req)
  case (SPHeartbeatRequest i)
  with inv show ?thesis by (simp add: handle_peer_def SPHeartbeat_handler_def)
next
  case (RelayVoteRequest i vs)
  have "server_inv B L (cf_client_count C) P g (snd (RelayVote_handler B L C vs s))"
    unfolding RelayVote_handler_def using inv
  proof (rule decode_each_invariant)
    fix bs v s1
    assume "BlockVote_from_bytes B L bs = Inr v" and inv1: "server_inv B L (cf_client_count C) P g s1"
    then have "vote_ok B v" by (intro BlockVote_from_bytes_ok [OF ctor])
    with inv1 show "server_inv B L (cf_client_count C) P g (snd (relay_vote_one C v s1))"
      using server_inv_wf [OF inv1] by (auto simp: relay_vote_one_wf intro: server_inv_count_vote)
  qed
  with RelayVoteRequest show ?thesis by (simp add: handle_peer_def)
next
  case (RelayBlockRequest i bs)
  have "server_inv B L (cf_client_count C) P g (snd (RelayBlock_handler B L bs s))"
    unfolding RelayBlock_handler_def using inv
    by (rule decode_each_invariant)
      (use req RelayBlockRequest in \<open>auto simp: req_ok_def intro!: server_inv_relay_block_one
        Block_from_bytes_shares [OF ctor]\<close>)
  with RelayBlockRequest show ?thesis by (simp add: handle_peer_def)
next
  case (SPBcastCommitRequest i bs ts)
  have "server_inv B L (cf_client_count C) P g (snd (SPBcastCommit_handler B L C clk bs s))"
    unfolding SPBcastCommit_handler_def using inv
    by (rule decode_each_at_invariant)
      (use req SPBcastCommitRequest in \<open>auto simp: req_ok_def intro!: server_inv_commit_one
        Block_from_bytes_shares [OF ctor]\<close>)
  with SPBcastCommitRequest show ?thesis by (simp add: handle_peer_def)
next
  case (RelayBlockSyncRequest i k)
  with inv show ?thesis
    by (simp add: handle_peer_def RelayBlockSync_handler_def server_inv_def decided_def)
qed

subsection \<open>Merging, packing and the other operations\<close>

lemma merge_votes_invariant:
  assumes "I s"
    and "\<And>s now a q. I s \<Longrightarrow> pb_merge_queue s = a # q \<Longrightarrow> I (snd (merge_one B L C now a (s\<lparr>pb_merge_queue := q\<rparr>)))"
  shows "I (snd (merge_votes B L C clk s))"
  using assms(1)
proof (induction "length (pb_merge_queue s)" arbitrary: s clk)
  case 0
  then show ?case by (simp add: merge_votes_empty)
next
  case (Suc m)
  then obtain a q where q: "pb_merge_queue s = a # q" by (cases "pb_merge_queue s") auto
  let ?one = "merge_one B L C (clk 0) a (s\<lparr>pb_merge_queue := q\<rparr>)"
  have "I (snd ?one)" using assms(2) [OF Suc.prems q] .
  moreover have "m = length (pb_merge_queue (snd ?one))"
    using Suc.hyps(2) q by (simp add: merge_one_queue)
  ultimately have "I (snd (merge_votes B L C (\<lambda>i. clk (Suc i)) (snd ?one)))"
    using Suc.hyps(1) by blast
  with \<open>I (snd ?one)\<close> show ?case
    by (subst merge_votes.simps) (auto simp: q split: prod.split option.split)
qed

lemma server_inv_merge_one:
  assumes inv: "server_inv B' L' n P g s" and q: "pb_merge_queue s = a # q"
  shows "server_inv B' L' n P g (snd (merge_one B L C now a (s\<lparr>pb_merge_queue := q\<rparr>)))"
proof -
  let ?s0 = "s\<lparr>pb_merge_queue := q\<rparr>"
  note wf = server_inv_wf [OF inv]
  have a: "a < length (heap s)" and dec: "a \<in> decided s" using wf q by (auto simp: server_wf_def decided_def)
  have "server_wf ?s0" using wf q by (rule server_wf_merge_pop)
  then have inv0: "server_inv B' L' n P g ?s0"
    by (rule server_inv_frame [OF inv]) (auto simp: decided_def q)
  show ?thesis
  proof (cases "Block_merge_votes B (cf_client_count C) (heap s ! a)")
    case (Inl e)
    with a inv0 show ?thesis by (simp add: merge_one_fails)
  next
    case (Inr b)
    let ?s' = "snd (merge_one B L C now a ?s0)" and ?b' = "commit_block now b"
    note one = merge_one_ok [of a ?s0 B C b L now, simplified, OF a Inr]
    obtain t where b: "b = (heap s ! a)\<lparr>tss_sig := t\<rparr>" using Block_merge_votes_frame [OF Inr] by blast
    have wf': "server_wf ?s'"
      using server_wf_merge_one [OF \<open>server_wf ?s0\<close>, of a B L C now] a by simp
    have "chm_ok (committed_blks s)" using wf by (simp add: server_wf_def)
    then have new: "x \<in> decided ?s0 \<or> x = a \<and> is_vote_enough n ?b'" if "x \<in> decided ?s'" for x
      using that inv dec b
      by (fastforce simp: one decided_def chm.lookup_assign ran_def push_all_lookup server_inv_def commit_block_def
          split: if_splits)
    show ?thesis
    proof (rule server_inv_write [OF inv0 wf', where a = a and b = ?b'])
      show "evolves (heap ?s0 ! a) ?b'" using commit_block_facts(1) [OF Inr] by simp
      show "block_shares_ok B' ?b'" using inv a by (simp add: commit_block_def b server_inv_def)
      show "x \<in> decided ?s0 \<or> x = a \<and> is_vote_enough n ?b'" if "x \<in> decided ?s'" for x
        using that by (rule new)
    qed (use a in \<open>simp_all add: one\<close>)
  qed
qed

lemma server_inv_merge_votes:
  "server_inv B' L' n P g s \<Longrightarrow> server_inv B' L' n P g (snd (merge_votes B L C clk s))"
  by (rule merge_votes_invariant) (auto intro: server_inv_merge_one)

lemma remove_dead_one_shape:
  "snd (remove_dead_one C now i s) = s \<or> snd (remove_dead_one C now i s) =
     s\<lparr>dead_block := insert i (dead_block s), pending_blks := chm_erase i (pending_blks s)\<rparr>"
  by (simp add: remove_dead_one_def Let_def split: option.split sum.split)

lemma server_inv_remove_dead_one:
  assumes "server_inv B L n P g s"
  shows "server_inv B L n P g (snd (remove_dead_one C now i s))"
proof -
  have "server_wf (s\<lparr>pending_blks := chm_erase i (pending_blks s)\<rparr>)"
    using server_inv_wf [OF assms] by (rule server_wf_pending_erase)
  then have "server_wf (s\<lparr>dead_block := d, pending_blks := chm_erase i (pending_blks s)\<rparr>)" for d
    by (simp add: server_wf_def)
  then have "server_inv B L n P g (s\<lparr>dead_block := d, pending_blks := chm_erase i (pending_blks s)\<rparr>)" for d
    by (rule server_inv_frame [OF assms]) (simp_all add: decided_def)
  with assms remove_dead_one_shape [of C now i s] show ?thesis by auto
qed

lemma server_inv_remove_dead_blocks:
  assumes "server_inv B L n P g s"
  shows "server_inv B L n P g (snd (remove_dead_blocks ord clk C s))"
proof -
  have "server_inv B L n P g (snd (foreach (\<lambda>i. remove_dead_one C (clk i) i) ks s))" for ks
    using assms by (rule foreach_invariant) (rule server_inv_remove_dead_one)
  with assms show ?thesis by (simp add: remove_dead_blocks_def split: sum.split)
qed

lemma server_inv_Register:
  assumes "server_inv B L n P g s"
  shows "server_inv B L n P g (snd (Register K i d s))"
proof -
  have "server_inv B L n P g (s\<lparr>clients := chm_assign k cp (clients s)\<rparr>)" for k cp
    using server_inv_wf [OF assms]
    by (intro server_inv_frame [OF assms] server_wf_clients)
      (simp_all add: decided_def server_wf_def chm.invar_assign)
  with assms show ?thesis by (simp add: Register_def split: sum.split option.split)
qed

lemma server_inv_pulled:
  assumes inv: "server_inv B L n P g s" and a: "a < length (heap s)"
  shows "server_inv B L n P g (pulled clk i cp k a s)"
proof -
  let ?s1 = "see_block i cp (heap s ! a) s"
  have wf1: "server_wf ?s1" using server_inv_wf [OF inv] by (rule server_wf_see_block)
  then have inv1: "server_inv B L n P g ?s1"
    by (rule server_inv_frame [OF inv]) (simp_all add: decided_def see_block_def)
  have wf2: "server_wf (set_dist_ts (clk k) a (heap s ! a) ?s1)"
    using server_wf_set_dist_ts [OF wf1, of a "clk k"] a by simp
  show ?thesis
  proof (cases "hdr_dist_ts (header (heap s ! a)) = 0")
    case True
    let ?b = "(heap s ! a)\<lparr>header := (header (heap s ! a))\<lparr>hdr_dist_ts := clk k\<rparr>\<rparr>"
    have "evolves (heap ?s1 ! a) ?b" by (simp add: evolves_header_ts)
    moreover have "block_shares_ok B ?b" using inv a by (simp add: server_inv_def)
    ultimately show ?thesis
      using server_inv_write [OF inv1 wf2, of a ?b] a True
      by (simp add: pulled_def set_dist_ts_def)
  qed (simp add: pulled_def set_dist_ts_def inv1)
qed

lemma server_inv_pull_one:
  assumes "server_inv B L n P g (fst st)"
  shows "server_inv B L n P g (fst (snd (pull_one L' clk i p st)))"
proof -
  obtain s hs k a where st: "st = (s, hs)" "p = (k, a)" by fastforce
  have inv: "server_inv B L n P g s" using assms st by simp
  show ?thesis
    using inv server_inv_pulled [OF inv]
    by (auto simp: st pull_one_def pulled_def deref_def split: option.split)
qed

lemma server_inv_PullPendingBlocks:
  "server_inv B L n P g s \<Longrightarrow> server_inv B L n P g (fst (snd (PullPendingBlocks L' ord clk i s)))"
  unfolding PullPendingBlocks_def
  by (rule foreach_invariant [where I = "\<lambda>st. server_inv B L n P g (fst st)"])
    (auto intro: server_inv_pull_one)

lemma pack_blocks_frame:
  "decided (pack_blocks ord clk num m s) = decided s \<and> outbox (pack_blocks ord clk num m s) = outbox s
   \<and> (\<forall>b \<in> set (new_blocks s (pack_blocks ord clk num m s)). votes b = [])"
proof (induction m arbitrary: s clk)
  case 0
  show ?case by simp
next
  case (Suc m)
  let ?s1 = "pack_one ord (clk 0) num s"
  have "decided ?s1 = decided s" and "outbox ?s1 = outbox s"
    by (simp_all add: pack_one_def alloc_def Let_def decided_def)
  with Suc.IH [of "\<lambda>i. clk (Suc i)" ?s1] show ?case
    using new_blocks_step [of num s ord clk m] by (auto simp: packed_block_facts)
qed

lemma generate_tx_frame [simp]:
  "heap (generate_tx rng num s) = heap s" "decided (generate_tx rng num s) = decided s"
  "outbox (generate_tx rng num s) = outbox s" "blk_seq_generator (generate_tx rng num s) = blk_seq_generator s"
  by (simp_all add: generate_tx_def decided_def)

lemma server_inv_generate_tx:
  "server_inv B L n P g s \<Longrightarrow> server_inv B L n P g (generate_tx rng num s)"
  by (rule server_inv_frame) (auto intro: server_wf_generate_tx server_inv_wf)

text \<open>The blocks packed by some iterations of the loop.\<close>

definition packs :: "'ss blslib \<Rightarrow> 'r flexlib \<Rightarrow> u64 \<Rightarrow> (u64 \<times> u64 \<times> u64 \<times> Transaction list) set \<Rightarrow> u64 \<Rightarrow> server \<Rightarrow> server \<Rightarrow> bool" where
  "packs B L n P g s s' \<longleftrightarrow>
     server_inv B L n (P \<union> core ` set (new_blocks s s')) (g + word_of_nat (length (new_blocks s s'))) s' \<and>
     (\<forall>i < length (new_blocks s s'). block_id (new_blocks s s' ! i) = g + word_of_nat i)"

lemma pack_blocks_new:
  assumes inv: "server_inv B L n P g s" and m: "m < 2 ^ 64"
  shows "packs B L n P g s (pack_blocks ord clk num m s)"
proof -
  let ?s' = "pack_blocks ord clk num m s"
  note wf = server_inv_wf [OF inv]
  have hp: "heap ?s' = heap s @ new_blocks s ?s'" by (rule pack_blocks_heap)
  have num: "blk_seq_generator ?s' = g + word_of_nat (length (new_blocks s ?s'))"
    "\<forall>i < length (new_blocks s ?s'). block_id (new_blocks s ?s' ! i) = g + word_of_nat i"
    using pack_blocks_numbers [OF m, of s ord clk num] inv wf by (auto simp: server_inv_def server_wf_def)
  have fr: "decided ?s' = decided s" "outbox ?s' = outbox s" "\<forall>b \<in> set (new_blocks s ?s'). votes b = []"
    using pack_blocks_frame [of ord clk num m s] by simp_all
  have "server_wf ?s'" using wf by (rule server_wf_pack_blocks)
  moreover have "is_vote_enough n (heap ?s' ! a)" if "a \<in> decided ?s'" for a
    using that inv decided_valid [OF wf, of a] by (simp add: hp fr(1) nth_append server_inv_def)
  moreover have "block_shares_ok B b" if "b \<in> set (new_blocks s ?s')" for b
    using fr(3) that by (simp add: block_shares_ok_def Block_ok_def)
  moreover have "req_ok B L n (P \<union> core ` set (new_blocks s ?s')) (snd mm)" if "mm \<in> set (outbox ?s')" for mm
    using inv that fr(2) by (auto simp: server_inv_def intro: req_ok_mono)
  ultimately show ?thesis
    using inv num unfolding packs_def server_inv_def by (auto simp: hp)
qed

lemma packs_heap: "heap s1 = heap s \<Longrightarrow> packs B L n P g s1 s' = packs B L n P g s s'"
  by (simp add: packs_def new_blocks_def)

lemma pack_round_new:
  assumes "server_inv B L n P g s"
  shows "packs B L n P g s (pack_round ord clk rng C s)"
proof -
  let ?s1 = "if length (pending_blks s) < unat (cf_pb_pool_limit C)
      then generate_tx rng (cf_generate_tx_rate C) s else s"
  have "server_inv B L n P g ?s1" using assms by (simp add: server_inv_generate_tx)
  then have "packs B L n P g ?s1 (pack_blocks ord clk (cf_tx_per_block C) (unat (word_of_int INT_MAX :: u64)) ?s1)"
    by (rule pack_blocks_new) (simp add: INT_MAX_def)
  moreover have "heap ?s1 = heap s" by simp
  ultimately show ?thesis
    unfolding pack_round_def pack_block_def Let_def by (rule packs_heap [THEN iffD1, rotated])
qed

subsection \<open>Senders\<close>

lemma server_inv_call_peer:
  assumes "server_inv B L n P g s" and "req_ok B L n P req"
  shows "server_inv B L n P g (snd (call_peer t req s))"
  using call_peer_cases [of t req s] assms server_inv_outbox [OF assms(1), of "[(t, req)]"] by auto

lemma server_inv_fields [simp]:
  "server_inv B L n P g (s\<lparr>pb_sync_queue := x1\<rparr>) = server_inv B L n P g s"
  "server_inv B L n P g (s\<lparr>pb_sync_labels := x2\<rparr>) = server_inv B L n P g s"
  "server_inv B L n P g (s\<lparr>peer_status := x3\<rparr>) = server_inv B L n P g s"
  "server_inv B L n P g (s\<lparr>relay_votes := x4\<rparr>) = server_inv B L n P g s"
  by (simp_all add: server_inv_def decided_def)

lemma server_inv_drained:
  assumes "server_inv B L n P g s"
  shows "server_inv B L n P g (s\<lparr>relay_blocks := AList.update t [] (relay_blocks s)\<rparr>)"
    and "server_inv B L n P g (s\<lparr>bcast_commit_blocks := AList.update t [] (bcast_commit_blocks s)\<rparr>)"
proof -
  note wf = server_inv_wf [OF assms]
  show "server_inv B L n P g (s\<lparr>relay_blocks := AList.update t [] (relay_blocks s)\<rparr>)"
    by (rule server_inv_frame [OF assms server_wf_drained(1) [OF wf]]) (simp_all add: decided_def)
  show "server_inv B L n P g (s\<lparr>bcast_commit_blocks := AList.update t [] (bcast_commit_blocks s)\<rparr>)"
    by (rule server_inv_frame [OF assms server_wf_drained(2) [OF wf]])
      (auto simp: decided_def update_conv' split: if_splits)
qed

lemma written_ok:
  assumes "flexlib_spec L" and "server_inv B L n P g s" and "set q \<subseteq> {..<length (heap s)}"
  shows "req_ok B L n P (RelayBlockRequest i (map (Block_to_bytes L) (map ((!) (heap s)) q)))"
    and "set q \<subseteq> decided s \<Longrightarrow>
      req_ok B L n P (SPBcastCommitRequest i (map (Block_to_bytes L) (map ((!) (heap s)) q)) ts)"
proof -
  have b: "core (heap s ! a) \<in> P" "block_shares_ok B (heap s ! a)" if "a \<in> set q" for a
    using that assms(2,3) by (auto simp: server_inv_def)
  show "req_ok B L n P (RelayBlockRequest i (map (Block_to_bytes L) (map ((!) (heap s)) q)))"
    using b written_block_read(1) [OF assms(1)] by (fastforce simp: req_ok_def)
  show "req_ok B L n P (SPBcastCommitRequest i (map (Block_to_bytes L) (map ((!) (heap s)) q)) ts)"
    if "set q \<subseteq> decided s"
  proof -
    have "is_vote_enough n (heap s ! a)" if "a \<in> set q" for a
      using that \<open>set q \<subseteq> decided s\<close> assms(2) by (auto simp: server_inv_def)
    with b written_block_read [OF assms(1)] show ?thesis by (fastforce simp: req_ok_def)
  qed
qed

lemma server_inv_RelayVote:
  assumes "server_inv B L n P g s"
  shows "server_inv B L n P g (snd (RelayVote L' t s))"
  unfolding RelayVote_def Let_def pop_all_eq
  using assms by (auto split: option.split intro!: server_inv_call_peer simp: req_ok_def)

lemma server_inv_RelayBlock:
  assumes "flexlib_spec L" and inv: "server_inv B L n P g s"
  shows "server_inv B L n P g (snd (RelayBlock L t s))"
proof (cases "map_of (relay_blocks s) t")
  case None
  with inv show ?thesis by (simp add: RelayBlock_def)
next
  case (Some q)
  note wf = server_inv_wf [OF inv]
  have "set q \<subseteq> {..<length (heap s)}" using wf Some by (auto simp: server_wf_def queues_valid_def)
  note ok = written_ok(1) [OF assms(1) inv this, of "ucast (server_id s)"]
  have "server_inv B L n P g (snd (call_peer t (RelayBlockRequest (ucast (server_id s))
      (map (Block_to_bytes L) (map ((!) (heap s)) q))) (s\<lparr>relay_blocks := AList.update t [] (relay_blocks s)\<rparr>)))"
    using server_inv_drained(1) [OF inv] ok by (rule server_inv_call_peer)
  then show ?thesis
    using server_inv_drained(1) [OF inv] pop_blocks_queue(1) [OF wf Some]
    by (auto simp: RelayBlock_def Some Let_def split: prod.split option.split)
qed

lemma server_inv_SPBcastCommit:
  assumes "flexlib_spec L" and inv: "server_inv B L n P g s"
  shows "server_inv B L n P g (snd (SPBcastCommit L now t s))"
proof (cases "map_of (bcast_commit_blocks s) t")
  case None
  with inv show ?thesis by (simp add: SPBcastCommit_def)
next
  case (Some q)
  note wf = server_inv_wf [OF inv]
  have "set q \<subseteq> {..<length (heap s)}" "set q \<subseteq> decided s"
    using wf Some by (auto simp: server_wf_def queues_valid_def decided_def)
  note ok = written_ok(2) [OF assms(1) inv this, of "ucast (server_id s)" now]
  have "server_inv B L n P g (snd (call_peer t (SPBcastCommitRequest (ucast (server_id s))
      (map (Block_to_bytes L) (map ((!) (heap s)) q)) now)
      (s\<lparr>bcast_commit_blocks := AList.update t [] (bcast_commit_blocks s)\<rparr>)))"
    using server_inv_drained(2) [OF inv] ok by (rule server_inv_call_peer)
  then show ?thesis
    using server_inv_drained(2) [OF inv] pop_blocks_queue(2) [OF wf Some]
    by (simp add: SPBcastCommit_def Some Let_def)
qed

lemma server_inv_SPHeartbeat:
  assumes "server_inv B L n P g s"
  shows "server_inv B L n P g (snd (SPHeartbeat ok t s))"
  using server_inv_call_peer [OF assms, of "SPHeartbeatRequest (ucast (server_id s))" t]
  by (auto simp: SPHeartbeat_def Let_def req_ok_def split: prod.split option.split)

lemma server_inv_sync:
  assumes "server_inv B L n P g s"
  shows "server_inv B L n P g (snd (send_relay_block_sync C k s))"
proof -
  have "server_inv B L n P g (snd (foreach (RelayBlockSync k) ts s))" for ts
    using assms by (rule foreach_invariant) (simp add: RelayBlockSync_def server_inv_call_peer req_ok_def)
  then show ?thesis
    unfolding send_relay_block_sync_def
    by (auto split: prod.split option.split) (metis snd_conv)+
qed

lemma server_inv_drain_sync:
  "server_inv B L n P g s \<Longrightarrow> server_inv B L n P g (snd (drain_sync C s))"
proof (induction "length (pb_sync_queue s)" arbitrary: s)
  case 0
  then show ?case by (subst drain_sync.simps) simp
next
  case (Suc m)
  then obtain k q where q: "pb_sync_queue s = k # q" by (cases "pb_sync_queue s") auto
  let ?r = "send_relay_block_sync C k (s\<lparr>pb_sync_queue := q\<rparr>)"
  have inv: "server_inv B L n P g (snd ?r)" using Suc.prems by (intro server_inv_sync) simp
  moreover have "m = length (pb_sync_queue (snd ?r))"
    using Suc.hyps(2) q by (simp add: send_relay_block_sync_queue)
  ultimately have "server_inv B L n P g (snd (drain_sync C (snd ?r)))" using Suc.hyps(1) by blast
  with inv show ?case by (subst drain_sync.simps) (auto simp: q split: prod.split option.split)
qed

lemma server_inv_sends:
  assumes "flexlib_spec L" and inv: "server_inv B L n P g s"
  shows "server_inv B L n P g (snd (send_heartbeats C ok s))"
    and "server_inv B L n P g (snd (send_relay_votes L C s))"
    and "server_inv B L n P g (snd (bcast_commits L C clk s))"
    and "server_inv B L n P g (snd (send_relay_blocks L C s))"
proof -
  show "server_inv B L n P g (snd (send_heartbeats C ok s))"
    unfolding send_heartbeats_def using inv by (rule foreach_invariant) (rule server_inv_SPHeartbeat)
  show "server_inv B L n P g (snd (send_relay_votes L C s))"
    unfolding send_relay_votes_def using inv by (rule foreach_invariant) (rule server_inv_RelayVote)
  show "server_inv B L n P g (snd (bcast_commits L C clk s))"
    unfolding bcast_commits_def using inv
    by (rule foreach_invariant) (rule server_inv_SPBcastCommit [OF assms(1)])
  have "server_inv B L n P g (snd (foreach (RelayBlock L) ts s))" for ts
    using inv by (rule foreach_invariant) (rule server_inv_RelayBlock [OF assms(1)])
  then show "server_inv B L n P g (snd (send_relay_blocks L C s))"
    unfolding send_relay_blocks_def
    by (auto split: prod.split option.split intro!: server_inv_drain_sync) (metis snd_conv)+
qed

end
