(* ===== verification/TC_Commit.thy ===== *)
theory TC_Commit
  imports TC_Invariant
begin

text \<open>
  The path of a commit through the components: the votes of all clients at a server
  responsible for a block (\<open>VoteBlocks\<close>), the merging of its votes (\<open>merge_votes\<close>), the
  broadcast (\<open>bcast_commits\<close>, \<open>SPBcastCommit\<close>) and the handler at a peer. The lemma
  \<open>commit_round\<close> follows one block along it; it rests on the lemmas of the components and
  on the safety invariant, which guarantees that the block can be written to the wire.
\<close>

subsection \<open>What voting and merging leave alone\<close>

definition links :: "server \<Rightarrow> u64 \<times> (u64, string) omap \<times> (u64, addr list) omap \<times> (u64 \<times> request) list" where
  "links s = (server_id s, peer_stubs s, relay_blocks s, outbox s)"

lemma links_count_vote:
  "links (snd (count_vote C i v k s)) = links s"
  "bcast_commit_blocks (snd (count_vote C i v k s)) = bcast_commit_blocks s"
  "length (heap (snd (count_vote C i v k s))) = length (heap s)"
  by (simp_all add: count_vote_def links_def Let_def write_block_def split: option.split sum.split)

lemma links_cast:
  "links (snd (cast C k v cs s)) = links s \<and> bcast_commit_blocks (snd (cast C k v cs s)) = bcast_commit_blocks s
   \<and> length (heap (snd (cast C k v cs s))) = length (heap s)"
  unfolding cast_def
  by (rule foreach_invariant [where I = "\<lambda>s'. links s' = links s \<and>
        bcast_commit_blocks s' = bcast_commit_blocks s \<and> length (heap s') = length (heap s)"])
    (simp_all add: links_count_vote)

lemma server_inv_cast:
  assumes "server_inv B L (cf_client_count C) P g s" and "\<forall>i \<in> set cs. vote_ok B (v i)"
  shows "server_inv B L (cf_client_count C) P g (snd (cast C k v cs s))"
  unfolding cast_def using assms(1)
  by (rule foreach_invariant) (use assms(2) in \<open>auto intro: server_inv_count_vote\<close>)

lemma merge_votes_frame:
  assumes "server_wf s"
  shows "server_wf (snd (merge_votes B L C clk s)) \<and> links (snd (merge_votes B L C clk s)) = links s
    \<and> relay_votes (snd (merge_votes B L C clk s)) = relay_votes s
    \<and> map (\<lambda>b. (core b, votes b)) (heap (snd (merge_votes B L C clk s))) = map (\<lambda>b. (core b, votes b)) (heap s)"
proof (rule merge_votes_invariant [where I = "\<lambda>s'. server_wf s' \<and> links s' = links s \<and> relay_votes s' = relay_votes s \<and>
    map (\<lambda>b. (core b, votes b)) (heap s') = map (\<lambda>b. (core b, votes b)) (heap s)"])
  fix s1 now a q
  assume I: "server_wf s1 \<and> links s1 = links s \<and> relay_votes s1 = relay_votes s \<and>
      map (\<lambda>b. (core b, votes b)) (heap s1) = map (\<lambda>b. (core b, votes b)) (heap s)"
    and q: "pb_merge_queue s1 = a # q"
  let ?s0 = "s1\<lparr>pb_merge_queue := q\<rparr>"
  have a: "a < length (heap s1)" using I q by (auto simp: server_wf_def)
  have wf0: "server_wf ?s0" using I q by (blast intro: server_wf_merge_pop)
  then have "server_wf (snd (merge_one B L C now a ?s0))" using a by (intro server_wf_merge_one) simp_all
  moreover have "links (snd (merge_one B L C now a ?s0)) = links s \<and>
      relay_votes (snd (merge_one B L C now a ?s0)) = relay_votes s \<and>
      map (\<lambda>b. (core b, votes b)) (heap (snd (merge_one B L C now a ?s0))) = map (\<lambda>b. (core b, votes b)) (heap s)"
  proof (cases "Block_merge_votes B (cf_client_count C) (heap s1 ! a)")
    case (Inl e)
    with a I show ?thesis by (simp add: merge_one_fails links_def)
  next
    case (Inr b)
    have "core (commit_block now b) = core (heap s1 ! a) \<and> votes (commit_block now b) = votes (heap s1 ! a)"
      using Block_merge_votes_frame [OF Inr] by (auto simp: commit_block_def core_def)
    with a have "map (\<lambda>b. (core b, votes b)) ((heap s1)[a := commit_block now b]) =
        map (\<lambda>b. (core b, votes b)) (heap s1)"
      by (simp add: map_update list_update_same_conv)
    with merge_one_ok [of a ?s0 B C b L now, simplified, OF a Inr] I show ?thesis
      by (simp add: links_def)
  qed
  ultimately show "server_wf (snd (merge_one B L C now a ?s0)) \<and> links (snd (merge_one B L C now a ?s0)) = links s \<and>
      relay_votes (snd (merge_one B L C now a ?s0)) = relay_votes s \<and>
      map (\<lambda>b. (core b, votes b)) (heap (snd (merge_one B L C now a ?s0))) = map (\<lambda>b. (core b, votes b)) (heap s)"
    by blast
qed (use assms in simp)

lemma linked_links:
  "linked ts s \<Longrightarrow> links s' = links s \<Longrightarrow> dom (map_of (relay_votes s)) \<subseteq> dom (map_of (relay_votes s')) \<Longrightarrow>
   dom (map_of (bcast_commit_blocks s)) \<subseteq> dom (map_of (bcast_commit_blocks s')) \<Longrightarrow> linked ts s'"
  by (auto simp: linked_def links_def domIff subset_iff)

lemma linked_peers_ready: "linked (peers_of C s) s \<Longrightarrow> peers_ready C s"
  by (auto simp: linked_def peers_ready_def set_peer_ids)

subsection \<open>The clients' votes\<close>

text \<open>The situation before the votes: all clients vote for a block without votes.\<close>

definition poll ::
  "'ss blslib \<Rightarrow> conf \<Rightarrow> u64 \<Rightarrow> (u64 \<Rightarrow> BlockVote) \<Rightarrow> (u32 \<Rightarrow> Block) \<Rightarrow> u32 list \<Rightarrow> bool" where
  "poll B C k v blk cs \<longleftrightarrow>
     cf_server_count C \<noteq> 0 \<and> cf_server_count C \<noteq> - 1 \<and> distinct cs \<and> cs \<noteq> [] \<and>
     length cs = unat (cf_client_count C) \<and>
     (\<forall>i \<in> set cs. ballot B k i (v (ucast i)) (blk i) \<and> vote_ok B (v (ucast i)) \<and> int (unat i) \<le> INT_MAX)"

lemma vote_round:
  fixes v :: "u64 \<Rightarrow> BlockVote"
  assumes "flexlib_spec L" and poll: "poll B C k v blk cs"
    and inv: "server_inv B L (cf_client_count C) P g s" and "linked (peers_of C s) s"
    and "k \<notin> dead_block s" and "server_id s \<in> responsible C k"
    and "map_of (pending_blks s) k = Some a" and "votes (heap s ! a) = []"
  shows "\<exists>s'. foreach (\<lambda>i. VoteBlocks B L C i [Block_to_bytes L (blk i)]) cs s = (None, s')
    \<and> server_inv B L (cf_client_count C) P g s' \<and> linked (peers_of C s) s' \<and> links s' = links s
    \<and> bcast_commit_blocks s' = bcast_commit_blocks s
    \<and> map_of (pending_blks s') k = None \<and> pb_merge_queue s' = pb_merge_queue s @ [a]
    \<and> core (heap s' ! a) = core (heap s ! a) \<and> a < length (heap s')
    \<and> (\<forall>j. map_of (votes (heap s' ! a)) j = (if j \<in> ucast ` set cs then Some (v j) else None))"
proof -
  note wf = server_inv_wf [OF inv]
  have n: "cf_server_count C \<noteq> 0" "cf_server_count C \<noteq> - 1" and cs: "distinct cs" "cs \<noteq> []"
    "length cs = unat (cf_client_count C)" and b: "\<forall>i \<in> set cs. ballot B k i (v (ucast i)) (blk i)"
    and vok: "\<forall>j \<in> set (map ucast cs). vote_ok B (v j)"
    using poll by (auto simp: poll_def)
  have d: "distinct (map ucast cs :: u64 list)"
    using cs(1) by (simp add: distinct_map inj_on_subset [OF inj_client_id])
  have "\<exists>s1. cast C k v (map ucast cs) s = (None, s1) \<and> server_wf s1
    \<and> map_of (pending_blks s1) = (map_of (pending_blks s))(k := None)
    \<and> pb_merge_queue s1 = pb_merge_queue s @ [a]
    \<and> heap s1 ! a = (heap s ! a)\<lparr>votes := votes (heap s1 ! a)\<rparr>
    \<and> (\<forall>i. map_of (votes (heap s1 ! a)) i = (if i \<in> set (map ucast cs) then Some (v i) else None))"
    by (rule cast_quorum [OF wf assms(7,8) d]) (use cs in simp_all)
  then obtain s1 where s1: "cast C k v (map ucast cs) s = (None, s1)"
    "map_of (pending_blks s1) = (map_of (pending_blks s))(k := None)"
    "pb_merge_queue s1 = pb_merge_queue s @ [a]"
    and same: "heap s1 ! a = (heap s ! a)\<lparr>votes := votes (heap s1 ! a)\<rparr>"
    and look: "\<forall>j. map_of (votes (heap s1 ! a)) j = (if j \<in> ucast ` set cs then Some (v j) else None)"
    by auto
  obtain qs where run: "foreach (\<lambda>i. VoteBlocks B L C i [Block_to_bytes L (blk i)]) cs s =
      (None, s1\<lparr>relay_votes := qs\<rparr>)" and dom: "dom (map_of (relay_votes s)) \<subseteq> dom (map_of qs)"
    using VoteBlocks_cast [OF assms(1) n b assms(5) linked_peers_ready [OF assms(4)] assms(6) wf] s1(1)
    by auto
  let ?s' = "s1\<lparr>relay_votes := qs\<rparr>"
  have inv': "server_inv B L (cf_client_count C) P g ?s'"
    using server_inv_cast [OF inv vok, of k] s1(1) by simp
  have lk: "links ?s' = links s" "bcast_commit_blocks ?s' = bcast_commit_blocks s" "length (heap ?s') = length (heap s)"
    using links_cast [of C k v "map ucast cs" s] s1(1) by (simp_all add: links_def)
  have "linked (peers_of C s) ?s'"
    using linked_links [OF assms(4) lk(1)] dom lk(2) by simp
  moreover have "core (heap s1 ! a) = core (heap s ! a)"
    using arg_cong [OF same, of core] by (simp add: core_def)
  moreover have "a < length (heap s1)" using server_wf_pending [OF wf assms(7)] lk(3) by simp
  ultimately show ?thesis
    using run inv' lk s1 look by (intro exI [of _ ?s']) simp
qed

text \<open>
  Counting is all that a relayed vote does, so that relaying the votes of some clients in one
  request is casting them.
\<close>

lemma relay_cast:
  assumes "flexlib_spec L" and "server_wf s" and "k \<notin> dead_block s"
    and "\<forall>j \<in> set js. vote_block_id (v j) = k \<and> vote_voter_id (v j) = j \<and> vote_ok B (v j)"
  shows "handle_peer B L C clk (RelayVoteRequest i (map (BlockVote_to_bytes L) (map v js))) s = cast C k v js s"
proof -
  have "foreach (relay_vote_one C) (map v js) s = cast C k v js s"
    using assms(2-)
  proof (induction js arbitrary: s)
    case (Cons j js)
    obtain s1 where s1: "count_vote C j (v j) k s = (None, s1)"
      using count_vote_ok(1) [OF Cons.prems(1), of C j "v j" k] by (cases "count_vote C j (v j) k s") simp
    then have one: "relay_vote_one C (v j) s = (None, s1)"
      using Cons.prems by (simp add: relay_vote_one_wf)
    have "server_wf s1" "dead_block s1 = dead_block s"
      using count_vote_ok(2) [OF Cons.prems(1), of C j "v j" k] count_vote_frame(3) [of C j "v j" k s] s1 by simp_all
    then have "foreach (relay_vote_one C) (map v js) s1 = cast C k v js s1"
      by (intro Cons.IH) (use Cons.prems in simp_all)
    then show ?case using one s1 by (simp add: cast_def)
  qed (simp add: cast_def)
  moreover have ok: "\<forall>x \<in> set (map v js). vote_ok B x" using assms(4) by simp
  ultimately show ?thesis
    unfolding handle_peer_def request.case RelayVote_handler_def vote_wire.decode_each_written [OF assms(1) ok]
    by simp
qed

subsection \<open>Merging and broadcasting\<close>

definition mergeable :: "'ss blslib \<Rightarrow> u64 \<Rightarrow> (u64 \<Rightarrow> BlockVote) \<Rightarrow> u64 set \<Rightarrow> bool" where
  "mergeable B n v I \<longleftrightarrow> (\<forall>b. Block_ok b \<longrightarrow>
     (\<forall>j. map_of (votes b) j = (if j \<in> I then Some (v j) else None)) \<longrightarrow> (\<exists>b'. Block_merge_votes B n b = Inr b'))"

text \<open>
  What merging relies on of libBLS: shares of all clients can be merged.
\<close>

definition shares_merge :: "'ss blslib \<Rightarrow> conf \<Rightarrow> u32 list \<Rightarrow> bool" where
  "shares_merge B C cs \<longleftrightarrow> (\<forall>v. (\<forall>i \<in> set cs. vote_sig_share (v (ucast i)) \<noteq> None) \<longrightarrow>
     mergeable B (cf_client_count C) v (ucast ` set cs))"

lemma merge_round:
  assumes inv: "server_inv B L (cf_client_count C) P g s" and "linked (peers_of C s) s"
    and q: "pb_merge_queue s = [a]" and "mergeable B (cf_client_count C) v I"
    and look: "\<forall>j. map_of (votes (heap s ! a)) j = (if j \<in> I then Some (v j) else None)"
  shows "\<exists>s'. merge_votes B L C clk s = (None, s') \<and> server_inv B L (cf_client_count C) P g s'
    \<and> linked (peers_of C s) s' \<and> links s' = links s \<and> pending_blks s' = pending_blks s
    \<and> map_of (committed_blks s') (block_id (heap s ! a)) = Some a \<and> a < length (heap s')
    \<and> core (heap s' ! a) = core (heap s ! a) \<and> votes (heap s' ! a) = votes (heap s ! a)
    \<and> (\<forall>t q. map_of (bcast_commit_blocks s) t = Some q \<longrightarrow> map_of (bcast_commit_blocks s') t = Some (q @ [a]))"
proof -
  note wf = server_inv_wf [OF inv]
  have a: "a < length (heap s)" using wf q by (simp add: server_wf_def)
  have "\<exists>b. Block_merge_votes B (cf_client_count C) (heap s ! a) = Inr b"
    using assms(4) look server_wf_heap_ok [OF wf a] unfolding mergeable_def by blast
  then have "\<forall>x \<in> set (pb_merge_queue s). \<exists>b. Block_merge_votes B (cf_client_count C) (heap s ! x) = Inr b"
    by (simp add: q)
  from merge_votes_all [OF wf this, of L clk] obtain s' where run: "merge_votes B L C clk s = (None, s')"
    and pend: "pending_blks s' = pending_blks s"
    and bc: "\<And>t q. map_of (bcast_commit_blocks s) t = Some q \<Longrightarrow> map_of (bcast_commit_blocks s') t = Some (q @ [a])"
    and com: "map_of (committed_blks s') (block_id (heap s ! a)) = Some a"
    by (auto simp: q)
  have fr: "links s' = links s" "relay_votes s' = relay_votes s"
    "map (\<lambda>b. (core b, votes b)) (heap s') = map (\<lambda>b. (core b, votes b)) (heap s)"
    using merge_votes_frame [OF wf, of B L C clk] run by simp_all
  have len: "length (heap s') = length (heap s)" using arg_cong [OF fr(3), of length] by simp
  then have blk: "core (heap s' ! a) = core (heap s ! a) \<and> votes (heap s' ! a) = votes (heap s ! a)"
    using arg_cong [OF fr(3), of "\<lambda>xs. xs ! a"] a by simp
  have "dom (map_of (bcast_commit_blocks s)) \<subseteq> dom (map_of (bcast_commit_blocks s'))"
    using bc by (auto simp: domIff)
  then have "linked (peers_of C s) s'" using linked_links [OF assms(2) fr(1)] fr(2) by simp
  moreover have "server_inv B L (cf_client_count C) P g s'"
    using server_inv_merge_votes [OF inv, of B L C clk] run by simp
  ultimately show ?thesis
    using run pend bc com fr(1) blk a len by (intro exI [of _ s']) simp
qed

lemma commit_rest:
  assumes "s'\<lparr>bcast_commit_blocks := [], outbox := []\<rparr> = s\<lparr>bcast_commit_blocks := [], outbox := []\<rparr>"
  shows "heap s' = heap s" "committed_blks s' = committed_blks s" "pending_blks s' = pending_blks s"
  using arg_cong [OF assms, of heap] arg_cong [OF assms, of committed_blks] arg_cong [OF assms, of pending_blks]
  by simp_all

lemma bcast_round:
  assumes "flexlib_spec L" and wf: "server_wf s" and "linked (peers_of C s) s"
    and q: "\<forall>t \<in> set (peers_of C s). map_of (bcast_commit_blocks s) t = Some [a]"
    and "a < length (heap s)" and "sendable B (heap s ! a)"
  shows "\<exists>s'. bcast_commits L C clk s = (None, s') \<and> heap s' = heap s \<and> committed_blks s' = committed_blks s
    \<and> pending_blks s' = pending_blks s
    \<and> (\<forall>t \<in> set (peers_of C s). \<exists>req. (t, req) \<in> set (outbox s')
        \<and> (\<forall>C' clk' r. handle_peer B L C' clk' req r = commit_all L C' clk' 0 [(heap s ! a)\<lparr>tss_sig := None\<rparr>] r))"
proof -
  obtain s' where run: "bcast_commits L C clk s = (None, s')"
    and ob: "outbox s' = outbox s @ concat (map (commit_posts L clk s) (peers_of C s))"
    and rest: "s'\<lparr>bcast_commit_blocks := [], outbox := []\<rparr> = s\<lparr>bcast_commit_blocks := [], outbox := []\<rparr>"
    using commit_sender.send_all [OF ready_all [OF wf assms(3)] distinct_peer_ids, of L clk]
    by (auto simp: bcast_commits_def)
  have "\<exists>req. (t, req) \<in> set (outbox s')
      \<and> (\<forall>C' clk' r. handle_peer B L C' clk' req r = commit_all L C' clk' 0 [(heap s ! a)\<lparr>tss_sig := None\<rparr>] r)"
    if t: "t \<in> set (peers_of C s)" for t
  proof -
    let ?req = "SPBcastCommitRequest (ucast (server_id s)) (map (Block_to_bytes L) [heap s ! a]) (clk t)"
    have "commit_posts L clk s t = [(t, ?req)]" using q t by (simp add: posts_defs)
    then have "(t, ?req) \<in> set (outbox s')" using t by (fastforce simp: ob)
    moreover have "handle_peer B L C' clk' ?req r = commit_all L C' clk' 0 [(heap s ! a)\<lparr>tss_sig := None\<rparr>] r"
      for C' clk' r
      using handle_block_post(2) [OF assms(1), of "[heap s ! a]" B] assms(6) by simp
    ultimately show ?thesis by blast
  qed
  then show ?thesis using run commit_rest [OF rest] by blast
qed

lemma voted_sendable:
  assumes "block_shares_ok B b" and "poll B C k v blk cs"
    and "\<forall>j. map_of (votes b) j = (if j \<in> ucast ` set cs then Some (v j) else None)"
  shows "sendable B b"
proof -
  have "j \<in> ucast ` set cs" if "(j, x) \<in> set (votes b)" for j x
  proof (rule ccontr)
    assume "j \<notin> ucast ` set cs"
    then have "map_of (votes b) j = None" using assms(3) by simp
    with that show False using map_of_None_keys [of "votes b" j] by force
  qed
  moreover have "int (unat (ucast i :: u64)) \<le> INT_MAX" if "i \<in> set cs" for i
    using that assms(2) by (simp add: poll_def unat_client_id)
  ultimately show ?thesis using assms(1) by (fastforce simp: sendable_def)
qed

lemma received_commit:
  assumes "server_wf r" and "map_of (pending_blks r) (block_id b) \<noteq> None" and "Block_ok b"
  shows "\<exists>r' a. commit_all L C clk 0 [b\<lparr>tss_sig := None\<rparr>] r = (None, r') \<and> map_of (pending_blks r') (block_id b) = None
    \<and> map_of (committed_blks r') (block_id b) = Some a \<and> core (heap r' ! a) = core b \<and> votes (heap r' ! a) = votes b"
proof -
  have "\<forall>c \<in> set [b\<lparr>tss_sig := None\<rparr>]. Block_ok c" using assms(3) by simp
  from commit_loop [OF assms(1) this, of L C clk 0] obtain r' where
    r': "commit_all L C clk 0 [b\<lparr>tss_sig := None\<rparr>] r = (None, r')" "commits [b\<lparr>tss_sig := None\<rparr>] r r'" by blast
  have "took [b\<lparr>tss_sig := None\<rparr>] r' (block_id b)" "map_of (pending_blks r') (block_id b) = None"
    using r'(2) assms(2) unfolding commits_def by (auto dest: spec [of _ "block_id b"])
  then show ?thesis
    using r'(1) by (auto simp: took_def same_block_def core_def)
qed

text \<open>
  \<open>committed_as k b r\<close>: the server has committed a block with the contents and votes of \<open>b\<close>
  under the number \<open>k\<close>, and the number is no longer pending.
\<close>

definition committed_as :: "u64 \<Rightarrow> Block \<Rightarrow> server \<Rightarrow> bool" where
  "committed_as k b r \<longleftrightarrow> map_of (pending_blks r) k = None \<and>
     (\<exists>a. map_of (committed_blks r) k = Some a \<and> core (heap r ! a) = core b \<and> votes (heap r ! a) = votes b)"

lemma commit_round:
  fixes v :: "u64 \<Rightarrow> BlockVote"
  assumes "flexlib_spec L" and "poll B C k v blk cs"
    and "mergeable B (cf_client_count C) v (ucast ` set cs)"
    and "server_inv B L (cf_client_count C) P g s" and "linked (peers_of C s) s"
    and "k \<notin> dead_block s" and "server_id s \<in> responsible C k"
    and "map_of (pending_blks s) k = Some a" and "votes (heap s ! a) = []" and "pb_merge_queue s = []"
    and q: "\<forall>t \<in> set (peers_of C s). map_of (bcast_commit_blocks s) t = Some []"
  shows "\<exists>s1 s2 s3 b.
      foreach (\<lambda>i. VoteBlocks B L C i [Block_to_bytes L (blk i)]) cs s = (None, s1)
    \<and> merge_votes B L C clk s1 = (None, s2) \<and> bcast_commits L C clk2 s2 = (None, s3)
    \<and> core b = core (heap s ! a)
    \<and> (\<forall>j. map_of (votes b) j = (if j \<in> ucast ` set cs then Some (v j) else None))
    \<and> committed_as k b s3
    \<and> (\<forall>t \<in> set (peers_of C s). \<exists>req. (t, req) \<in> set (outbox s3)
        \<and> (\<forall>clk' r. server_wf r \<longrightarrow> map_of (pending_blks r) k \<noteq> None \<longrightarrow>
            (\<exists>r'. handle_peer B L C clk' req r = (None, r') \<and> committed_as k b r')))"
proof -
  let ?n = "cf_client_count C"
  obtain s1 where s1: "foreach (\<lambda>i. VoteBlocks B L C i [Block_to_bytes L (blk i)]) cs s = (None, s1)"
    "server_inv B L ?n P g s1" "linked (peers_of C s) s1" "links s1 = links s"
    "bcast_commit_blocks s1 = bcast_commit_blocks s" "map_of (pending_blks s1) k = None"
    "pb_merge_queue s1 = [a]" "core (heap s1 ! a) = core (heap s ! a)"
    and look: "\<forall>j. map_of (votes (heap s1 ! a)) j = (if j \<in> ucast ` set cs then Some (v j) else None)"
    using vote_round [OF assms(1,2,4-9)] assms(10) by auto
  have k: "block_id (heap s1 ! a) = k"
    using s1(8) server_wf_pending [OF server_inv_wf [OF assms(4)] assms(8)] by (simp add: core_def)
  have id1: "peers_of C s1 = peers_of C s" using s1(4) by (simp add: links_def)
  obtain s2 where s2: "merge_votes B L C clk s1 = (None, s2)" "server_inv B L ?n P g s2"
    "linked (peers_of C s1) s2" "links s2 = links s1" "pending_blks s2 = pending_blks s1"
    "map_of (committed_blks s2) k = Some a" "a < length (heap s2)"
    "core (heap s2 ! a) = core (heap s1 ! a)" "votes (heap s2 ! a) = votes (heap s1 ! a)"
    and bc: "\<And>t q. map_of (bcast_commit_blocks s1) t = Some q \<Longrightarrow> map_of (bcast_commit_blocks s2) t = Some (q @ [a])"
    using merge_round [OF s1(2) s1(3) [folded id1] s1(7) assms(3) look, of clk] k by auto
  have id2: "peers_of C s2 = peers_of C s" using s2(4) s1(4) by (simp add: links_def)
  have ok2: "block_shares_ok B (heap s2 ! a)" using s2(2,7) by (simp add: server_inv_def)
  then have snd2: "sendable B (heap s2 ! a)"
    using voted_sendable [OF _ assms(2)] look s2(9) by simp
  have q2: "\<forall>t \<in> set (peers_of C s2). map_of (bcast_commit_blocks s2) t = Some [a]"
    unfolding id2 using q bc [where q = "[]"] s1(5) by simp
  obtain s3 where s3: "bcast_commits L C clk2 s2 = (None, s3)" "heap s3 = heap s2"
    "committed_blks s3 = committed_blks s2" "pending_blks s3 = pending_blks s2"
    and req: "\<forall>t \<in> set (peers_of C s). \<exists>req. (t, req) \<in> set (outbox s3)
        \<and> (\<forall>C' clk' r. handle_peer B L C' clk' req r = commit_all L C' clk' 0 [(heap s2 ! a)\<lparr>tss_sig := None\<rparr>] r)"
    using bcast_round [OF assms(1) server_inv_wf [OF s2(2)] s2(3) [unfolded id1 id2 [symmetric]] q2 s2(7) snd2, of clk2]
    unfolding id2 by blast
  have "block_id (heap s2 ! a) = k" using s2(8) k by (simp add: core_def)
  then have peer: "\<exists>r'. commit_all L C clk' 0 [(heap s2 ! a)\<lparr>tss_sig := None\<rparr>] r = (None, r') \<and> committed_as k (heap s2 ! a) r'"
    if "server_wf r" "map_of (pending_blks r) k \<noteq> None" for clk' r
    using that ok2 received_commit [of r "heap s2 ! a" L C clk']
    unfolding committed_as_def block_shares_ok_def by blast
  have "committed_as k (heap s2 ! a) s3"
    using s1(6) s2(5,6) s3 by (simp add: committed_as_def)
  moreover have "\<forall>t \<in> set (peers_of C s). \<exists>req. (t, req) \<in> set (outbox s3)
        \<and> (\<forall>clk' r. server_wf r \<longrightarrow> map_of (pending_blks r) k \<noteq> None \<longrightarrow>
            (\<exists>r'. handle_peer B L C clk' req r = (None, r') \<and> committed_as k (heap s2 ! a) r'))"
  proof
    fix t assume "t \<in> set (peers_of C s)"
    with req obtain r where "(t, r) \<in> set (outbox s3)"
      and "\<And>clk' r'. handle_peer B L C clk' r r' = commit_all L C clk' 0 [(heap s2 ! a)\<lparr>tss_sig := None\<rparr>] r'"
      by (elim bspec [elim_format]) blast+
    with peer show "\<exists>req. (t, req) \<in> set (outbox s3)
        \<and> (\<forall>clk' r. server_wf r \<longrightarrow> map_of (pending_blks r) k \<noteq> None \<longrightarrow>
            (\<exists>r'. handle_peer B L C clk' req r = (None, r') \<and> committed_as k (heap s2 ! a) r'))"
      by (intro exI [of _ r]) simp
  qed
  ultimately show ?thesis
    using s1(1,8) s2(1,8,9) s3(1) look
    by (intro exI [of _ s1] exI [of _ s2] exI [of _ s3] exI [of _ "heap s2 ! a"]) simp
qed

subsection \<open>A sample server\<close>

definition round_server :: server where
  "round_server = new_server
     \<lparr>server_id := 2, heap := [mk_Block 7 0 0], pending_blks := [(7, 0)], peer_stubs := [(1, ''a'')],
      relay_votes := [(1, [])], relay_blocks := [(1, [])], bcast_commit_blocks := [(1, [])]\<rparr>"

lemma round_server_inv: "server_inv ref_bls ref_flex 2 {core (mk_Block 7 0 0)} 0 round_server"
  by (simp add: round_server_def new_server_def server_inv_def server_wf_def keyed_def queues_valid_def
      decided_def block_shares_ok_def mk_Block_def mk_BlockHeader_def Block_ok_def)

lemma round_server_linked: "linked (peers_of (sample_conf 2) round_server) round_server"
  by (simp add: round_server_def peer_ids_2 linked_def)

lemma sample_poll: "poll ref_bls (sample_conf 2) 7 (sample_vote 7) (\<lambda>i. sample_block) [2, 1]"
  using sample_ballot [of 1] sample_ballot [of 2]
  by (simp add: poll_def sample_vote_ok INT_MAX_def)

lemma ref_mergeable:
  assumes "\<forall>j \<in> I. vote_sig_share (v j) \<noteq> None"
  shows "mergeable ref_bls n v I"
proof -
  have add: "collect_shares ref_bls vs S \<noteq> Inl e" if "\<forall>x \<in> set vs. vote_sig_share x \<noteq> None" for vs S e
    using that
  proof (induction vs arbitrary: S)
    case (Cons x vs)
    then show ?case by (cases S) (auto simp: collect_shares_def ref_bls_def)
  qed (simp add: collect_shares_def)
  have "\<exists>b'. Block_merge_votes ref_bls n b = Inr b'"
    if ok: "Block_ok b" and look: "\<forall>j. map_of (votes b) j = (if j \<in> I then Some (v j) else None)" for b
  proof -
    have "vote_sig_share x \<noteq> None" if "(j, x) \<in> set (votes b)" for j x
    proof -
      have "map_of (votes b) j = Some x"
        using that omap_ok_distinct [of "votes b"] ok by (simp add: Block_ok_def)
      then have "j \<in> I \<and> x = v j" using look [rule_format, of j] by (simp split: if_splits)
      then show ?thesis using assms by simp
    qed
    then have "\<forall>x \<in> set (map snd (votes b)). vote_sig_share x \<noteq> None" by auto
    from add [OF this] obtain S where "collect_shares ref_bls (map snd (votes b)) (n, []) = Inr S"
      by (metis sum.exhaust)
    then show ?thesis
      by (cases S) (auto simp: Block_merge_votes_def ref_bls_def bindr_Inr_iff)
  qed
  then show ?thesis by (simp add: mergeable_def)
qed

lemma sample_mergeable: "mergeable ref_bls n (sample_vote k) I"
  by (rule ref_mergeable) (simp add: sample_vote_def)

end
