(* ===== verification/TC_Progress.thy ===== *)
theory TC_Progress
  imports TC_Invariant
begin

text \<open>
  What no operation of a server undoes: its number, its stubs, the size of its status table and the key
  shares of the clients stay, the queues of its peers stay in place, and a number that is committed stays committed. \<open>after s s'\<close> says so
  of two states; every operation of the previous theories is shown to respect it.
\<close>

definition share_of :: "server \<Rightarrow> u64 \<Rightarrow> (BLSPrivateKeyShare \<times> BLSPublicKeyShare) option" where
  "share_of s j = map_option cl_tss_key (map_of (clients s) j)"

definition after :: "server \<Rightarrow> server \<Rightarrow> bool" where
  "after s s' \<longleftrightarrow> server_id s' = server_id s \<and> peer_stubs s' = peer_stubs s \<and>
     length (peer_status s') = length (peer_status s) \<and>
     dom (map_of (relay_votes s)) \<subseteq> dom (map_of (relay_votes s')) \<and>
     dom (map_of (relay_blocks s)) \<subseteq> dom (map_of (relay_blocks s')) \<and>
     dom (map_of (bcast_commit_blocks s)) \<subseteq> dom (map_of (bcast_commit_blocks s')) \<and>
     dom (map_of (committed_blks s)) \<subseteq> dom (map_of (committed_blks s')) \<and>
     share_of s' = share_of s"

named_theorems moves_on \<open>operations that respect after\<close>

lemma after_refl [simp]: "after s s"
  by (simp add: after_def)

lemma after_trans: "after s s1 \<Longrightarrow> after s1 s2 \<Longrightarrow> after s s2"
  unfolding after_def by (elim conjE, intro conjI) (simp, simp, simp, (erule (1) subset_trans)+, simp)

lemma after_fields [simp]:
  "after s (s1\<lparr>outbox := x1\<rparr>) = after s s1" "after s (s1\<lparr>heap := x2\<rparr>) = after s s1"
  "after s (s1\<lparr>pending_blks := x3\<rparr>) = after s s1"
  "after s (s1\<lparr>pb_sync_queue := x5\<rparr>) = after s s1" "after s (s1\<lparr>pb_sync_labels := x6\<rparr>) = after s s1"
  "after s (s1\<lparr>pb_merge_queue := x7\<rparr>) = after s s1" "after s (s1\<lparr>pending_txs := x8\<rparr>) = after s s1"
  "after s (s1\<lparr>blk_seq_generator := x9\<rparr>) = after s s1" "after s (s1\<lparr>dead_block := x10\<rparr>) = after s s1"
  "after s (s1\<lparr>db_puts := x11\<rparr>) = after s s1"
  by (simp_all add: after_def share_of_def fun_eq_iff)

lemma share_of_assign:
  "map_of (clients s) k = Some cp \<Longrightarrow> cl_tss_key cp' = cl_tss_key cp \<Longrightarrow>
     share_of (s\<lparr>clients := chm_assign k cp' (clients s)\<rparr>) = share_of s"
  by (auto simp: share_of_def fun_eq_iff chm_assign_def update_conv')

lemma after_profile [simp]:
  "map_of (clients s1) k = Some cp \<Longrightarrow> cl_tss_key cp' = cl_tss_key cp \<Longrightarrow>
     after s (s1\<lparr>clients := chm_assign k cp' (clients s1)\<rparr>) = after s s1"
  by (simp add: after_def share_of_assign)

lemma after_status [simp]:
  "length x = length (peer_status s1) \<Longrightarrow> after s (s1\<lparr>peer_status := x\<rparr>) = after s s1"
  by (simp add: after_def share_of_def fun_eq_iff)

lemma dom_grows:
  "A \<subseteq> dom (map_of m) \<Longrightarrow> A \<subseteq> dom (map_of (AList.update k v m))"
  "A \<subseteq> dom (map_of m) \<Longrightarrow> A \<subseteq> dom (map_of (chm_assign k v m))"
  "A \<subseteq> dom (map_of qs) \<Longrightarrow> A \<subseteq> dom (map_of (push_all a qs))"
  "A \<subseteq> dom (map_of qs) \<Longrightarrow> push_at k x qs = Inr qs' \<Longrightarrow> A \<subseteq> dom (map_of qs')"
  by (auto simp: update_conv' chm_assign_def push_all_lookup push_at_def subset_iff split: option.splits)

lemma share_of_fields [simp]:
  "share_of (s\<lparr>relay_votes := x1\<rparr>) = share_of s" "share_of (s\<lparr>relay_blocks := x2\<rparr>) = share_of s"
  "share_of (s\<lparr>bcast_commit_blocks := x3\<rparr>) = share_of s" "share_of (s\<lparr>committed_blks := x4\<rparr>) = share_of s"
  "share_of (s\<lparr>peer_status := x5\<rparr>) = share_of s" "share_of (s\<lparr>outbox := x6\<rparr>) = share_of s"
  "share_of (s\<lparr>heap := x7\<rparr>) = share_of s" "share_of (s\<lparr>pending_blks := x8\<rparr>) = share_of s"
  "share_of (s\<lparr>pb_sync_queue := x9\<rparr>) = share_of s" "share_of (s\<lparr>pb_sync_labels := x10\<rparr>) = share_of s"
  "share_of (s\<lparr>pb_merge_queue := x11\<rparr>) = share_of s" "share_of (s\<lparr>pending_txs := x12\<rparr>) = share_of s"
  "share_of (s\<lparr>blk_seq_generator := x13\<rparr>) = share_of s" "share_of (s\<lparr>dead_block := x14\<rparr>) = share_of s"
  "share_of (s\<lparr>db_puts := x15\<rparr>) = share_of s"
  by (simp_all add: share_of_def fun_eq_iff)

lemmas after_simps = after_def dom_grows

lemma after_foreach: "(\<And>x s. after s (snd (f x s))) \<Longrightarrow> after s (snd (foreach f xs s))"
  by (rule foreach_invariant) (auto intro: after_trans)

lemma after_decode:
  "(\<And>x s. after s (snd (f x s))) \<Longrightarrow> after s (snd (decode_each rd f bs s))"
  "(\<And>j x s. after s (snd (g j x s))) \<Longrightarrow> after s (snd (decode_each_at rd g bs s))"
  by (rule decode_each_invariant decode_each_at_invariant; auto intro: after_trans)+


subsection \<open>Packing, pulling, voting\<close>

lemma after_Register [moves_on]: "after s (snd (Register K i d s))"
  by (simp add: Register_def split: sum.split option.split)

lemma after_pack [moves_on]: "after s (pack_round ord clk rng C s)"
proof -
  have one: "after s (pack_one ord now num s)" for now num s
    by (simp add: pack_one_def alloc_def Let_def after_simps)
  have blocks: "after s (pack_blocks ord clk num m s)" for num m clk s
    by (induction m arbitrary: clk s) (auto intro: after_trans [OF one])
  have gen: "after s (generate_tx rng num s)" for num by (simp add: generate_tx_def)
  show ?thesis
    unfolding pack_round_def pack_block_def Let_def using blocks after_trans [OF gen blocks] by simp
qed

lemma after_PullPendingBlocks [moves_on]: "after s (fst (snd (PullPendingBlocks L ord clk i s)))"
  unfolding PullPendingBlocks_def
proof (rule foreach_invariant [where I = "\<lambda>st. after s (fst st)"])
  show "after s (fst (snd (pull_one L clk (ucast i) p st)))" if "after s (fst st)" for p st
    using that by (auto simp: pull_one_def set_dist_ts_def see_block_def write_block_def split: prod.split option.split sum.split)
qed simp

lemma after_count_vote [moves_on]: "after s (snd (count_vote C i v k s))"
  by (simp add: count_vote_def Let_def write_block_def split: option.split sum.split)

lemma after_relay_vote_to [moves_on]: "after s (snd (relay_vote_to v t s))"
  using dom_grows(4) [OF subset_refl, of t v "relay_votes s"]
  by (simp add: relay_vote_to_def after_def split: sum.split)

lemma after_vote_one: "after s (snd (vote_one C i b s))"
proof -
  have loop: "after s (snd (foreach (relay_vote_to v) ts s))" for v ts
    by (intro after_foreach moves_on)
  have stop: "after s s1" if "foreach (relay_vote_to v) ts s = (r, s1)" for v ts r s1
    using loop [of v ts] that by simp
  then have "after s (snd (count_vote C i w k s1))" if "foreach (relay_vote_to v) ts s = (r, s1)" for v ts r s1 w k
    using that after_count_vote after_trans by blast
  with loop stop show ?thesis
    by (auto simp: vote_one_def split: option.split sum.split prod.split)
qed

lemma after_VoteBlocks [moves_on]: "after s (snd (VoteBlocks B L C i bs s))"
  unfolding VoteBlocks_def by (intro after_decode after_vote_one)

subsection \<open>Merging and dead blocks\<close>

lemma after_merge_votes [moves_on]: "after s (snd (merge_votes B L C clk s))"
proof (rule merge_votes_invariant [where I = "after s"])
  fix s1 now a q
  assume "after s s1"
  then show "after s (snd (merge_one B L C now a (s1\<lparr>pb_merge_queue := q\<rparr>)))"
    by (simp add: merge_one_def write_block_def Let_def after_simps split: sum.split)
qed simp

lemma after_remove_dead_blocks [moves_on]: "after s (snd (remove_dead_blocks ord clk C s))"
proof -
  have "after s (snd (remove_dead_one C now i s))" for now i s
    using remove_dead_one_shape [of C now i s] by auto
  then have "after s (snd (foreach (\<lambda>i. remove_dead_one C (clk i) i) ks s))" for ks
    by (rule after_foreach)
  then show ?thesis by (simp add: remove_dead_blocks_def split: sum.split)
qed

subsection \<open>Senders\<close>

lemma after_call_peer: "after s s1 \<Longrightarrow> after s (snd (call_peer t req s1))"
  by (simp add: call_peer_def split: option.split)


lemma after_SPHeartbeat: "after s (snd (SPHeartbeat ok t s))"
  using after_call_peer [OF after_refl, of s t "SPHeartbeatRequest (ucast (server_id s))"]
  by (auto simp: SPHeartbeat_def Let_def split: prod.split option.split)

lemma after_RelayVote: "after s (snd (RelayVote L t s))"
proof -
  have "after s (s\<lparr>relay_votes := AList.update t q (relay_votes s)\<rparr>)" for q by (simp add: after_simps)
  then show ?thesis
    by (auto simp: RelayVote_def Let_def pop_all_eq split: option.split intro!: after_call_peer)
qed

lemma after_RelayBlock: "after s (snd (RelayBlock L t s))"
proof -
  have "after s (s\<lparr>relay_blocks := AList.update t q (relay_blocks s)\<rparr>)" for q by (simp add: after_simps)
  then have "after s (snd (call_peer t req (s\<lparr>relay_blocks := AList.update t q (relay_blocks s)\<rparr>)))" for req q
    by (rule after_call_peer)
  then have "after s s1" if "call_peer t req (s\<lparr>relay_blocks := AList.update t q (relay_blocks s)\<rparr>) = (r, s1)" for req q r s1
    using that by (metis snd_conv)
  then show ?thesis
    by (auto simp: RelayBlock_def Let_def after_simps split: prod.split option.split)
qed

lemma after_SPBcastCommit: "after s (snd (SPBcastCommit L now t s))"
proof -
  have "after s (s\<lparr>bcast_commit_blocks := AList.update t q (bcast_commit_blocks s)\<rparr>)" for q by (simp add: after_simps)
  then show ?thesis
    by (auto simp: SPBcastCommit_def Let_def split: prod.split option.split intro!: after_call_peer)
qed

lemma after_send_relay_block_sync: "after s (snd (send_relay_block_sync C k s))"
proof -
  have "after s (snd (foreach (RelayBlockSync k) ts s))" for ts
    by (rule after_foreach) (simp add: RelayBlockSync_def after_call_peer)
  then have "after s s1" if "foreach (RelayBlockSync k) ts s = (r, s1)" for ts r s1
    using that by (metis snd_conv)
  then show ?thesis by (auto simp: send_relay_block_sync_def split: prod.split option.split)
qed

lemma after_drain_sync: "after s (snd (drain_sync C s))"
proof (induction "length (pb_sync_queue s)" arbitrary: s)
  case 0
  then show ?case by (subst drain_sync.simps) simp
next
  case (Suc m)
  then obtain k q where q: "pb_sync_queue s = k # q" by (cases "pb_sync_queue s") auto
  let ?s1 = "snd (send_relay_block_sync C k (s\<lparr>pb_sync_queue := q\<rparr>))"
  have one: "after s ?s1"
    using after_trans [OF _ after_send_relay_block_sync, of s "s\<lparr>pb_sync_queue := q\<rparr>" C k] by simp
  moreover have "m = length (pb_sync_queue ?s1)"
    using Suc.hyps(2) q by (simp add: send_relay_block_sync_queue)
  then have "after ?s1 (snd (drain_sync C ?s1))" by (rule Suc.hyps(1))
  ultimately show ?case
    by (subst drain_sync.simps) (auto simp: q split: prod.split option.split intro: after_trans)
qed

lemma after_sends [moves_on]:
  "after s (snd (send_heartbeats C ok s))" "after s (snd (send_relay_votes L C s))"
  "after s (snd (send_relay_blocks L C s))" "after s (snd (bcast_commits L C clk s))"
proof -
  show "after s (snd (send_heartbeats C ok s))"
    unfolding send_heartbeats_def by (rule after_foreach) (rule after_SPHeartbeat)
  show "after s (snd (send_relay_votes L C s))"
    unfolding send_relay_votes_def by (rule after_foreach) (rule after_RelayVote)
  show "after s (snd (bcast_commits L C clk s))"
    unfolding bcast_commits_def by (rule after_foreach) (rule after_SPBcastCommit)
  have "after s (snd (foreach (RelayBlock L) ts s))" for ts
    by (rule after_foreach) (rule after_RelayBlock)
  then have "after s s1" if "foreach (RelayBlock L) ts s = (r, s1)" for ts r s1
    using that by (metis snd_conv)
  then show "after s (snd (send_relay_blocks L C s))"
    by (auto simp: send_relay_blocks_def split: prod.split option.split intro: after_trans [OF _ after_drain_sync])
qed

subsection \<open>Requests of peers\<close>

lemma after_commit_one: "after s (snd (commit_one L C clk j b s))"
  by (simp add: commit_one_def alloc_def Let_def after_simps split: option.split)

lemma after_handle_peer [moves_on]: "after s (snd (handle_peer B L C clk req s))"
proof -
  have "after s (snd (relay_vote_one C v s))" for v s
    by (simp add: relay_vote_one_def after_count_vote split: option.split sum.split)
  moreover have "after s (snd (relay_block_one b s))" for b s
    by (simp add: relay_block_one_effect)
  ultimately show ?thesis
    by (auto simp: handle_peer_def SPHeartbeat_handler_def RelayVote_handler_def RelayBlock_handler_def
        SPBcastCommit_handler_def RelayBlockSync_handler_def split: request.split
        intro!: after_decode after_commit_one)
qed

subsection \<open>What stays\<close>

lemma after_linked: "after s s' \<Longrightarrow> linked (peers_of C s) s \<Longrightarrow> linked (peers_of C s') s'"
  by (auto simp: after_def linked_def domIff subset_iff)

end
