(* ===== verification/TC_Network.thy ===== *)
theory TC_Network
  imports TC_Commit TC_Progress
begin

text \<open>
  The servers together. A state \<open>net\<close> gives the state of every server and the history of
  the blocks packed so far; one step is one operation of one server: a round of its
  packing thread (which \<open>schedule\<close> starts only on the server whose number is the number of
  servers), one round of a timer of \<open>schedule\<close>, a call of a client with arbitrary contents,
  or the arrival of a request that some server has sent to it. A request may arrive any
  number of times, late or never, so lost calls, retries and reordering are covered, and
  so is a call whose handler fails half way. The timers' calls that the code has commented
  out, the removal of dead blocks, are allowed as well. Here handlers and timers run one at a
  time; \<open>TC_Threads\<close> interleaves them.

  \<open>net_inv\<close> lifts the invariant of one server to the network. In every reachable state a
  committed block has at least as many votes, under different voter numbers, as there are
  clients, and was packed by the packing server; no two servers hold different contents
  under one block number; what is committed stays committed; and a block that all clients
  vote for can be committed everywhere.
\<close>

subsection \<open>States and steps\<close>

record net =
  nodes :: "u64 \<Rightarrow> server"
  packed :: "Block list"

abbreviation set_node :: "u64 \<Rightarrow> server \<Rightarrow> net \<Rightarrow> net" where
  "set_node i s N \<equiv> N\<lparr>nodes := (nodes N)(i := s)\<rparr>"

definition initial :: "keylib \<Rightarrow> conf \<Rightarrow> net" where
  "initial K C = \<lparr>nodes = (\<lambda>i. snd (start K (C\<lparr>cf_server_id := i\<rparr>) True new_server)), packed = []\<rparr>"

inductive net_step :: "'ss blslib \<Rightarrow> 'r flexlib \<Rightarrow> keylib \<Rightarrow> conf \<Rightarrow> net \<Rightarrow> net \<Rightarrow> bool"
  for B :: "'ss blslib" and L :: "'r flexlib" and K :: keylib and C :: conf where
  pack: "i = cf_server_count C \<Longrightarrow> visits_all ord \<Longrightarrow> s' = pack_round ord clk rng C (nodes N i) \<Longrightarrow>
    net_step B L K C N ((set_node i s' N)\<lparr>packed := packed N @ new_blocks (nodes N i) s'\<rparr>)"
| register: "net_step B L K C N (set_node i (snd (Register K client pkey (nodes N i))) N)"
| pull: "visits_all ord \<Longrightarrow>
    net_step B L K C N (set_node i (fst (snd (PullPendingBlocks L ord clk client (nodes N i)))) N)"
| vote: "net_step B L K C N (set_node i (snd (VoteBlocks B L C client voted (nodes N i))) N)"
| merge: "net_step B L K C N (set_node i (snd (merge_votes B L C clk (nodes N i))) N)"
| remove_dead: "visits_all ord \<Longrightarrow>
    net_step B L K C N (set_node i (snd (remove_dead_blocks ord clk C (nodes N i))) N)"
| heartbeats: "net_step B L K C N (set_node i (snd (send_heartbeats C status_ok (nodes N i))) N)"
| votes_out: "net_step B L K C N (set_node i (snd (send_relay_votes L C (nodes N i))) N)"
| blocks_out: "net_step B L K C N (set_node i (snd (send_relay_blocks L C (nodes N i))) N)"
| commits_out: "net_step B L K C N (set_node i (snd (bcast_commits L C clk (nodes N i))) N)"
| deliver: "(t, req) \<in> set (outbox (nodes N i)) \<Longrightarrow>
    net_step B L K C N (set_node t (snd (handle_peer B L C clk req (nodes N t))) N)"

abbreviation net_steps :: "'ss blslib \<Rightarrow> 'r flexlib \<Rightarrow> keylib \<Rightarrow> conf \<Rightarrow> net \<Rightarrow> net \<Rightarrow> bool" where
  "net_steps B L K C \<equiv> (net_step B L K C)\<^sup>*\<^sup>*"

inductive reachable :: "'ss blslib \<Rightarrow> 'r flexlib \<Rightarrow> keylib \<Rightarrow> conf \<Rightarrow> net \<Rightarrow> bool"
  for B :: "'ss blslib" and L :: "'r flexlib" and K :: keylib and C :: conf where
  start: "reachable B L K C (initial K C)"
| step: "reachable B L K C N \<Longrightarrow> net_step B L K C N N' \<Longrightarrow> reachable B L K C N'"

subsection \<open>The invariant\<close>

definition first_number :: "u64 \<Rightarrow> u64" where
  "first_number i = i * 1000000"

definition next_number :: "conf \<Rightarrow> net \<Rightarrow> u64 \<Rightarrow> u64" where
  "next_number C N i = first_number i + (if i = cf_server_count C then word_of_nat (length (packed N)) else 0)"

definition net_inv :: "'ss blslib \<Rightarrow> 'r flexlib \<Rightarrow> conf \<Rightarrow> net \<Rightarrow> bool" where
  "net_inv B L C N \<longleftrightarrow>
     (\<forall>i. server_inv B L (cf_client_count C) (core ` set (packed N)) (next_number C N i) (nodes N i)) \<and>
     (\<forall>m < length (packed N). block_id (packed N ! m) = first_number (cf_server_count C) + word_of_nat m)"

lemma init_client_profile_frame:
  assumes "chm_ok (clients s)"
  shows "\<exists>cs. snd (init_client_profile K C s) = s\<lparr>clients := cs\<rparr> \<and> chm_ok cs"
proof -
  have "\<exists>cs. snd (foreach (add_client K n sh) ks s) = s\<lparr>clients := cs\<rparr> \<and> chm_ok cs" for n sh ks
  proof (rule foreach_invariant [where I = "\<lambda>s'. \<exists>cs. s' = s\<lparr>clients := cs\<rparr> \<and> chm_ok cs"])
    show "\<exists>cs. s = s\<lparr>clients := cs\<rparr> \<and> chm_ok cs" using assms by (intro exI [of _ "clients s"]) simp
    show "\<exists>cs. snd (add_client K n sh x s') = s\<lparr>clients := cs\<rparr> \<and> chm_ok cs"
      if "\<exists>cs. s' = s\<lparr>clients := cs\<rparr> \<and> chm_ok cs" for x s'
      using that by (auto simp: add_client_def chm.invar_ins split: sum.split)
  qed
  moreover have "\<exists>cs. s = s\<lparr>clients := cs\<rparr> \<and> chm_ok cs" using assms by (intro exI [of _ "clients s"]) simp
  ultimately show ?thesis by (simp add: init_client_profile_def Let_def split: sum.split)
qed

lemma start_inv:
  "server_inv B L n {} (first_number i) (snd (start K (C\<lparr>cf_server_id := i\<rparr>) True new_server))"
proof -
  let ?C = "C\<lparr>cf_server_id := i\<rparr>"
  let ?s1 = "new_server\<lparr>server_id := i, blk_seq_generator := i * 1000000\<rparr>"
  have "chm_ok (clients ?s1)" by (simp add: new_server_def)
  then obtain cs where cs: "snd (init_client_profile K ?C ?s1) = ?s1\<lparr>clients := cs\<rparr>" "chm_ok cs"
    using init_client_profile_frame by blast
  have wf1: "server_wf (?s1\<lparr>clients := cs\<rparr>)"
    by (intro server_wf_clients cs(2)) (simp add: server_wf_new)
  have inv1: "server_inv B L n {} (first_number i) (?s1\<lparr>clients := cs\<rparr>)"
    using wf1 by (simp add: server_inv_def first_number_def decided_def new_server_def)
  moreover have "server_inv B L n {} (first_number i) (init_peer_stubs ?C (?s1\<lparr>clients := cs\<rparr>))"
    by (rule server_inv_frame [OF inv1 server_wf_init_peer_stubs [OF wf1]])
      (auto simp: init_peer_stubs_def Let_def decided_def peer_queues_lookup split: if_splits)
  ultimately show ?thesis
    using cs(1) unfolding start_def init_server_def Let_def
    by (auto split: prod.split option.split)
qed

lemma net_inv_initial: "net_inv B L C (initial K C)"
  by (simp add: net_inv_def initial_def start_inv next_number_def)

lemma net_inv_node:
  "net_inv B L C N \<Longrightarrow> server_inv B L (cf_client_count C) (core ` set (packed N)) (next_number C N i) (nodes N i)"
  by (simp add: net_inv_def)

lemma net_inv_set_node:
  assumes "net_inv B L C N"
    and "\<And>g. server_inv B L (cf_client_count C) (core ` set (packed N)) g (nodes N i) \<Longrightarrow>
      server_inv B L (cf_client_count C) (core ` set (packed N)) g s'"
  shows "net_inv B L C (set_node i s' N)"
proof -
  have "next_number C (set_node i s' N) = next_number C N" by (simp add: next_number_def fun_eq_iff)
  then show ?thesis using assms(1) assms(2) [OF net_inv_node [OF assms(1)]] by (simp add: net_inv_def)
qed

lemma net_inv_pack:
  assumes inv: "net_inv B L C N" and i: "i = cf_server_count C"
    and new: "\<And>g. server_inv B L (cf_client_count C) (core ` set (packed N)) g (nodes N i) \<Longrightarrow>
      packs B L (cf_client_count C) (core ` set (packed N)) g (nodes N i) s'"
  shows "net_inv B L C ((set_node i s' N)\<lparr>packed := packed N @ new_blocks (nodes N i) s'\<rparr>)"
proof -
  let ?nb = "new_blocks (nodes N i) s'" and ?g = "first_number i + word_of_nat (length (packed N))"
  let ?P = "core ` set (packed N)" and ?n = "cf_client_count C"
  have "server_inv B L ?n ?P ?g (nodes N i)"
    using net_inv_node [OF inv, of i] by (simp add: next_number_def i)
  from new [OF this] have
    here: "server_inv B L ?n (?P \<union> core ` set ?nb) (?g + word_of_nat (length ?nb)) s'"
    and nums: "\<And>j. j < length ?nb \<Longrightarrow> block_id (?nb ! j) = ?g + word_of_nat j"
    unfolding packs_def by blast+
  have there: "server_inv B L ?n (?P \<union> core ` set ?nb) (first_number j) (nodes N j)" if "j \<noteq> i" for j
  proof -
    have "server_inv B L ?n ?P (first_number j) (nodes N j)"
      using net_inv_node [OF inv, of j] that by (simp add: next_number_def i)
    then show ?thesis by (rule server_inv_mono) blast
  qed
  have "block_id ((packed N @ ?nb) ! m) = first_number i + word_of_nat m"
    if "m < length (packed N @ ?nb)" for m
  proof (cases "m < length (packed N)")
    case True
    then show ?thesis using inv i by (simp add: net_inv_def nth_append)
  next
    case False
    then have "block_id (?nb ! (m - length (packed N))) =
        first_number i + word_of_nat (length (packed N) + (m - length (packed N)))"
      using nums [of "m - length (packed N)"] that by (simp add: add.assoc)
    with False show ?thesis by (simp add: nth_append)
  qed
  then show ?thesis
    using here there by (auto simp: net_inv_def next_number_def i image_Un add.assoc)
qed

lemma net_inv_step:
  assumes "bls_ctor_spec B" and "flexlib_spec L" and "net_step B L K C N N'" and "net_inv B L C N"
  shows "net_inv B L C N'"
  using assms(3)
proof (cases rule: net_step.cases)
  case (pack i ord s' clk rng)
  then show ?thesis using net_inv_pack [OF assms(4) pack(2) pack_round_new] by simp
next
  case (deliver t req i clk)
  have "server_inv B L (cf_client_count C) (core ` set (packed N)) g s \<Longrightarrow>
      \<forall>m \<in> set (outbox s). req_ok B L (cf_client_count C) (core ` set (packed N)) (snd m)" for g s
    by (simp add: server_inv_def)
  then have "req_ok B L (cf_client_count C) (core ` set (packed N)) req"
    using net_inv_node [OF assms(4), of i] deliver(2) by fastforce
  then show ?thesis
    unfolding deliver(1) by (intro net_inv_set_node [OF assms(4)] server_inv_handle_peer [OF assms(1)])
qed (auto intro!: net_inv_set_node [OF assms(4)] server_inv_Register server_inv_PullPendingBlocks
    server_inv_VoteBlocks [OF assms(1)] server_inv_merge_votes server_inv_remove_dead_blocks
    server_inv_sends [OF assms(2)])

lemma net_inv_reachable:
  assumes "bls_ctor_spec B" and "flexlib_spec L" and "reachable B L K C N"
  shows "net_inv B L C N"
  using assms(3) by induction (simp_all add: net_inv_initial net_inv_step [OF assms(1,2)])

subsection \<open>What the invariant gives\<close>

lemma node_block:
  assumes "net_inv B L C N" and "a < length (heap (nodes N i))"
  obtains m where "m < length (packed N)" and "core (heap (nodes N i) ! a) = core (packed N ! m)"
proof -
  have "core (heap (nodes N i) ! a) \<in> core ` set (packed N)"
    using net_inv_node [OF assms(1), of i] assms(2) by (simp add: server_inv_def)
  then show ?thesis using that by (auto simp: in_set_conv_nth)
qed

lemma packed_numbers_unique:
  assumes "net_inv B L C N" and "length (packed N) \<le> 2 ^ 64" and "m < length (packed N)" "m' < length (packed N)"
    and "block_id (packed N ! m) = block_id (packed N ! m')"
  shows "m = m'"
proof -
  have num: "block_id (packed N ! x) = first_number (cf_server_count C) + word_of_nat x"
    if "x < length (packed N)" for x
    using assms(1) that unfolding net_inv_def by blast
  have "(word_of_nat m :: u64) = word_of_nat m'"
    using assms(5) unfolding num [OF assms(3)] num [OF assms(4)] by (rule add_left_imp_eq)
  moreover have "m < 2 ^ 64" "m' < 2 ^ 64" using assms(2-4) by (meson order_less_le_trans)+
  then have "unat (word_of_nat m :: u64) = m" "unat (word_of_nat m' :: u64) = m'"
    by (simp_all add: unat_of_nat)
  ultimately show ?thesis by metis
qed

lemma net_inv_agree:
  assumes inv: "net_inv B L C N" and "length (packed N) \<le> 2 ^ 64"
    and "a < length (heap (nodes N i))" and "b < length (heap (nodes N j))"
    and "block_id (heap (nodes N i) ! a) = block_id (heap (nodes N j) ! b)"
  shows "core (heap (nodes N i) ! a) = core (heap (nodes N j) ! b)"
proof -
  obtain m where m: "m < length (packed N)" "core (heap (nodes N i) ! a) = core (packed N ! m)"
    using node_block [OF inv assms(3)] .
  obtain m' where m': "m' < length (packed N)" "core (heap (nodes N j) ! b) = core (packed N ! m')"
    using node_block [OF inv assms(4)] .
  have "block_id (packed N ! m) = block_id (packed N ! m')"
    using m(2) m'(2) assms(5) by (simp add: core_def)
  with packed_numbers_unique [OF inv assms(2) m(1) m'(1)] m m' show ?thesis by simp
qed

lemma held_valid:
  assumes "net_inv B L C N"
    and "map_of (pending_blks (nodes N i)) k = Some a \<or> map_of (committed_blks (nodes N i)) k = Some a"
  shows "a < length (heap (nodes N i)) \<and> block_id (heap (nodes N i) ! a) = k"
  using server_inv_wf [OF net_inv_node [OF assms(1), of i]] assms(2)
  by (auto simp: server_wf_def keyed_def)

lemma packed_cores_unique:
  assumes "net_inv B L C N" and "length (packed N) \<le> 2 ^ 64" and "core b \<in> core ` set (packed N)"
    and "core b' \<in> core ` set (packed N)" and "block_id b = block_id b'"
  shows "core b = core b'"
proof -
  obtain m m' where m: "m < length (packed N)" "core b = core (packed N ! m)"
    and m': "m' < length (packed N)" "core b' = core (packed N ! m')"
    using assms(3,4) by (auto simp: in_set_conv_nth)
  moreover from this have "block_id (packed N ! m) = block_id (packed N ! m')" using assms(5) by (simp add: core_def)
  ultimately show ?thesis using packed_numbers_unique [OF assms(1,2) m(1) m'(1)] by simp
qed

lemma committed_quorum:
  assumes inv: "net_inv B L C N" and k: "map_of (committed_blks (nodes N i)) k = Some a"
  shows "a < length (heap (nodes N i))" and "block_id (heap (nodes N i) ! a) = k"
    and "unat (cf_client_count C) \<le> card (dom (map_of (votes (heap (nodes N i) ! a))))"
    and "core (heap (nodes N i) ! a) \<in> core ` set (packed N)"
proof -
  let ?s = "nodes N i"
  note here = net_inv_node [OF inv, of i]
  show a: "a < length (heap ?s)" and "block_id (heap ?s ! a) = k" using held_valid [OF inv] k by blast+
  then show "core (heap ?s ! a) \<in> core ` set (packed N)" using here by (simp add: server_inv_def)
  have "omap_ok (votes (heap ?s ! a))"
    using server_wf_heap_ok [OF server_inv_wf [OF here] a] by (simp add: Block_ok_def)
  then have "length (votes (heap ?s ! a)) = card (dom (map_of (votes (heap ?s ! a))))"
    by (intro length_card_dom omap_ok_distinct)
  moreover have "a \<in> decided ?s" using k by (auto simp: decided_def ran_def)
  then have "is_vote_enough (cf_client_count C) (heap ?s ! a)" using here by (simp add: server_inv_def)
  ultimately show "unat (cf_client_count C) \<le> card (dom (map_of (votes (heap ?s ! a))))"
    by (simp add: is_vote_enough_def)
qed

subsection \<open>What a step does not undo\<close>

lemma net_step_after: "net_step B L K C N N' \<Longrightarrow> after (nodes N i) (nodes N' i)"
  by (induction rule: net_step.induct) (auto intro: moves_on)

lemma net_step_packed: "net_step B L K C N N' \<Longrightarrow> \<exists>ps. packed N' = packed N @ ps"
  by (induction rule: net_step.induct) auto

lemma net_steps_after: "net_steps B L K C N N' \<Longrightarrow> after (nodes N i) (nodes N' i) \<and> (\<exists>ps. packed N' = packed N @ ps)"
proof (induction rule: rtranclp_induct)
  case (step N1 N2)
  then show ?case
    using net_step_after [OF step(2), of i] net_step_packed [OF step(2)] after_trans by fastforce
qed simp

lemma reachable_after: "reachable B L K C N \<Longrightarrow> after (nodes (initial K C) i) (nodes N i)"
  by (induction rule: reachable.induct) (auto intro: after_trans net_step_after)

text \<open>A server whose start-up succeeds and that knows an address of every peer is linked.\<close>

definition start_ok :: "keylib \<Rightarrow> conf \<Rightarrow> bool" where
  "start_ok K C \<longleftrightarrow> unat (cf_server_count C) \<le> length (cf_peer_addr C) \<and>
     (\<forall>i. fst (init_client_profile K C (new_server\<lparr>server_id := i, blk_seq_generator := i * 1000000\<rparr>)) = None)"

lemma stubs_lookup:
  "omap_ok m \<Longrightarrow> t \<noteq> self \<Longrightarrow> t \<in> fst ` set xs \<or> map_of m t \<noteq> None \<Longrightarrow>
   map_of (fold (\<lambda>(k, ad). if k = self then (\<lambda>m. m) else omap_insert k ad) xs m) t \<noteq> None"
proof (induction xs arbitrary: m)
  case (Cons x xs)
  obtain k ad where x: "x = (k, ad)" by fastforce
  let ?m = "if k = self then m else omap_insert k ad m"
  have "map_of (fold (\<lambda>(k, ad). if k = self then (\<lambda>m. m) else omap_insert k ad) xs ?m) t \<noteq> None"
    using Cons.prems by (intro Cons.IH) (auto simp: x omap.invar_ins omap.lookup_ins split: if_splits)
  then show ?case by (cases "k = self") (simp_all add: x)
qed simp

lemma addr_ids_keys:
  assumes "1 \<le> t" and "unat t \<le> length as"
  shows "t \<in> fst ` set (addr_ids as)"
proof -
  have "0 < unat t" using assms(1) by (simp add: word_le_nat_alt)
  then have "t = word_of_nat (Suc (unat t - 1))" by simp
  moreover have "unat t - 1 < length as" using assms(2) \<open>0 < unat t\<close> by simp
  ultimately show ?thesis
    unfolding addr_ids_def set_map [symmetric] by (simp only: map_fst_zip length_map length_upt) auto
qed

lemma initial_started:
  assumes "start_ok K C"
  shows "\<exists>cs. nodes (initial K C) i = init_peer_stubs (C\<lparr>cf_server_id := i\<rparr>)
    (new_server\<lparr>server_id := i, blk_seq_generator := i * 1000000, clients := cs\<rparr>)"
proof -
  let ?s = "new_server\<lparr>server_id := i, blk_seq_generator := i * 1000000\<rparr>"
  have same: "init_client_profile K (C\<lparr>cf_server_id := i\<rparr>) = init_client_profile K C"
    by (simp add: init_client_profile_def fun_eq_iff)
  obtain cs where "snd (init_client_profile K C ?s) = ?s\<lparr>clients := cs\<rparr>"
    using init_client_profile_frame [of ?s K C] by (auto simp: new_server_def)
  then have "init_client_profile K C ?s = (None, ?s\<lparr>clients := cs\<rparr>)"
    using assms by (simp add: start_ok_def prod_eq_iff)
  then show ?thesis by (auto simp: initial_def start_def init_server_def same)
qed

lemma initial_linked:
  assumes "start_ok K C"
  shows "server_id (nodes (initial K C) i) = i"
    and "linked (peers_of C (nodes (initial K C) i)) (nodes (initial K C) i)"
proof -
  let ?s = "\<lambda>cs. new_server\<lparr>server_id := i, blk_seq_generator := i * 1000000, clients := cs\<rparr>"
  obtain cs where init: "nodes (initial K C) i = init_peer_stubs (C\<lparr>cf_server_id := i\<rparr>) (?s cs)"
    using initial_started [OF assms] by blast
  then show id: "server_id (nodes (initial K C) i) = i" by (simp add: init_peer_stubs_def Let_def)
  have "map_of (peer_stubs (nodes (initial K C) i)) t \<noteq> None" if t: "t \<in> {1..cf_server_count C} - {i}" for t
  proof -
    have "unat t \<le> length (cf_peer_addr C)"
      using t assms by (auto simp: start_ok_def word_le_nat_alt)
    then have "t \<in> fst ` set (addr_ids (cf_peer_addr C))" using t by (intro addr_ids_keys) simp_all
    then show ?thesis
      using t stubs_lookup [of "[]" t i "addr_ids (cf_peer_addr C)"]
      by (simp add: init init_peer_stubs_def Let_def new_server_def)
  qed
  then show "linked (peers_of C (nodes (initial K C) i)) (nodes (initial K C) i)"
    unfolding id linked_def set_peer_ids
    by (auto simp: init init_peer_stubs_def Let_def peer_queues_lookup)
qed

lemma reachable_linked:
  assumes "start_ok K C" and "reachable B L K C N"
  shows "server_id (nodes N i) = i" and "linked (peers_of C (nodes N i)) (nodes N i)"
proof -
  have aft: "after (nodes (initial K C) i) (nodes N i)" using assms(2) by (rule reachable_after)
  with initial_linked(1) [OF assms(1), of i] show "server_id (nodes N i) = i" by (simp add: after_def)
  show "linked (peers_of C (nodes N i)) (nodes N i)"
    by (rule after_linked [OF aft initial_linked(2) [OF assms(1)]])
qed

lemma initial_status:
  assumes "start_ok K C"
  shows "length (peer_status (nodes (initial K C) i)) = unat (cf_server_count C)"
proof -
  obtain cs where "nodes (initial K C) i = init_peer_stubs (C\<lparr>cf_server_id := i\<rparr>)
      (new_server\<lparr>server_id := i, blk_seq_generator := i * 1000000, clients := cs\<rparr>)"
    using initial_started [OF assms(1)] by blast
  then show ?thesis by (simp add: init_peer_stubs_def Let_def)
qed

subsection \<open>Schedules\<close>

lemma reachable_steps: "net_steps B L K C N N' \<Longrightarrow> reachable B L K C N \<Longrightarrow> reachable B L K C N'"
  by (induction rule: rtranclp_induct) (blast intro: reachable.step)+

lemma vote_steps:
  "foreach (\<lambda>j. VoteBlocks B L C j (bs j)) cs s = (None, s') \<Longrightarrow>
     net_steps B L K C (set_node i s N) (set_node i s' N)"
proof (induction cs arbitrary: s)
  case (Cons j cs)
  then obtain s1 where s1: "VoteBlocks B L C j (bs j) s = (None, s1)"
    "foreach (\<lambda>j. VoteBlocks B L C j (bs j)) cs s1 = (None, s')"
    by (auto split: prod.splits option.splits)
  have "net_step B L K C (set_node i s N) (set_node i s1 N)"
    using net_step.vote [of B L K C "set_node i s N" i j "bs j"] s1(1) by simp
  then show ?case using Cons.IH [OF s1(2)] by (rule converse_rtranclp_into_rtranclp)
qed simp

lemma deliver_steps:
  assumes "\<forall>t \<in> set ts. \<exists>req. (t, req) \<in> set (outbox (nodes N i)) \<and> Q t (snd (handle_peer B L C clk req (nodes N t)))"
    and "distinct ts" and "i \<notin> set ts"
  shows "\<exists>N'. net_steps B L K C N N' \<and> packed N' = packed N \<and> (\<forall>j. j \<notin> set ts \<longrightarrow> nodes N' j = nodes N j) \<and> (\<forall>t \<in> set ts. Q t (nodes N' t))"
  using assms
proof (induction ts arbitrary: N)
  case (Cons t ts)
  then obtain req where req: "(t, req) \<in> set (outbox (nodes N i))" "Q t (snd (handle_peer B L C clk req (nodes N t)))"
    by auto
  let ?M = "set_node t (snd (handle_peer B L C clk req (nodes N t))) N"
  have same: "nodes ?M j = nodes N j" if "j \<noteq> t" for j using that by simp
  have "net_step B L K C N ?M" using req(1) by (rule net_step.deliver)
  moreover have "\<forall>u \<in> set ts. \<exists>req. (u, req) \<in> set (outbox (nodes ?M i)) \<and> Q u (snd (handle_peer B L C clk req (nodes ?M u)))"
    using Cons.prems by auto
  then have "\<exists>N'. net_steps B L K C ?M N' \<and> packed N' = packed ?M \<and> (\<forall>j. j \<notin> set ts \<longrightarrow> nodes N' j = nodes ?M j) \<and> (\<forall>u \<in> set ts. Q u (nodes N' u))"
    by (rule Cons.IH) (use Cons.prems in auto)
  then obtain N' where "net_steps B L K C ?M N'" "packed N' = packed ?M" "\<forall>j. j \<notin> set ts \<longrightarrow> nodes N' j = nodes ?M j" "\<forall>u \<in> set ts. Q u (nodes N' u)"
    by blast
  ultimately show ?case
    using req(2) Cons.prems(2) by (intro exI [of _ N']) (auto intro: converse_rtranclp_into_rtranclp)
qed auto

lemma commit_schedule:
  fixes v :: "u64 \<Rightarrow> BlockVote"
  assumes spec: "flexlib_spec L" and inv: "net_inv B L C N" and link: "server_id (nodes N i) = i" "linked (peers_of C (nodes N i)) (nodes N i)"
    and "poll B C k v blk cs" and "mergeable B (cf_client_count C) v (ucast ` set cs)"
    and "k \<notin> dead_block (nodes N i)" and "i \<in> responsible C k"
    and "map_of (pending_blks (nodes N i)) k = Some a" and "votes (heap (nodes N i) ! a) = []"
    and "pb_merge_queue (nodes N i) = []"
    and "\<forall>t \<in> set (peers_of C (nodes N i)). map_of (bcast_commit_blocks (nodes N i)) t = Some []"
  shows "\<exists>N' b. net_steps B L K C N N' \<and> packed N' = packed N \<and> core b = core (heap (nodes N i) ! a)
    \<and> (\<forall>j. map_of (votes b) j = (if j \<in> ucast ` set cs then Some (v j) else None))
    \<and> committed_as k b (nodes N' i)
    \<and> (\<forall>t \<in> set (peers_of C (nodes N i)). map_of (pending_blks (nodes N t)) k \<noteq> None \<longrightarrow> committed_as k b (nodes N' t))"
proof -
  let ?s = "nodes N i" and ?ts = "peers_of C (nodes N i)"
  have id: "server_id ?s \<in> responsible C k" using link(1) assms(8) by simp
  note round = commit_round [OF spec assms(5,6) net_inv_node [OF inv] link(2) assms(7) id assms(9-12)]
  obtain s1 s2 s3 b where
    run: "foreach (\<lambda>j. VoteBlocks B L C j [Block_to_bytes L (blk j)]) cs ?s = (None, s1)"
      "merge_votes B L C (\<lambda>i. 0) s1 = (None, s2)" "bcast_commits L C (\<lambda>t. 0) s2 = (None, s3)"
    and b: "core b = core (heap ?s ! a)"
      "\<forall>j. map_of (votes b) j = (if j \<in> ucast ` set cs then Some (v j) else None)" "committed_as k b s3"
    and peer: "\<forall>t \<in> set ?ts. \<exists>req. (t, req) \<in> set (outbox s3) \<and> (\<forall>clk' r. server_wf r \<longrightarrow>
        map_of (pending_blks r) k \<noteq> None \<longrightarrow> (\<exists>r'. handle_peer B L C clk' req r = (None, r') \<and> committed_as k b r'))"
    using round [of "\<lambda>i. 0" "\<lambda>t. 0"] by (elim exE conjE)
  let ?N3 = "set_node i s3 N"
  have "net_steps B L K C N (set_node i s1 N)"
    using vote_steps [OF run(1), where K = K and i = i and N = N] by simp
  moreover have "net_step B L K C (set_node i s1 N) (set_node i s2 N)"
    using net_step.merge [of B L K C "set_node i s1 N" i "\<lambda>i. 0"] run(2) by simp
  moreover have "net_step B L K C (set_node i s2 N) ?N3"
    using net_step.commits_out [of B L K C "set_node i s2 N" i "\<lambda>t. 0"] run(3) by simp
  ultimately have steps: "net_steps B L K C N ?N3" by (meson rtranclp.rtrancl_into_rtrancl)
  have other: "i \<notin> set ?ts" using link(1) by (simp add: set_peer_ids)
  let ?Q = "\<lambda>t r. map_of (pending_blks (nodes N t)) k \<noteq> None \<longrightarrow> committed_as k b r"
  have "\<forall>t \<in> set ?ts. \<exists>req. (t, req) \<in> set (outbox (nodes ?N3 i)) \<and>
      ?Q t (snd (handle_peer B L C (\<lambda>j. 0) req (nodes ?N3 t)))"
  proof
    fix t assume t: "t \<in> set ?ts"
    then obtain req where req: "(t, req) \<in> set (outbox s3)" "\<forall>clk' r. server_wf r \<longrightarrow>
        map_of (pending_blks r) k \<noteq> None \<longrightarrow> (\<exists>r'. handle_peer B L C clk' req r = (None, r') \<and> committed_as k b r')"
      using bspec [OF peer t] by (elim exE conjE)
    have "nodes ?N3 t = nodes N t" using t other by auto
    moreover have "?Q t (snd (handle_peer B L C (\<lambda>j. 0) req (nodes N t)))"
      using req(2) [rule_format, of "nodes N t" "\<lambda>j. 0"] server_inv_wf [OF net_inv_node [OF inv, of t]] by auto
    ultimately show "\<exists>req. (t, req) \<in> set (outbox (nodes ?N3 i)) \<and>
      ?Q t (snd (handle_peer B L C (\<lambda>j. 0) req (nodes ?N3 t)))" using req(1) by auto
  qed
  from deliver_steps [where Q = ?Q and K = K, OF this distinct_peer_ids other] obtain N' where
    N': "net_steps B L K C ?N3 N'" "packed N' = packed ?N3" "\<forall>j. j \<notin> set ?ts \<longrightarrow> nodes N' j = nodes ?N3 j"
      "\<forall>t \<in> set ?ts. ?Q t (nodes N' t)"
    by (elim exE conjE)
  have "nodes N' i = s3" using N'(3) other by simp
  then show ?thesis
    using rtranclp_trans [OF steps N'(1)] b N'(2,4)
    by (intro exI [of _ N'] exI [of _ b]) simp
qed

subsection \<open>A sample run\<close>

text \<open>
  Two servers and two clients: server 2 packs a block, relays it to server 1, and both
  clients vote for it at server 2, which merges the votes. At the end server 2 has committed
  the block and server 1 still holds it as pending.
\<close>

definition run_start :: net where
  "run_start = initial sample_keys (sample_conf 2)"

definition run_packed :: server where
  "run_packed = pack_round (\<lambda>ps. ps) (\<lambda>i. 9) (\<lambda>k. word_of_nat (k + 1)) (sample_conf 2) (nodes run_start 2)"

definition run_block :: Block where
  "run_block = (mk_Block 2000000 0xDEADBEEF 9)\<lparr>tx_vec := [mk_Transaction 1 2 3 0 4, mk_Transaction 5 6 7 0 8]\<rparr>"

lemma run_started:
  "pending_blks (nodes run_start 2) = []" "pending_txs (nodes run_start 2) = []"
  "heap (nodes run_start 2) = []" "blk_seq_generator (nodes run_start 2) = 2000000"
  "relay_blocks (nodes run_start 2) = [(1, [])]" "server_id (nodes run_start 2) = 2"
  apply (simp_all add: run_start_def initial_def start_def init_server_def Let_def init_client_profile_def sample_keys_def
    sample_conf_def add_client_def mk_client_def upt_rec init_peer_stubs_def peer_queues_def peer_ids_2 new_server_def)
  done

lemma run_packed_eq:
  "run_packed = (nodes run_start 2)
     \<lparr>pending_txs := [(9, mk_Transaction 9 10 11 0 12)], heap := [run_block], blk_seq_generator := 2000001,
      relay_blocks := [(1, [0])], pending_blks := [(2000000, 0)]\<rparr>"
proof -
  have "unat (word_of_int INT_MAX :: u64) = Suc (Suc 2147483645)" by (simp add: INT_MAX_def)
  then obtain m where fuel: "unat (word_of_int INT_MAX :: u64) = Suc (Suc m)" by blast
  have two: "\<not> (2 :: u64) \<le> 1" by (simp add: word_le_nat_alt)
  show ?thesis
    unfolding run_packed_def pack_round_def pack_block_def fuel
    by (simp add: two run_started sample_conf_def generate_tx_def upt_rec random_tx_def pack_one_def
        alloc_def run_block_def mk_Transaction_def chm_insert_def chm_assign_def chm_erase_def push_all_def push_def)
qed


lemma run_linked:
  "peer_stubs (nodes run_start 2) = [(1, ''a'')]" "relay_votes (nodes run_start 2) = [(1, [])]"
  "bcast_commit_blocks (nodes run_start 2) = [(1, [])]" "outbox (nodes run_start 2) = []"
  "pb_sync_queue (nodes run_start 2) = []" "pb_sync_labels (nodes run_start 2) = {}"
  "pb_merge_queue (nodes run_start 2) = []" "dead_block (nodes run_start 2) = {}"
  "heap (nodes run_start 1) = []" "pending_blks (nodes run_start 1) = []"
  by (simp_all add: run_start_def initial_def start_def init_server_def Let_def init_client_profile_def
      sample_keys_def sample_conf_def add_client_def mk_client_def upt_rec init_peer_stubs_def peer_queues_def
      peer_ids_2 new_server_def addr_ids_def)

definition run_relayed :: server where
  "run_relayed = run_packed\<lparr>relay_blocks := [(1, [])], pb_sync_queue := [],
     outbox := [(1, RelayBlockRequest 2 [Block_to_bytes ref_flex run_block]), (1, RelayBlockSyncRequest 2 2000000)],
     pb_sync_labels := {2000000}\<rparr>"

lemma run_block_id: "block_id run_block = 2000000" "votes run_block = []"
  by (simp_all add: run_block_def entity_defs)

lemma run_relay: "send_relay_blocks ref_flex (sample_conf 2) run_packed = (None, run_relayed)"
  by (simp add: send_relay_blocks_def run_relayed_def run_packed_eq run_started run_linked peer_ids_2 RelayBlock_def
      deref_def call_peer_def push_def drain_sync.simps send_relay_block_sync_def RelayBlockSync_def run_block_id)

definition run_vote :: "u64 \<Rightarrow> Block" where
  "run_vote i = Block_add_vote i (sample_vote 2000000 i) run_block"

lemma run_poll: "poll ref_bls (sample_conf 2) 2000000 (sample_vote 2000000) (\<lambda>i. run_vote (ucast i)) [2, 1]"
  by (simp add: poll_def sample_vote_ok INT_MAX_def ballot_def run_vote_def sendable_def block_shares_ok_def
    Block_add_vote_def Block_ok_def run_block_def entity_defs)


lemma run_block_sendable: "sendable ref_bls run_block"
  by (simp add: sendable_def block_shares_ok_def Block_ok_def run_block_id)

lemma run_block_stripped: "run_block\<lparr>tss_sig := None\<rparr> = run_block"
  by (simp add: run_block_def entity_defs)

text \<open>The state after the block has been packed, sent and received.\<close>

definition run_both :: net where
  "run_both = run_start\<lparr>packed := [run_block],
     nodes := (nodes run_start)(2 := run_relayed, 1 := snd (relay_block_one run_block (nodes run_start 1)))\<rparr>"

lemma run_start_reachable: "reachable ref_bls ref_flex sample_keys (sample_conf 2) run_start"
  unfolding run_start_def by (rule reachable.start)

lemma run_pack_step:
  "net_step ref_bls ref_flex sample_keys (sample_conf 2) run_start ((set_node 2 run_packed run_start)\<lparr>packed := [run_block]\<rparr>)"
proof -
  have "visits_all (\<lambda>ps. ps)" by (simp add: visits_all_def)
  moreover have "packed run_start @ new_blocks (nodes run_start 2) run_packed = [run_block]"
    by (simp add: new_blocks_def run_packed_eq run_started) (simp add: run_start_def initial_def)
  ultimately show ?thesis
    using net_step.pack [of 2 "sample_conf 2" "\<lambda>ps. ps" run_packed "\<lambda>i. 9" "\<lambda>k. word_of_nat (k + 1)" run_start ref_bls ref_flex sample_keys]
    by (simp add: run_packed_def)
qed

lemma run_both_reachable: "reachable ref_bls ref_flex sample_keys (sample_conf 2) run_both"
proof -
  let ?C = "sample_conf 2"
  let ?N1 = "(set_node 2 run_packed run_start)\<lparr>packed := [run_block]\<rparr>"
  let ?N2 = "set_node 2 run_relayed ?N1"
  have 2: "net_step ref_bls ref_flex sample_keys ?C ?N1 ?N2"
    using net_step.blocks_out [of ref_bls ref_flex sample_keys ?C ?N1 2] by (simp add: run_relay)
  have "(1, RelayBlockRequest 2 [Block_to_bytes ref_flex run_block]) \<in> set (outbox (nodes ?N2 2))"
    by (simp add: run_relayed_def)
  note net_step.deliver [OF this, of ref_bls ref_flex sample_keys ?C "\<lambda>j. 0"]
  moreover have "handle_peer ref_bls ref_flex ?C (\<lambda>j. 0) (RelayBlockRequest 2 [Block_to_bytes ref_flex run_block]) r =
      relay_block_one run_block r" for r
    using handle_block_post(1) [OF ref_flex_spec, of "[run_block]" ref_bls] run_block_sendable
    by (simp add: run_block_stripped foreach_single del: foreach.simps)
  ultimately have 3: "net_step ref_bls ref_flex sample_keys ?C ?N2 run_both"
    by (simp add: run_both_def)
  from run_start_reachable run_pack_step 2 3 show ?thesis by (blast intro: reachable.step)
qed


lemma run_both_facts:
  "nodes run_both 2 = run_relayed" "packed run_both = [run_block]"
  "map_of (pending_blks (nodes run_both 1)) 2000000 = Some 0"
  by (simp_all add: run_both_def relay_block_one_effect run_linked run_block_id chm_assign_def)

lemma run_both_peers: "peers_of (sample_conf 2) (nodes run_both 2) = [1]"
  by (simp add: run_both_facts run_relayed_def run_packed_eq run_started peer_ids_2)

lemma run_both_ready:
  "2000000 \<notin> dead_block (nodes run_both 2)" "2 \<in> responsible (sample_conf 2) 2000000"
  "map_of (pending_blks (nodes run_both 2)) 2000000 = Some 0" "votes (heap (nodes run_both 2) ! 0) = []"
  "pb_merge_queue (nodes run_both 2) = []"
  "\<forall>t \<in> set (peers_of (sample_conf 2) (nodes run_both 2)). map_of (bcast_commit_blocks (nodes run_both 2)) t = Some []"
  unfolding run_both_peers
  by (simp_all add: run_both_facts run_relayed_def run_packed_eq run_started run_linked run_block_id linked_def)

lemma sample_start_ok: "start_ok sample_keys (sample_conf 2)"
  by (simp add: start_ok_def sample_conf_def init_client_profile_def sample_keys_def add_client_def mk_client_def upt_rec)

lemma bls_ctor_ref: "bls_ctor_spec ref_bls"
  by (simp add: bls_ctor_spec_def ref_bls_def)

lemma run_end:
  "\<exists>N b. reachable ref_bls ref_flex sample_keys (sample_conf 2) N \<and> packed N = [run_block] \<and>
     committed_as 2000000 b (nodes N 2) \<and> committed_as 2000000 b (nodes N 1)"
proof -
  obtain N b where "net_steps ref_bls ref_flex sample_keys (sample_conf 2) run_both N" "packed N = packed run_both"
    "committed_as 2000000 b (nodes N 2)"
    "\<forall>t \<in> set (peers_of (sample_conf 2) (nodes run_both 2)).
        map_of (pending_blks (nodes run_both t)) 2000000 \<noteq> None \<longrightarrow> committed_as 2000000 b (nodes N t)"
    using commit_schedule [where K = sample_keys, OF ref_flex_spec net_inv_reachable [OF bls_ctor_ref ref_flex_spec run_both_reachable]
      reachable_linked [OF sample_start_ok run_both_reachable] run_poll
        sample_mergeable run_both_ready] by (elim exE conjE)
  moreover from this have "committed_as 2000000 b (nodes N 1)"
    unfolding run_both_peers by (simp add: run_both_facts)
  ultimately show ?thesis
    using reachable_steps [OF _ run_both_reachable] run_both_facts(2) by (intro exI [of _ N] exI [of _ b]) simp
qed

end
