(* ===== verification/TC_Actions.thy ===== *)
theory TC_Actions
  imports TC_Network
begin

text \<open>
  The handlers and timers of a server as sequences of atomic actions. gRPC runs every handler
  call in a thread of its own, and every timer of \<open>schedule\<close> fires in a thread of its own
  (the timer library starts one), all on one \<open>TcServer\<close>. What one thread does without any other
  interfering is one access to a shared container: a section during which an accessor of
  \<open>pending_blks\<close> is held (find, insert the vote, count, erase), one \<open>push\<close> or \<open>try_pop\<close> of a
  concurrent queue, one insertion into a concurrent set, one copy of \<open>pending_blks\<close> under the
  unique lock, one call to a peer.

  An action is such an access, with what the thread keeps in local variables as its arguments.
  \<open>run\<close> executes an action and returns the actions the thread does next, or the exception that
  ends the thread. \<open>runs\<close> executes a list of actions with no other thread in between; the
  lemmas of this theory show that each handler and timer of the previous theories is what
  \<open>runs\<close> does of the actions of its code. \<open>TC_Threads\<close> interleaves them.
\<close>

type_synonym pb_order = "(u64 \<times> addr) list \<Rightarrow> (u64 \<times> addr) list"
type_synonym tx_order = "(u64 \<times> Transaction) list \<Rightarrow> (u64 \<times> Transaction) list"
type_synonym 'c progress = "'c list res \<times> server"

definition finish :: "server outcome \<Rightarrow> 'c progress" where
  "finish r = (case r of (None, s) \<Rightarrow> (Inr [], s) | (Some e, s) \<Rightarrow> (Inl e, s))"

subsection \<open>Calls of clients\<close>

datatype client_action =
    RegisterClient u32 bytes
  | PullStart pb_order "u64 \<Rightarrow> u64" u32
  | PullItem u64 u64 u64 addr
  | PullOffer u64 u64 addr
  | VoteItem u32 bytes
  | PushVote BlockVote u64
  | CountVote u64 BlockVote u64

definition run_register :: "keylib \<Rightarrow> u32 \<Rightarrow> bytes \<Rightarrow> server \<Rightarrow> client_action progress" where
  "run_register K client pkey s =
     (case Register K client pkey s of
        (Inl e, s') \<Rightarrow> (Inl e, s')
      | (Inr r, s') \<Rightarrow> (Inr [], s'))"

definition run_pull_item :: "u64 \<Rightarrow> u64 \<Rightarrow> u64 \<Rightarrow> addr \<Rightarrow> server \<Rightarrow> client_action progress" where
  "run_pull_item client now k a s =
     (if k \<notin> pb_sync_labels s then (Inr [], s)
      else (case map_of (clients s) client of
              None \<Rightarrow> (Inl NullDeref, s)
            | Some cp \<Rightarrow>
                (case deref s a of
                   Inl e \<Rightarrow> (Inl e, s)
                 | Inr blk \<Rightarrow>
                     if map_of (cl_seen_blocks cp) (block_id blk) \<noteq> None then (Inr [], s)
                     else (Inr [PullOffer client now a], s))))"

definition run_pull_offer :: "u64 \<Rightarrow> u64 \<Rightarrow> addr \<Rightarrow> server \<Rightarrow> client_action progress" where
  "run_pull_offer client now a s =
     (case map_of (clients s) client of
        None \<Rightarrow> (Inl NullDeref, s)
      | Some cp \<Rightarrow>
          (case deref s a of
             Inl e \<Rightarrow> (Inl e, s)
           | Inr blk \<Rightarrow> (Inr [], set_dist_ts now a blk (see_block client cp blk s))))"

definition run_vote_item :: "'ss blslib \<Rightarrow> 'r flexlib \<Rightarrow> conf \<Rightarrow> u32 \<Rightarrow> bytes \<Rightarrow> server \<Rightarrow> client_action progress" where
  "run_vote_item B L C client voted s =
     (case Block_from_bytes B L voted of
        Inl e \<Rightarrow> (Inl e, s)
      | Inr block \<Rightarrow>
          (case map_of (votes block) (ucast client) of
             None \<Rightarrow> (Inr [], s)
           | Some vote \<Rightarrow>
               if block_id block \<in> dead_block s then (Inr [], s)
               else (case get_server_id block (cf_server_count C) of
                       Inl e \<Rightarrow> (Inl e, s)
                     | Inr targets \<Rightarrow>
                         if server_id s \<notin> set targets then (Inr (map (PushVote vote) targets), s)
                         else (Inr (map (PushVote vote) (filter (\<lambda>t. t \<noteq> server_id s) targets) @
                                    [CountVote (ucast client) vote (block_id block)]), s))))"

fun run_client ::
  "'ss blslib \<Rightarrow> 'r flexlib \<Rightarrow> keylib \<Rightarrow> conf \<Rightarrow> client_action \<Rightarrow> server \<Rightarrow> client_action progress" where
  "run_client B L K C (RegisterClient client pkey) s = run_register K client pkey s"
| "run_client B L K C (PullStart ord clk client) s =
     (Inr (map (\<lambda>(k, a). PullItem (ucast client) (clk k) k a) (ord (pending_blks s))), s)"
| "run_client B L K C (PullItem client now k a) s = run_pull_item client now k a s"
| "run_client B L K C (PullOffer client now a) s = run_pull_offer client now a s"
| "run_client B L K C (VoteItem client voted) s = run_vote_item B L C client voted s"
| "run_client B L K C (PushVote vote target) s = finish (relay_vote_to vote target s)"
| "run_client B L K C (CountVote voter vote k) s = finish (count_vote C voter vote k s)"

subsection \<open>Calls of peers\<close>

datatype peer_action =
    RelayVoteItem bytes
  | RelayVoteCount BlockVote
  | RelayBlockItem bytes
  | CommitItem "nat \<Rightarrow> u64" nat bytes
  | SyncLabel u64

definition run_relayed_vote :: "conf \<Rightarrow> BlockVote \<Rightarrow> server \<Rightarrow> peer_action progress" where
  "run_relayed_vote C vote s =
     (case map_of (pending_blks s) (vote_block_id vote) of
        None \<Rightarrow> (Inr [], s)
      | Some a \<Rightarrow>
          (case deref s a of
             Inl e \<Rightarrow> (Inl AssertFailed, s)
           | Inr b \<Rightarrow> finish (count_vote C (vote_voter_id vote) vote (vote_block_id vote) s)))"

fun run_peer :: "'ss blslib \<Rightarrow> 'r flexlib \<Rightarrow> conf \<Rightarrow> peer_action \<Rightarrow> server \<Rightarrow> peer_action progress" where
  "run_peer B L C (RelayVoteItem rv) s =
     (case BlockVote_from_bytes B L rv of
        Inl e \<Rightarrow> (Inl e, s)
      | Inr vote \<Rightarrow> (Inr (if vote_block_id vote \<in> dead_block s then [] else [RelayVoteCount vote]), s))"
| "run_peer B L C (RelayVoteCount vote) s = run_relayed_vote C vote s"
| "run_peer B L C (RelayBlockItem bs) s =
     (case Block_from_bytes B L bs of
        Inl e \<Rightarrow> (Inl e, s)
      | Inr block \<Rightarrow> finish (relay_block_one block s))"
| "run_peer B L C (CommitItem clk j bs) s =
     (case Block_from_bytes B L bs of
        Inl e \<Rightarrow> (Inl e, s)
      | Inr block \<Rightarrow> finish (commit_one L C clk j block s))"
| "run_peer B L C (SyncLabel k) s = finish (RelayBlockSync_handler k s)"

definition peer_actions :: "(nat \<Rightarrow> u64) \<Rightarrow> request \<Rightarrow> peer_action list" where
  "peer_actions clk req =
     (case req of
        SPHeartbeatRequest peer_id \<Rightarrow> []
      | RelayVoteRequest peer_id vs \<Rightarrow> map RelayVoteItem vs
      | RelayBlockRequest peer_id bs \<Rightarrow> map RelayBlockItem bs
      | SPBcastCommitRequest peer_id bs timestamp \<Rightarrow> map (\<lambda>(j, b). CommitItem clk j b) (enumerate 0 bs)
      | RelayBlockSyncRequest peer_id k \<Rightarrow> [SyncLabel k])"

subsection \<open>Senders\<close>

datatype sender_action =
    CallPeer u64 request
  | StoreStatus u64 bool
  | SendVotes u64 "bytes list"
  | SendBlocks u64 "bytes list" "u64 list"
  | EnqueueSync u64
  | SendCommits u64 u64 "bytes list"
  | SyncNext
  | SignalLocal u64

definition run_status :: "u64 \<Rightarrow> bool \<Rightarrow> server \<Rightarrow> sender_action progress" where
  "run_status target status_ok s =
     (let ix = unat (target - 1)
      in if ix < length (peer_status s)
         then (Inr [], s\<lparr>peer_status := (peer_status s)[ix := status_ok]\<rparr>)
         else (Inl OutOfRange, s))"

definition run_send_votes :: "'r flexlib \<Rightarrow> u64 \<Rightarrow> bytes list \<Rightarrow> server \<Rightarrow> sender_action progress" where
  "run_send_votes L target added s =
     (case map_of (relay_votes s) target of
        None \<Rightarrow> (Inl NullDeref, s)
      | Some q \<Rightarrow>
          (case try_pop q of
             Some (vote, q') \<Rightarrow>
               (Inr [SendVotes target (added @ [BlockVote_to_bytes L vote])],
                s\<lparr>relay_votes := AList.update target q' (relay_votes s)\<rparr>)
           | None \<Rightarrow>
               (Inr (if added = [] then [] else [CallPeer target (RelayVoteRequest (ucast (server_id s)) added)]), s)))"

definition run_send_blocks :: "'r flexlib \<Rightarrow> u64 \<Rightarrow> bytes list \<Rightarrow> u64 list \<Rightarrow> server \<Rightarrow> sender_action progress" where
  "run_send_blocks L target added ids s =
     (case map_of (relay_blocks s) target of
        None \<Rightarrow> (Inl NullDeref, s)
      | Some q \<Rightarrow>
          (case try_pop q of
             Some (a, q') \<Rightarrow>
               let s1 = s\<lparr>relay_blocks := AList.update target q' (relay_blocks s)\<rparr>
               in (case deref s1 a of
                     Inl e \<Rightarrow> (Inl e, s1)
                   | Inr b \<Rightarrow> (Inr [SendBlocks target (added @ [Block_to_bytes L b]) (ids @ [block_id b])], s1))
           | None \<Rightarrow>
               (Inr (if added = [] then []
                     else CallPeer target (RelayBlockRequest (ucast (server_id s)) added) # map EnqueueSync ids), s)))"

definition run_send_commits :: "'r flexlib \<Rightarrow> u64 \<Rightarrow> u64 \<Rightarrow> bytes list \<Rightarrow> server \<Rightarrow> sender_action progress" where
  "run_send_commits L now target added s =
     (case map_of (bcast_commit_blocks s) target of
        None \<Rightarrow> (Inl NullDeref, s)
      | Some q \<Rightarrow>
          (case try_pop q of
             Some (a, q') \<Rightarrow>
               let s1 = s\<lparr>bcast_commit_blocks := AList.update target q' (bcast_commit_blocks s)\<rparr>
               in (case deref s1 a of
                     Inl e \<Rightarrow> (Inl ProcessExit, s1)
                   | Inr b \<Rightarrow> (Inr [SendCommits now target (added @ [Block_to_bytes L b])], s1))
           | None \<Rightarrow>
               (Inr (if added = [] then []
                     else [CallPeer target (SPBcastCommitRequest (ucast (server_id s)) added now)]), s)))"

definition run_sync_next :: "conf \<Rightarrow> server \<Rightarrow> sender_action progress" where
  "run_sync_next C s =
     (case try_pop (pb_sync_queue s) of
        None \<Rightarrow> (Inr [], s)
      | Some (k, q) \<Rightarrow>
          (Inr (map (\<lambda>t. CallPeer t (RelayBlockSyncRequest (ucast (server_id s)) k)) (peers_of C s) @
                [SignalLocal k, SyncNext]),
           s\<lparr>pb_sync_queue := q\<rparr>))"

fun run_sender :: "'r flexlib \<Rightarrow> conf \<Rightarrow> sender_action \<Rightarrow> server \<Rightarrow> sender_action progress" where
  "run_sender L C (CallPeer target req) s = finish (call_peer target req s)"
| "run_sender L C (StoreStatus target status_ok) s = run_status target status_ok s"
| "run_sender L C (SendVotes target added) s = run_send_votes L target added s"
| "run_sender L C (SendBlocks target added ids) s = run_send_blocks L target added ids s"
| "run_sender L C (EnqueueSync k) s = (Inr [], s\<lparr>pb_sync_queue := push k (pb_sync_queue s)\<rparr>)"
| "run_sender L C (SendCommits now target added) s = run_send_commits L now target added s"
| "run_sender L C SyncNext s = run_sync_next C s"
| "run_sender L C (SignalLocal k) s = (Inr [], s\<lparr>pb_sync_labels := insert k (pb_sync_labels s)\<rparr>)"

definition heartbeat_actions :: "conf \<Rightarrow> (u64 \<Rightarrow> bool) \<Rightarrow> server \<Rightarrow> sender_action list" where
  "heartbeat_actions C status_ok s =
     concat (map (\<lambda>t. [CallPeer t (SPHeartbeatRequest (ucast (server_id s))), StoreStatus t (status_ok t)]) (peers_of C s))"

definition vote_actions :: "conf \<Rightarrow> server \<Rightarrow> sender_action list" where
  "vote_actions C s = map (\<lambda>t. SendVotes t []) (peers_of C s)"

definition block_actions :: "conf \<Rightarrow> server \<Rightarrow> sender_action list" where
  "block_actions C s = map (\<lambda>t. SendBlocks t [] []) (peers_of C s) @ [SyncNext]"

definition commit_actions :: "conf \<Rightarrow> (u64 \<Rightarrow> u64) \<Rightarrow> server \<Rightarrow> sender_action list" where
  "commit_actions C clk s = map (\<lambda>t. SendCommits (clk t) t []) (peers_of C s)"

subsection \<open>Timers\<close>

datatype timer_action =
    MergeTake "nat \<Rightarrow> u64"
  | MergeBlock u64 addr
  | MergeInsert addr
  | MergePut addr
  | MergePush addr nat
  | DeadStart pb_order "u64 \<Rightarrow> u64"
  | DeadItem u64 u64
  | PackStart tx_order "nat \<Rightarrow> u64" "nat \<Rightarrow> u64"
  | GenerateTx "nat \<Rightarrow> u64"
  | PackNext tx_order "nat \<Rightarrow> u64" nat
  | PackPush addr nat
  | PackInsert u64 addr
  | PackErase "u64 list"

text \<open>One iteration of \<open>for (iter = m.begin(); iter != m.end(); iter++) iter->second->push(x)\<close>.\<close>

definition push_nth :: "'a \<Rightarrow> nat \<Rightarrow> ('k \<times> 'a list) list \<Rightarrow> ('k \<times> 'a list) list" where
  "push_nth x j qs = qs[j := (fst (qs ! j), push x (snd (qs ! j)))]"

definition run_merge_take :: "(nat \<Rightarrow> u64) \<Rightarrow> server \<Rightarrow> timer_action progress" where
  "run_merge_take clk s =
     (case try_pop (pb_merge_queue s) of
        None \<Rightarrow> (Inr [], s)
      | Some (a, q) \<Rightarrow>
          (Inr [MergeBlock (clk 0) a, MergeInsert a, MergePut a, MergePush a 0, MergeTake (\<lambda>i. clk (Suc i))],
           s\<lparr>pb_merge_queue := q\<rparr>))"

definition run_merge_block :: "'ss blslib \<Rightarrow> conf \<Rightarrow> u64 \<Rightarrow> addr \<Rightarrow> server \<Rightarrow> timer_action progress" where
  "run_merge_block B C now a s =
     (case bindr (deref s a) (Block_merge_votes B (cf_client_count C)) of
        Inl e \<Rightarrow> (Inl e, s)
      | Inr b \<Rightarrow>
          (Inr [], write_block a (b\<lparr>header := (header b)\<lparr>hdr_commit_ts := now, hdr_recv_ts := now\<rparr>\<rparr>) s))"

definition run_merge_insert :: "addr \<Rightarrow> server \<Rightarrow> timer_action progress" where
  "run_merge_insert a s =
     (case deref s a of
        Inl e \<Rightarrow> (Inl e, s)
      | Inr b \<Rightarrow> (Inr [], s\<lparr>committed_blks := chm_assign (block_id b) a (committed_blks s)\<rparr>))"

definition run_merge_put :: "'r flexlib \<Rightarrow> addr \<Rightarrow> server \<Rightarrow> timer_action progress" where
  "run_merge_put L a s =
     (case deref s a of
        Inl e \<Rightarrow> (Inl e, s)
      | Inr b \<Rightarrow> (Inr [], s\<lparr>db_puts := db_puts s @ [(block_name (block_id b), Block_to_bytes L b)]\<rparr>))"

definition run_merge_push :: "addr \<Rightarrow> nat \<Rightarrow> server \<Rightarrow> timer_action progress" where
  "run_merge_push a j s =
     (if j < length (bcast_commit_blocks s)
      then (Inr [MergePush a (Suc j)], s\<lparr>bcast_commit_blocks := push_nth a j (bcast_commit_blocks s)\<rparr>)
      else (Inr [], s))"

definition run_dead_start :: "pb_order \<Rightarrow> (u64 \<Rightarrow> u64) \<Rightarrow> server \<Rightarrow> timer_action progress" where
  "run_dead_start ord clk s =
     (case mapr (\<lambda>(k, a). bindr (deref s a) (\<lambda>b. Inr (block_id b))) (ord (pending_blks s)) of
        Inl e \<Rightarrow> (Inl e, s)
      | Inr block_id_list \<Rightarrow> (Inr (map (\<lambda>i. DeadItem (clk i) i) block_id_list), s))"

definition run_pack_start :: "tx_order \<Rightarrow> (nat \<Rightarrow> u64) \<Rightarrow> (nat \<Rightarrow> u64) \<Rightarrow> conf \<Rightarrow> server \<Rightarrow> timer_action progress" where
  "run_pack_start ord clk rng C s =
     (Inr ((if length (pending_blks s) < unat (cf_pb_pool_limit C) then [GenerateTx rng] else []) @
           [PackNext ord clk (unat (word_of_int INT_MAX :: u64))]), s)"

definition run_pack_next :: "tx_order \<Rightarrow> (nat \<Rightarrow> u64) \<Rightarrow> u64 \<Rightarrow> nat \<Rightarrow> server \<Rightarrow> timer_action progress" where
  "run_pack_next ord clk num_tx m s =
     (case m of
        0 \<Rightarrow> (Inr [], s)
      | Suc n \<Rightarrow>
          if unat num_tx \<le> length (pending_txs s)
          then let block_id = blk_seq_generator s;
                   taken = extract_txs num_tx 0 (ord (pending_txs s));
                   new_block = (mk_Block block_id 0xDEADBEEF (clk 0))\<lparr>tx_vec := map snd taken\<rparr>;
                   (a, s1) = alloc new_block (s\<lparr>blk_seq_generator := blk_seq_generator s + 1\<rparr>)
               in (Inr [PackPush a 0, PackInsert block_id a, PackErase (map fst taken),
                        PackNext ord (\<lambda>i. clk (Suc i)) n], s1)
          else (Inr [], s))"

definition run_pack_push :: "addr \<Rightarrow> nat \<Rightarrow> server \<Rightarrow> timer_action progress" where
  "run_pack_push a j s =
     (if j < length (relay_blocks s)
      then (Inr [PackPush a (Suc j)], s\<lparr>relay_blocks := push_nth a j (relay_blocks s)\<rparr>)
      else (Inr [], s))"

fun run_timer :: "'ss blslib \<Rightarrow> 'r flexlib \<Rightarrow> conf \<Rightarrow> timer_action \<Rightarrow> server \<Rightarrow> timer_action progress" where
  "run_timer B L C (MergeTake clk) s = run_merge_take clk s"
| "run_timer B L C (MergeBlock now a) s = run_merge_block B C now a s"
| "run_timer B L C (MergeInsert a) s = run_merge_insert a s"
| "run_timer B L C (MergePut a) s = run_merge_put L a s"
| "run_timer B L C (MergePush a j) s = run_merge_push a j s"
| "run_timer B L C (DeadStart ord clk) s = run_dead_start ord clk s"
| "run_timer B L C (DeadItem now i) s = finish (remove_dead_one C now i s)"
| "run_timer B L C (PackStart ord clk rng) s = run_pack_start ord clk rng C s"
| "run_timer B L C (GenerateTx rng) s = (Inr [], generate_tx rng (cf_generate_tx_rate C) s)"
| "run_timer B L C (PackNext ord clk m) s = run_pack_next ord clk (cf_tx_per_block C) m s"
| "run_timer B L C (PackPush a j) s = run_pack_push a j s"
| "run_timer B L C (PackInsert k a) s = (Inr [], s\<lparr>pending_blks := chm_assign k a (pending_blks s)\<rparr>)"
| "run_timer B L C (PackErase ks) s = (Inr [], s\<lparr>pending_txs := fold chm_erase ks (pending_txs s)\<rparr>)"

subsection \<open>Actions of a server\<close>

datatype action =
    Client client_action
  | Peer peer_action
  | Send sender_action
  | Timer timer_action

definition continue :: "('c \<Rightarrow> action) \<Rightarrow> 'c progress \<Rightarrow> action progress" where
  "continue c r = (case r of (Inl e, s) \<Rightarrow> (Inl e, s) | (Inr cs, s) \<Rightarrow> (Inr (map c cs), s))"

fun run :: "'ss blslib \<Rightarrow> 'r flexlib \<Rightarrow> keylib \<Rightarrow> conf \<Rightarrow> action \<Rightarrow> server \<Rightarrow> action progress" where
  "run B L K C (Client x) s = continue Client (run_client B L K C x s)"
| "run B L K C (Peer x) s = continue Peer (run_peer B L C x s)"
| "run B L K C (Send x) s = continue Send (run_sender L C x s)"
| "run B L K C (Timer x) s = continue Timer (run_timer B L C x s)"

text \<open>The run of one thread with no other in between.\<close>

inductive runs :: "'ss blslib \<Rightarrow> 'r flexlib \<Rightarrow> keylib \<Rightarrow> conf \<Rightarrow> action list \<Rightarrow> server \<Rightarrow> server outcome \<Rightarrow> bool"
  for B :: "'ss blslib" and L :: "'r flexlib" and K :: keylib and C :: conf where
  ended: "runs B L K C [] s (None, s)"
| failed: "run B L K C a s = (Inl e, s') \<Longrightarrow> runs B L K C (a # as) s (Some e, s')"
| continues: "run B L K C a s = (Inr cs, s') \<Longrightarrow> runs B L K C (cs @ as) s' r \<Longrightarrow> runs B L K C (a # as) s r"

inductive_cases runs_Nil: "runs B L K C [] s r"

lemma runs_deterministic: "runs B L K C as s r \<Longrightarrow> runs B L K C as s r' \<Longrightarrow> r' = r"
proof (induction arbitrary: r' rule: runs.induct)
  case (ended s)
  then show ?case by (rule runs_Nil)
next
  case (failed a s e s' as)
  note run = failed.hyps
  from failed.prems show ?case
    by (cases rule: runs.cases) (simp_all add: run del: run.simps)
next
  case (continues a s cs s' as r)
  note run = continues.hyps(1) and rest = continues.IH
  from continues.prems show ?case
    by (cases rule: runs.cases) (simp_all add: run rest del: run.simps)
qed

subsection \<open>Sequences and loops\<close>

definition and_then :: "server outcome \<Rightarrow> (server \<Rightarrow> server outcome) \<Rightarrow> server outcome" where
  "and_then r f = (case r of (None, s) \<Rightarrow> f s | (Some e, s) \<Rightarrow> (Some e, s))"

lemma and_then_simps [simp]: "and_then (None, s) f = f s" "and_then (Some e, s) f = (Some e, s)"
  by (simp_all add: and_then_def)

lemma runs_append:
  "runs B L K C as s r \<Longrightarrow> (\<And>s'. r = (None, s') \<Longrightarrow> runs B L K C bs s' (f s')) \<Longrightarrow>
     runs B L K C (as @ bs) s (and_then r f)"
proof (induction rule: runs.induct)
  case (failed a s e s' as)
  then show ?case by (auto intro: runs.failed)
next
  case (continues a s cs s' as r)
  then show ?case by (auto intro: runs.continues)
qed simp

lemma runs_one:
  "run B L K C a s = (Inr cs, s') \<Longrightarrow> runs B L K C cs s' r \<Longrightarrow> runs B L K C [a] s r"
  using runs.continues [of B L K C a s cs s' "[]" r] by simp

lemma runs_finish:
  assumes "run B L K C a s = continue c (finish r)"
  shows "runs B L K C [a] s r"
proof -
  obtain e s' where r: "r = (e, s')" by fastforce
  show ?thesis
  proof (cases e)
    case None
    then show ?thesis
      using assms by (auto intro!: runs_one [where cs = "[]"] runs.ended simp: r finish_def continue_def)
  next
    case (Some x)
    then show ?thesis using assms by (auto intro!: runs.failed simp: r finish_def continue_def)
  qed
qed

lemma runs_foreach:
  assumes "\<And>x s. x \<in> set xs \<Longrightarrow> I s \<Longrightarrow> runs B L K C (f x) s (g x s)"
    and "\<And>x s. x \<in> set xs \<Longrightarrow> I s \<Longrightarrow> I (snd (g x s))" and "I s"
  shows "runs B L K C (concat (map f xs)) s (foreach g xs s)"
  using assms
proof (induction xs arbitrary: s)
  case Nil
  show ?case by (simp add: runs.ended)
next
  case (Cons x xs)
  have "runs B L K C (f x) s (g x s)" using Cons.prems by simp
  moreover have "runs B L K C (concat (map f xs)) s' (foreach g xs s')" if "g x s = (None, s')" for s'
  proof (rule Cons.IH)
    show "I s'" using Cons.prems(2) [of x s] Cons.prems(3) that by simp
  qed (use Cons.prems(1,2) in auto)
  ultimately have "runs B L K C (f x @ concat (map f xs)) s (and_then (g x s) (foreach g xs))"
    by (rule runs_append)
  then show ?case by (simp add: and_then_def)
qed

lemmas runs_loop = runs_foreach [where I = "\<lambda>s. True", simplified]

lemma runs_each:
  assumes "\<And>x s. runs B L K C [f x] s (g x s)"
  shows "runs B L K C (map f xs) s (foreach g xs s)"
  using runs_loop [of xs B L K C "\<lambda>x. [f x]" g s] assms by simp

lemma continue_simps [simp]:
  "continue c (Inl e, s) = (Inl e, s)" "continue c (Inr cs, s) = (Inr (map c cs), s)"
  "finish (None, s) = (Inr [], s)" "finish (Some e, s) = (Inl e, s)"
  by (simp_all add: continue_def finish_def)

subsection \<open>The handlers for clients\<close>

lemma runs_register: "runs B L K C [Client (RegisterClient c pk)] s
    (case fst (Register K c pk s) of Inl e \<Rightarrow> Some e | Inr r \<Rightarrow> None, snd (Register K c pk s))"
  by (auto intro!: runs_finish [where c = Client] simp: run_register_def split: prod.split sum.split)

lemma runs_push_votes: "runs B L K C (map (Client \<circ> PushVote v) ts) s (foreach (relay_vote_to v) ts s)"
  by (rule runs_each) (simp add: runs_finish)

lemma runs_vote_item: "runs B L K C [Client (VoteItem c bs)] s
    (case Block_from_bytes B L bs of Inl e \<Rightarrow> (Some e, s) | Inr block \<Rightarrow> vote_one C (ucast c) block s)"
proof -
  have count: "runs B L K C (map (Client \<circ> PushVote v) ts @ [Client (CountVote i v k)]) s
      (and_then (foreach (relay_vote_to v) ts s) (count_vote C i v k))" for v ts i k s
    by (rule runs_append [OF runs_push_votes]) (simp add: runs_finish)
  have stop: "runs B L K C [Client (VoteItem c bs)] s (Some e, s)"
    if "run_vote_item B L C c bs s = (Inl e, s)" for e using that by (intro runs.failed) simp
  have go: "runs B L K C [Client (VoteItem c bs)] s r"
    if "run_vote_item B L C c bs s = (Inr cs, s)" and "runs B L K C (map Client cs) s r" for cs r
    using that by (intro runs_one [where cs = "map Client cs"]) simp_all
  show ?thesis
    by (auto split: sum.split option.split simp: run_vote_item_def vote_one_def runs.ended
        intro!: stop go runs_push_votes count [unfolded and_then_def])
qed

lemma runs_VoteBlocks: "runs B L K C (map (Client \<circ> VoteItem c) voted) s (VoteBlocks B L C c voted s)"
  unfolding VoteBlocks_def decode_each_def by (rule runs_each) (simp only: comp_apply runs_vote_item)

lemma foreach_project:
  assumes "\<And>x s h. (fst (f x (s, h)), fst (snd (f x (s, h)))) = g x s"
  shows "(fst (foreach f xs (s, h)), fst (snd (foreach f xs (s, h)))) = foreach g xs s"
proof (induction xs arbitrary: s h)
  case (Cons x xs)
  obtain r s' h' where f: "f x (s, h) = (r, s', h')" by (metis prod_cases3)
  then have "g x s = (r, s')" using assms [of x s h] by simp
  with f Cons.IH [of s' h'] show ?case by (cases r) simp_all
qed simp

definition pull_effect :: "(u64 \<Rightarrow> u64) \<Rightarrow> u64 \<Rightarrow> u64 \<times> addr \<Rightarrow> server \<Rightarrow> server outcome" where
  "pull_effect clk c p s =
     (if fst p \<notin> pb_sync_labels s then (None, s)
      else (case map_of (clients s) c of
              None \<Rightarrow> (Some NullDeref, s)
            | Some cp \<Rightarrow>
                (case deref s (snd p) of
                   Inl e \<Rightarrow> (Some e, s)
                 | Inr blk \<Rightarrow>
                     if map_of (cl_seen_blocks cp) (block_id blk) \<noteq> None then (None, s)
                     else (None, set_dist_ts (clk (fst p)) (snd p) blk (see_block c cp blk s)))))"

lemma pull_one_effect:
  "(fst (pull_one L clk c p (s, h)), fst (snd (pull_one L clk c p (s, h)))) = pull_effect clk c p s"
  by (cases p) (simp add: pull_one_def pull_effect_def split: option.split sum.split)

lemma runs_pull_item: "runs B L K C [Client (PullItem c (clk (fst p)) (fst p) (snd p))] s (pull_effect clk c p s)"
proof -
  obtain k a where p: "p = (k, a)" by fastforce
  have stop: "runs B L K C [Client (PullItem c (clk k) k a)] s (Some e, s)"
    if "run_pull_item c (clk k) k a s = (Inl e, s)" for e using that by (intro runs.failed) simp
  have go: "runs B L K C [Client (PullItem c (clk k) k a)] s r"
    if "run_pull_item c (clk k) k a s = (Inr cs, s)" and "runs B L K C (map Client cs) s r" for cs r
    using that by (intro runs_one [where cs = "map Client cs"]) simp_all
  have offer: "runs B L K C [Client (PullOffer c (clk k) a)] s (None, set_dist_ts (clk k) a blk (see_block c cp blk s))"
    if "map_of (clients s) c = Some cp" "deref s a = Inr blk" for cp blk
    using that
    by (intro runs_one [where cs = "[]" and s' = "set_dist_ts (clk k) a blk (see_block c cp blk s)"])
      (simp_all add: run_pull_offer_def runs.ended)
  show ?thesis
    unfolding p pull_effect_def
    by (auto split: sum.split option.split simp: run_pull_item_def runs.ended intro!: stop go offer)
qed

lemma runs_PullPendingBlocks: "runs B L K C [Client (PullStart ord clk c)] s
    (fst (PullPendingBlocks L ord clk c s), fst (snd (PullPendingBlocks L ord clk c s)))"
proof -
  have "runs B L K C (map (\<lambda>p. Client (PullItem (ucast c) (clk (fst p)) (fst p) (snd p))) (ord (pending_blks s))) s
      (foreach (pull_effect clk (ucast c)) (ord (pending_blks s)) s)"
    by (intro runs_each runs_pull_item)
  moreover have "foreach (pull_effect clk (ucast c)) (ord (pending_blks s)) s =
      (fst (PullPendingBlocks L ord clk c s), fst (snd (PullPendingBlocks L ord clk c s)))"
    unfolding PullPendingBlocks_def by (intro foreach_project [symmetric] pull_one_effect)
  ultimately show ?thesis by (intro runs_one) (simp_all add: comp_def case_prod_beta)
qed

subsection \<open>The handlers for peers\<close>

lemma runs_relay_vote_item: "runs B L K C [Peer (RelayVoteItem bs)] s
    (case BlockVote_from_bytes B L bs of Inl e \<Rightarrow> (Some e, s) | Inr v \<Rightarrow> relay_vote_one C v s)"
proof (cases "BlockVote_from_bytes B L bs")
  case (Inl e)
  then show ?thesis by (auto intro: runs.failed)
next
  case (Inr v)
  have "runs B L K C [Peer (RelayVoteCount v)] s (relay_vote_one C v s)" if "vote_block_id v \<notin> dead_block s"
    using that by (intro runs_finish [where c = Peer])
      (simp add: run_relayed_vote_def relay_vote_one_def split: option.split sum.split)
  then show ?thesis
    using Inr by (intro runs_one [where s' = s and cs = "if vote_block_id v \<in> dead_block s then [] else [Peer (RelayVoteCount v)]"])
      (simp_all add: relay_vote_one_def runs.ended)
qed

lemma runs_decoded:
  assumes "\<And>x s. run B L K C (Peer (f x)) s =
      (case rd x of Inl e \<Rightarrow> (Inl e, s) | Inr b \<Rightarrow> continue Peer (finish (g x b s)))"
  shows "runs B L K C (map (Peer \<circ> f) xs) s
    (foreach (\<lambda>x s. case rd x of Inl e \<Rightarrow> (Some e, s) | Inr b \<Rightarrow> g x b s) xs s)"
proof (rule runs_each)
  fix x s
  show "runs B L K C [(Peer \<circ> f) x] s (case rd x of Inl e \<Rightarrow> (Some e, s) | Inr b \<Rightarrow> g x b s)"
    using assms [of x s] by (intro runs_finish [where c = Peer]) (simp del: run.simps split: sum.split)
qed

lemma runs_handle_peer: "runs B L K C (map Peer (peer_actions clk req)) s (handle_peer B L C clk req s)"
proof (cases req)
  case (RelayVoteRequest i vs)
  have "runs B L K C (map (\<lambda>x. Peer (RelayVoteItem x)) vs) s (RelayVote_handler B L C vs s)"
    unfolding RelayVote_handler_def decode_each_def by (intro runs_each runs_relay_vote_item)
  with RelayVoteRequest show ?thesis by (simp add: peer_actions_def handle_peer_def comp_def)
next
  case (RelayBlockRequest i bs)
  have "runs B L K C (map (Peer \<circ> RelayBlockItem) bs) s (RelayBlock_handler B L bs s)"
    unfolding RelayBlock_handler_def decode_each_def
    by (rule runs_decoded [where rd = "Block_from_bytes B L" and g = "\<lambda>x. relay_block_one"])
      (simp split: sum.split)
  with RelayBlockRequest show ?thesis by (simp add: peer_actions_def handle_peer_def comp_def)
next
  case (SPBcastCommitRequest i bs ts)
  let ?g = "\<lambda>x s. case Block_from_bytes B L (snd x) of Inl e \<Rightarrow> (Some e, s) | Inr b \<Rightarrow> commit_one L C clk (fst x) b s"
  have "runs B L K C (map (Peer \<circ> (\<lambda>(j, b). CommitItem clk j b)) (enumerate 0 bs)) s (foreach ?g (enumerate 0 bs) s)"
    by (rule runs_decoded [where rd = "\<lambda>x. Block_from_bytes B L (snd x)"]) (simp add: case_prod_beta split: sum.split)
  moreover have "?g = (\<lambda>(j, b) s. case Block_from_bytes B L b of Inl e \<Rightarrow> (Some e, s) | Inr x \<Rightarrow> commit_one L C clk j x s)"
    by (auto simp: fun_eq_iff split: sum.split)
  ultimately show ?thesis
    unfolding SPBcastCommitRequest
    by (simp add: peer_actions_def handle_peer_def SPBcastCommit_handler_def decode_each_at_def)
qed (simp_all add: peer_actions_def handle_peer_def SPHeartbeat_handler_def runs.ended runs_finish [where c = Peer])

subsection \<open>The senders\<close>

lemma update_same: "map_of m k = Some v \<Longrightarrow> AList.update k v m = m"
  by (induction m) auto

lemma update_twice: "AList.update k w (AList.update k v m) = AList.update k w m"
  by (induction m) auto

lemma runs_call_peer: "runs B L K C [Send (CallPeer t req)] s (call_peer t req s)"
  by (simp add: runs_finish)

lemma runs_SPHeartbeat:
  "runs B L K C [Send (CallPeer t (SPHeartbeatRequest (ucast (server_id s)))), Send (StoreStatus t ok)] s
     (SPHeartbeat ok t s)"
proof -
  let ?status = "\<lambda>s. let ix = unat (t - 1) in if ix < length (peer_status s)
    then (None, s\<lparr>peer_status := (peer_status s)[ix := ok]\<rparr>) else (Some OutOfRange, s)"
  have "runs B L K C [Send (StoreStatus t ok)] s (?status s)" for s
    by (intro runs_finish [where c = Send]) (simp add: run_status_def Let_def)
  with runs_call_peer have "runs B L K C ([Send (CallPeer t (SPHeartbeatRequest (ucast (server_id s))))] @ [Send (StoreStatus t ok)]) s
      (and_then (call_peer t (SPHeartbeatRequest (ucast (server_id s))) s) ?status)"
    by (rule runs_append)
  then show ?thesis by (simp add: SPHeartbeat_def and_then_def)
qed

lemma runs_send_votes:
  "map_of (relay_votes s) t = Some q \<Longrightarrow>
   runs B L K C [Send (SendVotes t acc)] s
     (let ser = acc @ map (BlockVote_to_bytes L) q; s1 = s\<lparr>relay_votes := AList.update t [] (relay_votes s)\<rparr>
      in if ser = [] then (None, s1) else call_peer t (RelayVoteRequest (ucast (server_id s)) ser) s1)"
proof (induction q arbitrary: acc s)
  case Nil
  show ?case
  proof (rule runs_one [where s' = s])
    show "run B L K C (Send (SendVotes t acc)) s =
        (Inr (if acc = [] then [] else [Send (CallPeer t (RelayVoteRequest (ucast (server_id s)) acc))]), s)"
      using Nil by (simp add: run_send_votes_def)
  qed (simp add: Let_def update_same Nil runs.ended runs_call_peer)
next
  case (Cons v q)
  let ?s1 = "s\<lparr>relay_votes := AList.update t q (relay_votes s)\<rparr>"
  have "map_of (relay_votes ?s1) t = Some q" by (simp add: update_conv')
  from Cons.IH [OF this, of "acc @ [BlockVote_to_bytes L v]"] show ?case
    by (intro runs_one [where s' = ?s1]) (use Cons.prems in \<open>auto simp: run_send_votes_def update_twice Let_def\<close>)
qed

lemma runs_RelayVote: "runs B L K C [Send (SendVotes t [])] s (RelayVote L t s)"
proof (cases "map_of (relay_votes s) t")
  case None
  then show ?thesis by (auto intro: runs.failed simp: run_send_votes_def RelayVote_def)
next
  case (Some q)
  from runs_send_votes [OF this, where acc = "[]" and B = B and L = L and K = K and C = C] show ?thesis by (simp add: RelayVote_def Some pop_all_eq Let_def)
qed

definition enqueue :: "u64 list \<Rightarrow> server \<Rightarrow> server outcome" where
  "enqueue ks s = (None, s\<lparr>pb_sync_queue := fold push ks (pb_sync_queue s)\<rparr>)"

lemma runs_enqueue: "runs B L K C (map (Send \<circ> EnqueueSync) ks) s (enqueue ks s)"
  unfolding enqueue_def
proof (induction ks arbitrary: s)
  case (Cons k ks)
  show ?case
    using Cons.IH [of "s\<lparr>pb_sync_queue := push k (pb_sync_queue s)\<rparr>"] by (auto intro!: runs.continues)
qed (simp add: runs.ended)

text \<open>The loop of \<open>RelayBlock\<close> and \<open>SPBcastCommit\<close> from any point on.\<close>

lemma runs_send_blocks:
  "map_of (relay_blocks s) t = Some q \<Longrightarrow>
   runs B L K C [Send (SendBlocks t acc ids)] s
     (let (bs, q', failed) = pop_blocks (deref s) q;
          s1 = s\<lparr>relay_blocks := AList.update t q' (relay_blocks s)\<rparr>; ser = acc @ map (Block_to_bytes L) bs
      in case failed of
           Some e \<Rightarrow> (Some e, s1)
         | None \<Rightarrow> if ser = [] then (None, s1)
             else and_then (call_peer t (RelayBlockRequest (ucast (server_id s)) ser) s1) (enqueue (ids @ map block_id bs)))"
proof (induction q arbitrary: acc ids s)
  case Nil
  have "runs B L K C ([Send (CallPeer t (RelayBlockRequest (ucast (server_id s)) acc))] @ map (Send \<circ> EnqueueSync) ids) s
      (and_then (call_peer t (RelayBlockRequest (ucast (server_id s)) acc) s) (enqueue ids))"
    by (rule runs_append [OF runs_call_peer runs_enqueue])
  then show ?case
    by (intro runs_one [where s' = s])
      (use Nil in \<open>auto simp: run_send_blocks_def update_same runs.ended Let_def\<close>)
next
  case (Cons a q)
  let ?s1 = "s\<lparr>relay_blocks := AList.update t q (relay_blocks s)\<rparr>"
  have d: "deref ?s1 = deref s" by (simp add: deref_def fun_eq_iff)
  show ?case
  proof (cases "deref s a")
    case (Inl e)
    then show ?thesis
      by (auto intro!: runs.failed simp: run_send_blocks_def Cons.prems d)
  next
    case (Inr b)
    obtain bs r f where p: "pop_blocks (deref s) q = (bs, r, f)" by (metis prod_cases3)
    have "map_of (relay_blocks ?s1) t = Some q" by (simp add: update_conv')
    from Cons.IH [OF this, of "acc @ [Block_to_bytes L b]" "ids @ [block_id b]"] Inr p show ?thesis
      by (cases f; intro runs_one [where s' = ?s1])
        (simp_all add: run_send_blocks_def Cons.prems d update_twice Let_def)
  qed
qed

lemma runs_RelayBlock: "runs B L K C [Send (SendBlocks t [] [])] s (RelayBlock L t s)"
proof (cases "map_of (relay_blocks s) t")
  case None
  then show ?thesis by (auto intro: runs.failed simp: run_send_blocks_def RelayBlock_def)
next
  case (Some q)
  obtain bs q' e where "pop_blocks (deref s) q = (bs, q', e)" by (metis prod_cases3)
  with runs_send_blocks [OF Some, where acc = "[]" and ids = "[]" and B = B and L = L and K = K and C = C] show ?thesis
    by (cases e; cases "bs = []") (simp_all add: RelayBlock_def Some Let_def enqueue_def and_then_def
        cong: prod.case_cong option.case_cong)
qed

lemma runs_send_commits:
  "map_of (bcast_commit_blocks s) t = Some q \<Longrightarrow>
   runs B L K C [Send (SendCommits now t acc)] s
     (let (bs, q', failed) = pop_blocks (deref s) q;
          s1 = s\<lparr>bcast_commit_blocks := AList.update t q' (bcast_commit_blocks s)\<rparr>; ser = acc @ map (Block_to_bytes L) bs
      in case failed of
           Some e \<Rightarrow> (Some ProcessExit, s1)
         | None \<Rightarrow> if ser = [] then (None, s1)
             else call_peer t (SPBcastCommitRequest (ucast (server_id s)) ser now) s1)"
proof (induction q arbitrary: acc s)
  case Nil
  show ?case
    by (intro runs_one [where s' = s])
      (use Nil in \<open>auto simp: run_send_commits_def update_same runs.ended runs_call_peer Let_def\<close>)
next
  case (Cons a q)
  let ?s1 = "s\<lparr>bcast_commit_blocks := AList.update t q (bcast_commit_blocks s)\<rparr>"
  have d: "deref ?s1 = deref s" by (simp add: deref_def fun_eq_iff)
  show ?case
  proof (cases "deref s a")
    case (Inl e)
    then show ?thesis
      by (auto intro!: runs.failed simp: run_send_commits_def Cons.prems d)
  next
    case (Inr b)
    obtain bs r f where p: "pop_blocks (deref s) q = (bs, r, f)" by (metis prod_cases3)
    have "map_of (bcast_commit_blocks ?s1) t = Some q" by (simp add: update_conv')
    from Cons.IH [OF this, of "acc @ [Block_to_bytes L b]"] Inr p show ?thesis
      by (cases f; intro runs_one [where s' = ?s1])
        (simp_all add: run_send_commits_def Cons.prems d update_twice Let_def)
  qed
qed

lemma runs_SPBcastCommit: "runs B L K C [Send (SendCommits now t [])] s (SPBcastCommit L now t s)"
proof (cases "map_of (bcast_commit_blocks s) t")
  case None
  then show ?thesis by (auto intro: runs.failed simp: run_send_commits_def SPBcastCommit_def)
next
  case (Some q)
  obtain bs q' e where "pop_blocks (deref s) q = (bs, q', e)" by (metis prod_cases3)
  with runs_send_commits [OF Some, where acc = "[]" and B = B and L = L and K = K and C = C] show ?thesis
    by (cases e) (simp_all add: SPBcastCommit_def Some Let_def)
qed

lemma runs_sync: "runs B L K C
    (map (\<lambda>t. Send (CallPeer t (RelayBlockSyncRequest (ucast (server_id s)) k))) (peers_of C s) @ [Send (SignalLocal k)]) s
    (send_relay_block_sync C k s)"
proof -
  let ?f = "\<lambda>t. [Send (CallPeer t (RelayBlockSyncRequest (ucast (server_id s)) k))]"
  have "runs B L K C (concat (map ?f (peers_of C s))) s (foreach (RelayBlockSync k) (peers_of C s) s)"
  proof (rule runs_foreach [where I = "\<lambda>s'. server_id s' = server_id s"])
    show "server_id (snd (RelayBlockSync k t s')) = server_id s" if "server_id s' = server_id s" for t s'
      using that by (simp add: RelayBlockSync_def call_peer_def split: option.split)
  qed (simp_all add: RelayBlockSync_def runs_finish)
  moreover have "runs B L K C [Send (SignalLocal k)] s' (None, s'\<lparr>pb_sync_labels := insert k (pb_sync_labels s')\<rparr>)" for s'
    by (rule runs_finish [where c = Send]) simp
  ultimately have "runs B L K C (concat (map ?f (peers_of C s)) @ [Send (SignalLocal k)]) s
      (and_then (foreach (RelayBlockSync k) (peers_of C s) s) (\<lambda>s'. (None, s'\<lparr>pb_sync_labels := insert k (pb_sync_labels s')\<rparr>)))"
    by (rule runs_append)
  then show ?thesis by (simp add: send_relay_block_sync_def and_then_def)
qed

lemma runs_drain_sync: "runs B L K C [Send SyncNext] s (drain_sync C s)"
proof (induction "length (pb_sync_queue s)" arbitrary: s)
  case 0
  then show ?case
    by (intro runs_one [where cs = "[]" and s' = s]) (simp_all add: run_sync_next_def drain_sync.simps runs.ended)
next
  case (Suc m)
  then obtain k q where q: "pb_sync_queue s = k # q" by (cases "pb_sync_queue s") auto
  let ?s1 = "s\<lparr>pb_sync_queue := q\<rparr>"
  have "runs B L K C [Send SyncNext] s' (drain_sync C s')" if "send_relay_block_sync C k ?s1 = (None, s')" for s'
  proof (rule Suc.hyps(1))
    have "pb_sync_queue s' = q" using send_relay_block_sync_queue [of C k ?s1] that by simp
    then show "m = length (pb_sync_queue s')" using Suc.hyps(2) q by simp
  qed
  from runs_append [OF runs_sync this] have "runs B L K C
      ((map (\<lambda>t. Send (CallPeer t (RelayBlockSyncRequest (ucast (server_id ?s1)) k))) (peers_of C ?s1) @ [Send (SignalLocal k)]) @ [Send SyncNext])
      ?s1 (and_then (send_relay_block_sync C k ?s1) (drain_sync C))" .
  then show ?case
    by (intro runs_one [where s' = ?s1])
      (simp_all add: run_sync_next_def q comp_def drain_sync.simps [of C s] and_then_def)
qed

lemma runs_senders:
  "runs B L K C (map Send (heartbeat_actions C ok s)) s (send_heartbeats C ok s)"
  "runs B L K C (map Send (vote_actions C s)) s (send_relay_votes L C s)"
  "runs B L K C (map Send (block_actions C s)) s (send_relay_blocks L C s)"
  "runs B L K C (map Send (commit_actions C clk s)) s (bcast_commits L C clk s)"
proof -
  let ?hb = "\<lambda>t. [Send (CallPeer t (SPHeartbeatRequest (ucast (server_id s)))), Send (StoreStatus t (ok t))]"
  have "runs B L K C (concat (map ?hb (peers_of C s))) s (foreach (\<lambda>t. SPHeartbeat (ok t) t) (peers_of C s) s)"
  proof (rule runs_foreach [where I = "\<lambda>s'. server_id s' = server_id s"])
    show "server_id (snd (SPHeartbeat (ok t) t s')) = server_id s" if "server_id s' = server_id s" for t s'
      using after_SPHeartbeat [of s' "ok t" t] that by (simp add: after_def)
    show "runs B L K C (?hb t) s' (SPHeartbeat (ok t) t s')" if "server_id s' = server_id s" for t s'
      using runs_SPHeartbeat [of B L K C t s' "ok t"] that by simp
  qed simp
  then show "runs B L K C (map Send (heartbeat_actions C ok s)) s (send_heartbeats C ok s)"
    by (simp add: heartbeat_actions_def send_heartbeats_def map_concat comp_def)
  show "runs B L K C (map Send (vote_actions C s)) s (send_relay_votes L C s)"
    unfolding vote_actions_def send_relay_votes_def map_map comp_def by (intro runs_each runs_RelayVote)
  show "runs B L K C (map Send (commit_actions C clk s)) s (bcast_commits L C clk s)"
    unfolding commit_actions_def bcast_commits_def map_map comp_def by (intro runs_each runs_SPBcastCommit)
  have "runs B L K C (map (\<lambda>t. Send (SendBlocks t [] [])) (peers_of C s)) s (foreach (RelayBlock L) (peers_of C s) s)"
    by (intro runs_each runs_RelayBlock)
  from runs_append [OF this runs_drain_sync]
  show "runs B L K C (map Send (block_actions C s)) s (send_relay_blocks L C s)"
    by (simp add: block_actions_def send_relay_blocks_def and_then_def comp_def)
qed

subsection \<open>The timers\<close>

lemma push_nth_step:
  "j < length qs \<Longrightarrow> take (Suc j) (push_nth a j qs) @ push_all a (drop (Suc j) (push_nth a j qs)) =
     take j qs @ push_all a (drop j qs)"
  by (simp add: push_nth_def push_all_def take_Suc_conv_app_nth Cons_nth_drop_Suc [symmetric] case_prod_beta)

lemma runs_merge_push: "runs B L K C [Timer (MergePush a j)] s
    (None, s\<lparr>bcast_commit_blocks := take j (bcast_commit_blocks s) @ push_all a (drop j (bcast_commit_blocks s))\<rparr>)"
proof (induction "length (bcast_commit_blocks s) - j" arbitrary: j s)
  case 0
  then show ?case
    by (intro runs_one [where cs = "[]" and s' = s]) (simp_all add: run_merge_push_def push_all_def runs.ended)
next
  case (Suc m)
  let ?s1 = "s\<lparr>bcast_commit_blocks := push_nth a j (bcast_commit_blocks s)\<rparr>"
  have j: "j < length (bcast_commit_blocks s)" using Suc.hyps(2) by simp
  have "m = length (bcast_commit_blocks ?s1) - Suc j" using Suc.hyps(2) by (simp add: push_nth_def)
  from Suc.hyps(1) [OF this] j show ?case
    by (intro runs_one [where s' = ?s1]) (simp_all add: run_merge_push_def push_nth_step)
qed

lemma runs_pack_push: "runs B L K C [Timer (PackPush a j)] s
    (None, s\<lparr>relay_blocks := take j (relay_blocks s) @ push_all a (drop j (relay_blocks s))\<rparr>)"
proof (induction "length (relay_blocks s) - j" arbitrary: j s)
  case 0
  then show ?case
    by (intro runs_one [where cs = "[]" and s' = s]) (simp_all add: run_pack_push_def push_all_def runs.ended)
next
  case (Suc m)
  let ?s1 = "s\<lparr>relay_blocks := push_nth a j (relay_blocks s)\<rparr>"
  have j: "j < length (relay_blocks s)" using Suc.hyps(2) by simp
  have "m = length (relay_blocks ?s1) - Suc j" using Suc.hyps(2) by (simp add: push_nth_def)
  from Suc.hyps(1) [OF this] j show ?case
    by (intro runs_one [where s' = ?s1]) (simp_all add: run_pack_push_def push_nth_step)
qed

lemma runs_then:
  "run B L K C a s = (Inr [], s') \<Longrightarrow> runs B L K C as s' r \<Longrightarrow> runs B L K C (a # as) s r"
  by (rule runs.continues [where cs = "[]"]) simp_all

lemma runs_merge_one:
  "runs B L K C (map Timer [MergeBlock now a, MergeInsert a, MergePut a, MergePush a 0]) s (merge_one B L C now a s)"
proof (cases "bindr (deref s a) (Block_merge_votes B (cf_client_count C))")
  case (Inl e)
  then show ?thesis by (auto intro!: runs.failed simp: run_merge_block_def merge_one_def)
next
  case (Inr b)
  let ?b = "b\<lparr>header := (header b)\<lparr>hdr_commit_ts := now, hdr_recv_ts := now\<rparr>\<rparr>"
  let ?s1 = "write_block a ?b s"
  let ?s2 = "?s1\<lparr>committed_blks := chm_assign (block_id ?b) a (committed_blks ?s1)\<rparr>"
  let ?s3 = "?s2\<lparr>db_puts := db_puts ?s2 @ [(block_name (block_id ?b), Block_to_bytes L ?b)]\<rparr>"
  have a: "a < length (heap s)" using Inr by (auto simp: bindr_Inr_iff deref_def split: if_splits)
  have d: "deref ?s1 a = Inr ?b" "deref (?s1\<lparr>committed_blks := x\<rparr>) a = Inr ?b" for x using a by (simp_all add: deref_def write_block_def)
  have blk: "run B L K C (Timer (MergeBlock now a)) s = (Inr [], ?s1)" by (simp add: run_merge_block_def Inr)
  have ins: "run B L K C (Timer (MergeInsert a)) ?s1 = (Inr [], ?s2)" by (simp add: run_merge_insert_def d)
  have put: "run B L K C (Timer (MergePut a)) ?s2 = (Inr [], ?s3)" by (simp add: run_merge_put_def d)
  have push: "runs B L K C [Timer (MergePush a 0)] ?s3 (merge_one B L C now a s)"
    using runs_merge_push [of B L K C a 0 ?s3] Inr by (simp add: merge_one_def Let_def)
  from runs_then [OF blk runs_then [OF ins runs_then [OF put push]]] show ?thesis by simp
qed

lemma runs_merge_votes: "runs B L K C [Timer (MergeTake clk)] s (merge_votes B L C clk s)"
proof (induction "length (pb_merge_queue s)" arbitrary: s clk)
  case 0
  then show ?case
    by (intro runs_one [where cs = "[]" and s' = s]) (simp_all add: run_merge_take_def merge_votes_empty runs.ended)
next
  case (Suc m)
  then obtain a q where q: "pb_merge_queue s = a # q" by (cases "pb_merge_queue s") auto
  let ?s1 = "s\<lparr>pb_merge_queue := q\<rparr>" and ?clk = "\<lambda>i. clk (Suc i)"
  have "runs B L K C [Timer (MergeTake ?clk)] s' (merge_votes B L C ?clk s')"
    if "merge_one B L C (clk 0) a ?s1 = (None, s')" for s'
  proof (rule Suc.hyps(1))
    have "pb_merge_queue s' = q" using merge_one_queue [of B L C "clk 0" a ?s1] that by simp
    then show "m = length (pb_merge_queue s')" using Suc.hyps(2) q by simp
  qed
  from runs_append [OF runs_merge_one this] show ?case
    by (intro runs_one [where s' = ?s1])
      (simp_all add: run_merge_take_def q merge_votes.simps [of B L C clk s] and_then_def)
qed

lemma runs_remove_dead_blocks: "runs B L K C [Timer (DeadStart ord clk)] s (remove_dead_blocks ord clk C s)"
proof (cases "mapr (\<lambda>(k, a). bindr (deref s a) (\<lambda>b. Inr (block_id b))) (ord (pending_blks s))")
  case (Inl e)
  then show ?thesis by (auto intro!: runs.failed simp: run_dead_start_def remove_dead_blocks_def)
next
  case (Inr ks)
  have "runs B L K C (map (\<lambda>i. Timer (DeadItem (clk i) i)) ks) s (foreach (\<lambda>i. remove_dead_one C (clk i) i) ks s)"
    by (rule runs_each) (simp add: runs_finish)
  with Inr show ?thesis
    by (intro runs_one [where s' = s]) (simp_all add: run_dead_start_def remove_dead_blocks_def comp_def)
qed

lemma runs_pack_blocks:
  "runs B L K C [Timer (PackNext ord clk m)] s (None, pack_blocks ord clk (cf_tx_per_block C) m s)"
proof (induction m arbitrary: clk s)
  case 0
  show ?case by (intro runs_one [where cs = "[]" and s' = s]) (simp_all add: run_pack_next_def runs.ended)
next
  case (Suc m)
  let ?num = "cf_tx_per_block C"
  show ?case
  proof (cases "unat ?num \<le> length (pending_txs s)")
    case False
    then show ?thesis
      by (intro runs_one [where cs = "[]" and s' = s]) (simp_all add: run_pack_next_def runs.ended)
  next
    case True
    let ?k = "blk_seq_generator s" and ?clk = "\<lambda>i. clk (Suc i)" and ?a = "length (heap s)"
    let ?ks = "map fst (extract_txs ?num 0 (ord (pending_txs s)))"
    let ?s1 = "s\<lparr>blk_seq_generator := ?k + 1, heap := heap s @ [packed_block ord (clk 0) ?num s]\<rparr>"
    let ?s2 = "?s1\<lparr>relay_blocks := push_all ?a (relay_blocks s)\<rparr>"
    let ?s3 = "?s2\<lparr>pending_blks := chm_assign ?k ?a (pending_blks s)\<rparr>"
    let ?s4 = "?s3\<lparr>pending_txs := fold chm_erase ?ks (pending_txs s)\<rparr>"
    let ?next = "PackNext ord ?clk m" and ?r = "(None, pack_blocks ord clk ?num (Suc m) s)"
    have "pack_one ord (clk 0) ?num s = ?s4" by (simp add: pack_one_def alloc_def Let_def packed_block_def)
    then have "runs B L K C [Timer ?next] ?s4 ?r" using Suc.IH [of ?clk ?s4] True by simp
    moreover have er: "run B L K C (Timer (PackErase ?ks)) ?s3 = (Inr [], ?s4)" by simp
    moreover have ins: "run B L K C (Timer (PackInsert ?k ?a)) ?s2 = (Inr [], ?s3)" by simp
    ultimately have rest: "runs B L K C [Timer (PackInsert ?k ?a), Timer (PackErase ?ks), Timer ?next] ?s2 ?r"
      by (blast intro: runs_then)
    have "runs B L K C [Timer (PackPush ?a 0)] ?s1 (None, ?s2)"
      using runs_pack_push [of B L K C ?a 0 ?s1] by simp
    from runs_append [OF this, of "[Timer (PackInsert ?k ?a), Timer (PackErase ?ks), Timer ?next]" "\<lambda>s'. ?r"] rest
    have "runs B L K C (map Timer [PackPush ?a 0, PackInsert ?k ?a, PackErase ?ks, ?next]) ?s1 ?r" by simp
    then show ?thesis
      using True by (intro runs_one [where s' = ?s1])
        (simp_all add: run_pack_next_def alloc_def Let_def packed_block_def)
  qed
qed

lemma runs_pack_round: "runs B L K C [Timer (PackStart ord clk rng)] s (None, pack_round ord clk rng C s)"
proof -
  let ?m = "unat (word_of_int INT_MAX :: u64)" and ?s1 = "generate_tx rng (cf_generate_tx_rate C) s"
  have "runs B L K C (map Timer [GenerateTx rng, PackNext ord clk ?m]) s
      (None, pack_blocks ord clk (cf_tx_per_block C) ?m ?s1)"
    using runs_pack_blocks [of B L K C ord clk ?m ?s1] by (auto intro!: runs_then [where s' = ?s1])
  then show ?thesis
    using runs_pack_blocks [of B L K C ord clk ?m s]
    by (cases "length (pending_blks s) < unat (cf_pb_pool_limit C)"; intro runs_one [where s' = s])
      (simp_all add: run_pack_start_def pack_round_def pack_block_def)
qed

subsection \<open>Properties\<close>




end
