(* ===== verification/TC_Threads.thy ===== *)
theory TC_Threads
  imports TC_Actions
begin

text \<open>
  Threads. A state \<open>machine\<close> is a state of the network together with the threads of all
  servers, each with the actions it still has to do. A step starts a thread (a call of a
  client, a request of a peer, a round of a timer), executes the next action of any
  thread, or ends one. Any number of threads of one server may be in the middle of their
  handlers at the same time, so what a thread has read may be out of date when it acts on it.

  The invariant of the network holds at every point of every interleaving. It rests on what
  each thread relies on between two of its actions (\<open>action_ok\<close>): what others do keeps it,
  because blocks in the store only gain votes, the set of packed blocks only grows, and the
  address of a block that the packing thread has not yet inserted into \<open>pending_blks\<close> is
  known to that thread alone (\<open>owned\<close>).
\<close>

subsection \<open>Machine\<close>

record machine =
  m_net :: net
  threads :: "(u64 \<times> action list) list"

text \<open>What starts a thread on a server.\<close>

inductive spawns :: "conf \<Rightarrow> net \<Rightarrow> u64 \<Rightarrow> action list \<Rightarrow> bool" for C :: conf and N :: net where
  pack: "visits_all ord \<Longrightarrow> spawns C N (cf_server_count C) [Timer (PackStart ord clk rng)]"
| register: "spawns C N i [Client (RegisterClient client pkey)]"
| pull: "visits_all ord \<Longrightarrow> spawns C N i [Client (PullStart ord clk client)]"
| vote: "spawns C N i (map (Client \<circ> VoteItem client) voted)"
| merge: "spawns C N i [Timer (MergeTake clk)]"
| remove_dead: "visits_all ord \<Longrightarrow> spawns C N i [Timer (DeadStart ord clk)]"
| heartbeats: "spawns C N i (map Send (heartbeat_actions C status_ok (nodes N i)))"
| votes_out: "spawns C N i (map Send (vote_actions C (nodes N i)))"
| blocks_out: "spawns C N i (map Send (block_actions C (nodes N i)))"
| commits_out: "spawns C N i (map Send (commit_actions C clk (nodes N i)))"
| deliver: "(t, req) \<in> set (outbox (nodes N i)) \<Longrightarrow> spawns C N t (map Peer (peer_actions clk req))"

fun packed_by :: "action \<Rightarrow> server \<Rightarrow> server \<Rightarrow> Block list" where
  "packed_by (Timer (PackNext ord clk m)) s s' = new_blocks s s'"
| "packed_by a s s' = []"

definition moved :: "action \<Rightarrow> u64 \<Rightarrow> server \<Rightarrow> net \<Rightarrow> net" where
  "moved a i s' N = (set_node i s' N)\<lparr>packed := packed N @ packed_by a (nodes N i) s'\<rparr>"

inductive mstep :: "'ss blslib \<Rightarrow> 'r flexlib \<Rightarrow> keylib \<Rightarrow> conf \<Rightarrow> machine \<Rightarrow> machine \<Rightarrow> bool"
  for B :: "'ss blslib" and L :: "'r flexlib" and K :: keylib and C :: conf where
  spawn: "spawns C (m_net M) i acts \<Longrightarrow> mstep B L K C M (M\<lparr>threads := threads M @ [(i, acts)]\<rparr>)"
| exec: "threads M = xs @ (i, a # as) # ys \<Longrightarrow> run B L K C a (nodes (m_net M) i) = (Inr cs, s') \<Longrightarrow>
    mstep B L K C M \<lparr>m_net = moved a i s' (m_net M), threads = xs @ (i, cs @ as) # ys\<rparr>"
| fail: "threads M = xs @ (i, a # as) # ys \<Longrightarrow> run B L K C a (nodes (m_net M) i) = (Inl e, s') \<Longrightarrow>
    mstep B L K C M \<lparr>m_net = moved a i s' (m_net M), threads = xs @ ys\<rparr>"
| exit: "threads M = xs @ (i, []) # ys \<Longrightarrow> mstep B L K C M (M\<lparr>threads := xs @ ys\<rparr>)"

inductive interleaved :: "'ss blslib \<Rightarrow> 'r flexlib \<Rightarrow> keylib \<Rightarrow> conf \<Rightarrow> machine \<Rightarrow> bool"
  for B :: "'ss blslib" and L :: "'r flexlib" and K :: keylib and C :: conf where
  start: "interleaved B L K C \<lparr>m_net = initial K C, threads = []\<rparr>"
| step: "interleaved B L K C M \<Longrightarrow> mstep B L K C M M' \<Longrightarrow> interleaved B L K C M'"

subsection \<open>What a thread relies on\<close>

abbreviation decided_block :: "u64 \<Rightarrow> Block list \<Rightarrow> addr \<Rightarrow> bool" where
  "decided_block n h a \<equiv> a < length h \<and> is_vote_enough n (h ! a)"

fun client_ok :: "'ss blslib \<Rightarrow> client_action \<Rightarrow> bool" where
  "client_ok B (CountVote i v k) = vote_ok B v"
| "client_ok B x = True"

fun peer_ok :: "'ss blslib \<Rightarrow> 'r flexlib \<Rightarrow> u64 \<Rightarrow> (u64 \<times> u64 \<times> u64 \<times> Transaction list) set \<Rightarrow> peer_action \<Rightarrow> bool" where
  "peer_ok B L n P (RelayVoteCount v) = vote_ok B v"
| "peer_ok B L n P (RelayBlockItem bs) = (\<forall>b. Block_from_bytes B L bs = Inr b \<longrightarrow> core b \<in> P)"
| "peer_ok B L n P (CommitItem clk j bs) =
     (\<forall>b. Block_from_bytes B L bs = Inr b \<longrightarrow> core b \<in> P \<and> is_vote_enough n b)"
| "peer_ok B L n P x = True"

fun sender_ok :: "'ss blslib \<Rightarrow> 'r flexlib \<Rightarrow> u64 \<Rightarrow> (u64 \<times> u64 \<times> u64 \<times> Transaction list) set \<Rightarrow> sender_action \<Rightarrow> bool" where
  "sender_ok B L n P (CallPeer t req) = req_ok B L n P req"
| "sender_ok B L n P (SendBlocks t added ids) = (\<forall>i. req_ok B L n P (RelayBlockRequest i added))"
| "sender_ok B L n P (SendCommits now t added) = (\<forall>i ts. req_ok B L n P (SPBcastCommitRequest i added ts))"
| "sender_ok B L n P x = True"

fun timer_ok :: "u64 \<Rightarrow> Block list \<Rightarrow> timer_action \<Rightarrow> bool" where
  "timer_ok n h (MergeBlock now a) = decided_block n h a"
| "timer_ok n h (MergeInsert a) = decided_block n h a"
| "timer_ok n h (MergePut a) = decided_block n h a"
| "timer_ok n h (MergePush a j) = decided_block n h a"
| "timer_ok n h (PackPush a j) = (a < length h)"
| "timer_ok n h (PackInsert k a) = (a < length h \<and> block_id (h ! a) = k)"
| "timer_ok n h x = True"

fun action_ok :: "'ss blslib \<Rightarrow> 'r flexlib \<Rightarrow> u64 \<Rightarrow> (u64 \<times> u64 \<times> u64 \<times> Transaction list) set \<Rightarrow> Block list \<Rightarrow> action \<Rightarrow> bool" where
  "action_ok B L n P h (Client x) = client_ok B x"
| "action_ok B L n P h (Peer x) = peer_ok B L n P x"
| "action_ok B L n P h (Send x) = sender_ok B L n P x"
| "action_ok B L n P h (Timer x) = timer_ok n h x"

text \<open>A block that is not yet in \<open>pending_blks\<close> belongs to the thread that will insert it.\<close>

fun owner :: "action \<Rightarrow> addr list" where
  "owner (Timer (PackInsert k a)) = [a]"
| "owner x = []"

abbreviation owners :: "action list \<Rightarrow> addr list" where
  "owners as \<equiv> concat (map owner as)"

definition held :: "server \<Rightarrow> addr set" where
  "held s = ran (map_of (pending_blks s)) \<union> set (pb_merge_queue s)"

lemma evolves_same_id: "heap_le h h' \<Longrightarrow> a < length h \<Longrightarrow> a < length h' \<and> block_id (h' ! a) = block_id (h ! a)"
  by (auto simp: heap_le_def evolves_def)

lemma decided_block_mono: "decided_block n h a \<Longrightarrow> heap_le h h' \<Longrightarrow> decided_block n h' a"
  by (auto simp: heap_le_def intro: evolves_enough)

lemma action_ok_mono:
  assumes "action_ok B L n P h x" and "P \<subseteq> Q" and "heap_le h h'"
  shows "action_ok B L n Q h' x"
proof (cases x)
  case (Client y)
  with assms(1) show ?thesis by simp
next
  case (Peer y)
  with assms(1,2) show ?thesis by (cases y) auto
next
  case (Send y)
  with assms(1,2) show ?thesis by (cases y) (auto intro: req_ok_mono)
next
  case (Timer y)
  with assms(1) evolves_same_id [OF assms(3)] decided_block_mono [OF _ assms(3)] show ?thesis
    by (cases y) auto
qed

subsection \<open>One action\<close>

text \<open>
  An action keeps the invariant of its server, changes the blocks of the store only by adding
  votes, signatures and times, and a block that it makes pending or queues for merging was
  pending, is new, or is the thread's own.
\<close>

definition safe ::
  "'ss blslib \<Rightarrow> 'r flexlib \<Rightarrow> u64 \<Rightarrow> (u64 \<times> u64 \<times> u64 \<times> Transaction list) set \<Rightarrow> u64 \<Rightarrow> addr list \<Rightarrow> server \<Rightarrow> server \<Rightarrow> bool" where
  "safe B L n P g own s s' \<longleftrightarrow> server_inv B L n P g s' \<and> heap_le (heap s) (heap s') \<and>
     held s' \<subseteq> held s \<union> set own \<union> {length (heap s)..}"

named_theorems safe_actions \<open>the actions of a server\<close>

lemma safe_refl: "server_inv B L n P g s \<Longrightarrow> safe B L n P g own s s"
  by (auto simp: safe_def)

lemma safe_frame:
  assumes "server_inv B L n P g s'" and "heap s' = heap s" and "pending_blks s' = pending_blks s"
    and "set (pb_merge_queue s') \<subseteq> set (pb_merge_queue s)"
  shows "safe B L n P g own s s'"
  using assms by (auto simp: safe_def held_def)

lemma safe_write:
  assumes "server_inv B L n P g s'" and "heap s' = (heap s)[a := b]" and "evolves (heap s ! a) b"
    and "pending_blks s' = pending_blks s" and "pb_merge_queue s' = pb_merge_queue s"
  shows "safe B L n P g own s s'"
  using assms by (auto simp: safe_def held_def heap_le_update)

lemma ran_chm_assign: "chm_ok m \<Longrightarrow> ran (map_of (chm_assign k a m)) \<subseteq> insert a (ran (map_of m))"
  and ran_chm_erase: "chm_ok m \<Longrightarrow> ran (map_of (chm_erase k m)) \<subseteq> ran (map_of m)"
  by (auto simp: chm.lookup_assign chm.lookup_erase ran_def)

lemma safe_count_vote [safe_actions]:
  assumes inv: "server_inv B L (cf_client_count C) P g s" and "vote_ok B v"
  shows "safe B L (cf_client_count C) P g own s (snd (count_vote C i v k s))"
proof (cases "map_of (pending_blks s) k")
  case None
  with inv show ?thesis by (simp add: count_vote_absent safe_refl)
next
  case (Some a)
  note wf = server_inv_wf [OF inv]
  let ?b = "Block_add_vote i v (heap s ! a)" and ?s' = "snd (count_vote C i v k s)"
  have s': "?s' = (if is_vote_enough (cf_client_count C) ?b then moved_to_merge a k (write_block a ?b s)
      else write_block a ?b s)"
    using count_vote_pending [OF wf Some, of C i v] by (simp add: Let_def)
  have "evolves (heap s ! a) ?b" using server_wf_pending [OF wf Some] by (simp add: evolves_add_vote)
  then have "heap_le (heap s) (heap ?s')" by (simp add: s' heap_le_update)
  moreover have "chm_ok (pending_blks s)" using wf by (simp add: server_wf_def)
  then have "held ?s' \<subseteq> held s"
    using ranI [of "map_of (pending_blks s)" k a] Some ran_chm_erase [of "pending_blks s" k]
    by (auto simp: s' held_def push_def write_block_def)
  ultimately show ?thesis using server_inv_count_vote [OF assms] by (auto simp: safe_def)
qed

lemma safe_relay_vote_to [safe_actions]:
  "server_inv B L n P g s \<Longrightarrow> safe B L n P g own s (snd (relay_vote_to v t s))"
  by (auto intro!: safe_frame simp: relay_vote_to_def split: sum.split)

lemma safe_Register [safe_actions]:
  assumes "server_inv B L n P g s"
  shows "safe B L n P g own s (snd (Register K i d s))"
  by (rule safe_frame [OF server_inv_Register [OF assms]])
    (simp_all add: Register_def split: sum.split option.split)

lemma safe_pull_offer [safe_actions]:
  assumes inv: "server_inv B L n P g s"
  shows "safe B L n P g own s (snd (run_pull_offer i now a s))"
proof -
  have "safe B L n P g own s (pulled (\<lambda>k. now) i cp 0 a s)" if "a < length (heap s)" for cp
    using server_inv_pulled [OF inv that, of "\<lambda>k. now" i cp 0] set_dist_ts_heap(1) [of "see_block i cp (heap s ! a) s" now a]
    by (auto simp: safe_def held_def pulled_def)
  with inv show ?thesis
    by (auto simp: run_pull_offer_def deref_def safe_refl pulled_def split: option.split)
qed

subsubsection \<open>Requests of peers\<close>

lemma safe_relay_block_one [safe_actions]:
  assumes "server_inv B L n P g s" and "core b \<in> P" and "block_shares_ok B b"
  shows "safe B L n P g own s (snd (relay_block_one b s))"
proof -
  have "chm_ok (pending_blks s)" using server_inv_wf [OF assms(1)] by (simp add: server_wf_def)
  then show ?thesis
    using server_inv_relay_block_one [OF assms] ran_chm_assign [of "pending_blks s" "block_id b" "length (heap s)"]
    by (auto simp: safe_def held_def relay_block_one_effect)
qed

lemma safe_commit_one [safe_actions]:
  assumes "server_inv B L n P g s" and "core b \<in> P" and "block_shares_ok B b" and "is_vote_enough n b"
  shows "safe B L n P g own s (snd (commit_one L' C clk j b s))"
proof -
  have "chm_ok (pending_blks s)" using server_inv_wf [OF assms(1)] by (simp add: server_wf_def)
  then show ?thesis
    using server_inv_commit_one [OF assms, of L' C clk j] ran_chm_erase [of "pending_blks s" "block_id b"] assms(1)
    by (auto simp: safe_def held_def commit_one_effect)
qed

lemma safe_labels [safe_actions]:
  "server_inv B L n P g s \<Longrightarrow> safe B L n P g own s (s\<lparr>pb_sync_labels := ls\<rparr>)"
  by (rule safe_frame) simp_all

subsubsection \<open>Senders\<close>

lemma safe_call_peer [safe_actions]:
  assumes "server_inv B L n P g s" and "req_ok B L n P req"
  shows "safe B L n P g own s (snd (call_peer t req s))"
  using call_peer_cases [of t req s] by (intro safe_frame server_inv_call_peer assms) auto

lemma safe_fields [safe_actions]:
  assumes "server_inv B L n P g s"
  shows "safe B L n P g own s (s\<lparr>peer_status := x1\<rparr>)" and "safe B L n P g own s (s\<lparr>relay_votes := x2\<rparr>)"
    and "safe B L n P g own s (s\<lparr>pb_sync_queue := x3\<rparr>)"
  using assms by (intro safe_frame; simp)+

lemma queues_valid_popped:
  "queues_valid h qs \<Longrightarrow> map_of qs t = Some q \<Longrightarrow> set q' \<subseteq> set q \<Longrightarrow> queues_valid h (AList.update t q' qs)"
  by (auto simp: queues_valid_def update_conv' split: if_splits)

lemma safe_popped [safe_actions]:
  assumes inv: "server_inv B L n P g s"
  shows "map_of (relay_blocks s) t = Some (a # q) \<Longrightarrow>
      safe B L n P g own s (s\<lparr>relay_blocks := AList.update t q (relay_blocks s)\<rparr>)"
    and "map_of (bcast_commit_blocks s) t = Some (a # q) \<Longrightarrow>
      safe B L n P g own s (s\<lparr>bcast_commit_blocks := AList.update t q (bcast_commit_blocks s)\<rparr>)"
proof -
  note wf = server_inv_wf [OF inv]
  have valid: "queues_valid (heap s) (relay_blocks s)" "queues_valid (heap s) (bcast_commit_blocks s)"
    using wf by (simp_all add: server_wf_def)
  show "safe B L n P g own s (s\<lparr>relay_blocks := AList.update t q (relay_blocks s)\<rparr>)"
    if "map_of (relay_blocks s) t = Some (a # q)"
    using wf queues_valid_popped [OF valid(1) that, of q]
    by (intro safe_frame server_inv_frame [OF inv]) (auto simp: server_wf_def decided_def)
  show "safe B L n P g own s (s\<lparr>bcast_commit_blocks := AList.update t q (bcast_commit_blocks s)\<rparr>)"
    if q: "map_of (bcast_commit_blocks s) t = Some (a # q)"
  proof (intro safe_frame server_inv_frame [OF inv])
    show "server_wf (s\<lparr>bcast_commit_blocks := AList.update t q (bcast_commit_blocks s)\<rparr>)"
      using wf queues_valid_popped [OF valid(2) q, of q] by (auto simp: server_wf_def)
    show "decided (s\<lparr>bcast_commit_blocks := AList.update t q (bcast_commit_blocks s)\<rparr>) \<subseteq> decided s"
      using q by (fastforce simp: decided_def update_conv' split: if_splits)
  qed simp_all
qed

subsubsection \<open>Merging\<close>

lemma safe_merge_take [safe_actions]:
  assumes inv: "server_inv B L n P g s" and q: "pb_merge_queue s = a # q"
  shows "safe B L n P g own s (s\<lparr>pb_merge_queue := q\<rparr>)"
  using server_wf_merge_pop [OF server_inv_wf [OF inv] q]
  by (intro safe_frame server_inv_frame [OF inv]) (auto simp: decided_def q)

text \<open>A step after which one more block, which has enough votes, is decided.\<close>

lemma safe_decide:
  assumes inv: "server_inv B L n P g s" and "decided_block n (heap s) a" and "server_wf s'"
    and same: "heap s' = heap s" "blk_seq_generator s' = blk_seq_generator s" "outbox s' = outbox s"
      "pending_blks s' = pending_blks s" "pb_merge_queue s' = pb_merge_queue s"
    and dec: "decided s' \<subseteq> insert a (decided s)"
  shows "safe B L n P g own s s'"
proof (rule safe_frame)
  have "is_vote_enough n (heap s ! x)" if "x \<in> decided s'" for x
    using that dec inv assms(2) by (auto simp: server_inv_def)
  then show "server_inv B L n P g s'" using inv assms(3) same by (simp add: server_inv_def)
qed (simp_all add: same)

lemma safe_merge_block [safe_actions]:
  assumes inv: "server_inv B L n P g s" and a: "decided_block n (heap s) a"
  shows "safe B L n P g own s (snd (run_merge_block B' C now a s))"
proof (cases "Block_merge_votes B' (cf_client_count C) (heap s ! a)")
  case (Inl e)
  with inv a show ?thesis by (simp add: run_merge_block_def deref_def safe_refl)
next
  case (Inr b)
  let ?s' = "write_block a (commit_block now b) s"
  note wf = server_inv_wf [OF inv] and ev = commit_block_facts(1) [OF Inr, of now]
  obtain t where b: "b = (heap s ! a)\<lparr>tss_sig := t\<rparr>" using Block_merge_votes_frame [OF Inr] by blast
  have blk: "Block_ok (heap s ! a)" "block_shares_ok B (heap s ! a)"
    using inv a server_wf_heap_ok [OF wf] by (simp_all add: server_inv_def)
  have shares: "block_shares_ok B (commit_block now b)" using blk(2) by (simp add: commit_block_def b)
  then have wf': "server_wf ?s'" by (intro server_wf_write wf ev) (simp add: block_shares_ok_def)
  have "server_inv B L n P g ?s'"
    by (rule server_inv_write [OF inv wf' _ _ ev shares]) (use a in simp_all)
  then have "safe B L n P g own s ?s'" by (rule safe_write [OF _ _ ev]) (simp_all add: write_block_def)
  then show ?thesis using a Inr by (simp add: run_merge_block_def deref_def commit_block_def)
qed

lemma safe_merge_insert [safe_actions]:
  assumes inv: "server_inv B L n P g s" and a: "decided_block n (heap s) a"
  shows "safe B L n P g own s (snd (run_merge_insert a s))"
proof -
  let ?k = "block_id (heap s ! a)"
  let ?s' = "s\<lparr>committed_blks := chm_assign ?k a (committed_blks s)\<rparr>"
  note wf = server_inv_wf [OF inv]
  have "chm_ok (committed_blks s)" using wf by (simp add: server_wf_def)
  then have "decided ?s' \<subseteq> insert a (decided s)"
    using ran_chm_assign [of "committed_blks s" ?k a] by (auto simp: decided_def)
  moreover have "server_wf ?s'" using wf a by (intro server_wf_committed_assign) simp_all
  ultimately have "safe B L n P g own s ?s'" by (intro safe_decide [OF inv a]) simp_all
  with a show ?thesis by (simp add: run_merge_insert_def deref_def)
qed

lemma safe_merge_put [safe_actions]:
  assumes "server_inv B L n P g s"
  shows "safe B L n P g own s (snd (run_merge_put L' a s))"
proof -
  have "safe B L n P g own s (s\<lparr>db_puts := x\<rparr>)" for x
    using server_inv_wf [OF assms] by (intro safe_frame server_inv_frame [OF assms]) (simp_all add: decided_def)
  with assms show ?thesis by (simp add: run_merge_put_def safe_refl split: sum.split)
qed

lemma push_nth_lookup:
  "map_of (push_nth x j qs) k = Some q' \<Longrightarrow>
     map_of qs k = Some q' \<or> (\<exists>q. map_of qs k = Some q \<and> q' = q @ [x])"
proof (induction qs arbitrary: j)
  case (Cons p qs)
  then show ?case by (cases j; cases p) (auto simp: push_nth_def push_def split: if_splits)
qed (simp add: push_nth_def)

lemma queues_valid_push_nth: "queues_valid h qs \<Longrightarrow> a < length h \<Longrightarrow> queues_valid h (push_nth a j qs)"
  unfolding queues_valid_def by (fastforce dest: push_nth_lookup)

lemma safe_merge_push [safe_actions]:
  assumes inv: "server_inv B L n P g s" and a: "decided_block n (heap s) a"
  shows "safe B L n P g own s (snd (run_merge_push a j s))"
proof -
  let ?s' = "s\<lparr>bcast_commit_blocks := push_nth a j (bcast_commit_blocks s)\<rparr>"
  have "decided ?s' \<subseteq> insert a (decided s)"
    by (fastforce simp: decided_def dest: push_nth_lookup)
  moreover have "server_wf ?s'"
    using server_inv_wf [OF inv] a by (simp add: server_wf_def queues_valid_push_nth)
  ultimately have "safe B L n P g own s ?s'" by (intro safe_decide [OF inv a]) simp_all
  with inv show ?thesis by (simp add: run_merge_push_def safe_refl)
qed

subsubsection \<open>Dead blocks and packing\<close>

lemma safe_remove_dead_one [safe_actions]:
  assumes inv: "server_inv B L n P g s"
  shows "safe B L n P g own s (snd (remove_dead_one C now i s))"
proof -
  have "chm_ok (pending_blks s)" using server_inv_wf [OF inv] by (simp add: server_wf_def)
  then show ?thesis
    using server_inv_remove_dead_one [OF inv, of C now i] remove_dead_one_shape [of C now i s]
      ran_chm_erase [of "pending_blks s" i]
    by (auto simp: safe_def held_def)
qed

lemma safe_generate_tx [safe_actions]:
  assumes "server_inv B L n P g s"
  shows "safe B L n P g own s (generate_tx rng num s)"
  by (rule safe_frame [OF server_inv_generate_tx [OF assms]]) (simp_all add: generate_tx_def)

lemma safe_pack_push [safe_actions]:
  assumes inv: "server_inv B L n P g s" and "a < length (heap s)"
  shows "safe B L n P g own s (snd (run_pack_push a j s))"
proof -
  have "server_wf (s\<lparr>relay_blocks := push_nth a j (relay_blocks s)\<rparr>)"
    using server_inv_wf [OF inv] assms(2) by (simp add: server_wf_def queues_valid_push_nth)
  then have "safe B L n P g own s (s\<lparr>relay_blocks := push_nth a j (relay_blocks s)\<rparr>)"
    by (intro safe_frame server_inv_frame [OF inv]) (simp_all add: decided_def)
  with inv show ?thesis by (simp add: run_pack_push_def safe_refl)
qed

lemma safe_pack_insert [safe_actions]:
  assumes inv: "server_inv B L n P g s" and a: "a < length (heap s)" "block_id (heap s ! a) = k" and "a \<notin> held s"
  shows "safe B L n P g [a] s (s\<lparr>pending_blks := chm_assign k a (pending_blks s)\<rparr>)"
proof -
  note wf = server_inv_wf [OF inv]
  have "server_wf (s\<lparr>pending_blks := chm_assign k a (pending_blks s)\<rparr>)"
    using wf a assms(4) by (intro server_wf_pending_assign) (auto simp: held_def)
  then have "server_inv B L n P g (s\<lparr>pending_blks := chm_assign k a (pending_blks s)\<rparr>)"
    by (rule server_inv_frame [OF inv]) (simp_all add: decided_def)
  moreover have "chm_ok (pending_blks s)" using wf by (simp add: server_wf_def)
  ultimately show ?thesis
    using ran_chm_assign [of "pending_blks s" k a] by (auto simp: safe_def held_def)
qed

lemma safe_pack_erase [safe_actions]:
  assumes inv: "server_inv B L n P g s"
  shows "safe B L n P g own s (s\<lparr>pending_txs := fold chm_erase ks (pending_txs s)\<rparr>)"
proof -
  have "server_wf (s\<lparr>pending_txs := fold chm_erase ks (pending_txs s)\<rparr>)"
    using server_inv_wf [OF inv] by (intro server_wf_pending_txs) (simp_all add: server_wf_def chm.fold_erase_invar)
  then show ?thesis by (intro safe_frame server_inv_frame [OF inv]) (simp_all add: decided_def)
qed

subsubsection \<open>Every action\<close>

lemma finish_facts [simp]: "snd (finish r) = snd r" "fst (finish r) = Inr cs \<longleftrightarrow> fst r = None \<and> cs = []"
  by (auto simp: finish_def split: prod.splits option.splits)

lemma client_run:
  assumes ctor: "bls_ctor_spec B" and inv: "server_inv B L (cf_client_count C) P g s" and ok: "client_ok B x"
  shows "safe B L (cf_client_count C) P g own s (snd (run_client B L K C x s)) \<and>
    (\<forall>cs. fst (run_client B L K C x s) = Inr cs \<longrightarrow> (\<forall>c \<in> set cs. client_ok B c))"
proof (cases x)
  case (RegisterClient i d)
  have "snd (run_register K i d s) = snd (Register K i d s)" "fst (run_register K i d s) = Inr cs \<Longrightarrow> cs = []" for cs
    by (auto simp: run_register_def split: prod.splits sum.splits)
  with RegisterClient inv show ?thesis by (auto simp: safe_Register)
next
  case (PullItem i now k a)
  with inv show ?thesis by (auto simp: run_pull_item_def safe_refl split: option.split sum.split)
next
  case (PullOffer i now a)
  have "fst (run_pull_offer i now a s) = Inr cs \<Longrightarrow> cs = []" for cs
    by (auto simp: run_pull_offer_def split: option.splits sum.splits)
  with PullOffer inv show ?thesis by (auto simp: safe_pull_offer)
next
  case (VoteItem i bs)
  have "client_ok B c" if "fst (run_vote_item B L C i bs s) = Inr cs" "c \<in> set cs" for c cs
  proof (cases "Block_from_bytes B L bs")
    case (Inr b)
    have "vote_ok B v" if "map_of (votes b) (ucast i) = Some v" for v
      using Block_from_bytes_shares [OF ctor Inr] map_of_SomeD [OF that] by (auto simp: block_shares_ok_def)
    with Inr that show ?thesis
      by (auto simp: run_vote_item_def split: option.splits sum.splits if_splits)
  qed (use that in \<open>simp add: run_vote_item_def\<close>)
  moreover have "snd (run_vote_item B L C i bs s) = s"
    by (simp add: run_vote_item_def split: sum.split option.split)
  ultimately show ?thesis using VoteItem inv by (auto simp: safe_refl)
qed (use inv ok in \<open>auto simp: safe_refl safe_relay_vote_to safe_count_vote\<close>)

lemma peer_run:
  assumes ctor: "bls_ctor_spec B" and inv: "server_inv B L (cf_client_count C) P g s"
    and ok: "peer_ok B L (cf_client_count C) P x"
  shows "safe B L (cf_client_count C) P g own s (snd (run_peer B L C x s)) \<and>
    (\<forall>cs. fst (run_peer B L C x s) = Inr cs \<longrightarrow> (\<forall>c \<in> set cs. peer_ok B L (cf_client_count C) P c))"
proof (cases x)
  case (RelayVoteItem bs)
  with inv show ?thesis
    by (auto simp: safe_refl BlockVote_from_bytes_ok [OF ctor] split: sum.splits)
next
  case (RelayVoteCount v)
  have "fst (run_relayed_vote C v s) = Inr cs \<Longrightarrow> cs = []" for cs
    by (auto simp: run_relayed_vote_def split: option.splits sum.splits)
  moreover have "safe B L (cf_client_count C) P g own s (snd (run_relayed_vote C v s))"
    using inv ok RelayVoteCount by (auto simp: run_relayed_vote_def safe_refl safe_count_vote split: option.split sum.split)
  ultimately show ?thesis using RelayVoteCount by auto
qed (use inv ok in \<open>auto simp: safe_refl safe_relay_block_one safe_commit_one safe_labels RelayBlockSync_handler_def
    Block_from_bytes_shares [OF ctor] split: sum.splits\<close>)

lemma req_ok_append:
  "req_ok B L n P (RelayBlockRequest i (xs @ ys)) \<longleftrightarrow>
     req_ok B L n P (RelayBlockRequest i xs) \<and> req_ok B L n P (RelayBlockRequest i ys)"
  "req_ok B L n P (SPBcastCommitRequest i (xs @ ys) ts) \<longleftrightarrow>
     req_ok B L n P (SPBcastCommitRequest i xs ts) \<and> req_ok B L n P (SPBcastCommitRequest i ys ts)"
  by (auto simp: req_ok_def)

lemma sender_run:
  assumes spec: "flexlib_spec L" and inv: "server_inv B L n P g s" and ok: "sender_ok B L n P x"
  shows "safe B L n P g own s (snd (run_sender L C x s)) \<and>
    (\<forall>cs. fst (run_sender L C x s) = Inr cs \<longrightarrow> (\<forall>c \<in> set cs. sender_ok B L n P c))"
proof (cases x)
  case (StoreStatus t b)
  with inv show ?thesis by (auto simp: run_status_def Let_def safe_refl safe_fields)
next
  case (SendVotes t added)
  with inv show ?thesis
    by (auto simp: run_send_votes_def safe_refl safe_fields req_ok_def split: option.splits prod.splits)
next
  case (SendBlocks t added ids)
  show ?thesis
  proof (cases "map_of (relay_blocks s) t")
    case None
    with SendBlocks inv show ?thesis by (simp add: run_send_blocks_def safe_refl)
  next
    case (Some q)
    show ?thesis
    proof (cases q)
      case Nil
      with SendBlocks Some inv ok show ?thesis by (auto simp: run_send_blocks_def safe_refl)
    next
      case (Cons a q')
      have a: "a < length (heap s)"
        using server_inv_wf [OF inv] Some Cons by (auto simp: server_wf_def queues_valid_def)
      then have "req_ok B L n P (RelayBlockRequest i [Block_to_bytes L (heap s ! a)])" for i
        using written_ok(1) [OF spec inv, of "[a]" i] by simp
      then show ?thesis
        using SendBlocks Some Cons inv ok a safe_popped(1) [OF inv, of t a q']
        by (auto simp: run_send_blocks_def Let_def deref_def req_ok_append)
    qed
  qed
next
  case (SendCommits now t added)
  show ?thesis
  proof (cases "map_of (bcast_commit_blocks s) t")
    case None
    with SendCommits inv show ?thesis by (simp add: run_send_commits_def safe_refl)
  next
    case (Some q)
    show ?thesis
    proof (cases q)
      case Nil
      with SendCommits Some inv ok show ?thesis by (auto simp: run_send_commits_def safe_refl)
    next
      case (Cons a q')
      have a: "a < length (heap s)" "a \<in> decided s"
        using server_inv_wf [OF inv] Some Cons by (fastforce simp: server_wf_def queues_valid_def decided_def)+
      then have "req_ok B L n P (SPBcastCommitRequest i [Block_to_bytes L (heap s ! a)] ts)" for i ts
        using written_ok(2) [OF spec inv, of "[a]" i ts] by simp
      then show ?thesis
        using SendCommits Some Cons inv ok a safe_popped(2) [OF inv, of t a q']
        by (auto simp: run_send_commits_def Let_def deref_def req_ok_append)
    qed
  qed
next
  case SyncNext
  with inv show ?thesis
    by (auto simp: run_sync_next_def safe_refl safe_fields req_ok_def split: option.splits prod.splits)
qed (use inv ok in \<open>auto simp: safe_call_peer safe_fields safe_labels\<close>)

text \<open>All timer actions but the one that packs a block.\<close>

lemma timer_run:
  assumes inv: "server_inv B L n P g s" and ok: "timer_ok n (heap s) x" and own: "set (owner (Timer x)) \<inter> held s = {}"
    and "\<nexists>ord clk m. x = PackNext ord clk m"
  shows "safe B L n P g (owner (Timer x)) s (snd (run_timer B' L' C x s)) \<and>
    (\<forall>cs. fst (run_timer B' L' C x s) = Inr cs \<longrightarrow>
      (\<forall>c \<in> set cs. timer_ok n (heap (snd (run_timer B' L' C x s))) c \<and> owner (Timer c) = []))"
proof (cases x)
  case (MergeTake clk)
  show ?thesis
  proof (cases "pb_merge_queue s")
    case Nil
    with MergeTake inv show ?thesis by (simp add: run_merge_take_def safe_refl)
  next
    case (Cons a q)
    then have "decided_block n (heap s) a"
      using inv by (auto simp: server_inv_def server_wf_def decided_def)
    with MergeTake Cons safe_merge_take [OF inv Cons] show ?thesis by (auto simp: run_merge_take_def)
  qed
next
  case (MergeBlock now a)
  moreover have "fst (run_merge_block B' C now a s) = Inr cs \<Longrightarrow> cs = []" for cs
    by (auto simp: run_merge_block_def split: sum.splits)
  ultimately show ?thesis using ok by (auto simp: safe_merge_block [OF inv])
next
  case (MergeInsert a)
  moreover have "fst (run_merge_insert a s) = Inr cs \<Longrightarrow> cs = []" for cs
    by (auto simp: run_merge_insert_def split: sum.splits)
  ultimately show ?thesis using ok safe_merge_insert [OF inv] by auto
next
  case (MergePut a)
  moreover have "fst (run_merge_put L' a s) = Inr cs \<Longrightarrow> cs = []" for cs
    by (auto simp: run_merge_put_def split: sum.splits)
  ultimately show ?thesis by (auto simp: safe_merge_put [OF inv])
next
  case (MergePush a j)
  then show ?thesis using ok safe_merge_push [OF inv, of a "[]" j] by (auto simp: run_merge_push_def safe_refl [OF inv])
next
  case (DeadStart ord clk)
  with inv show ?thesis by (auto simp: run_dead_start_def safe_refl split: sum.splits)
next
  case (PackStart ord clk rng)
  with inv show ?thesis by (auto simp: run_pack_start_def safe_refl)
next
  case (PackPush a j)
  then show ?thesis using ok safe_pack_push [OF inv, of a "[]" j] by (auto simp: run_pack_push_def safe_refl [OF inv])
qed (use assms in \<open>auto simp: safe_remove_dead_one safe_generate_tx safe_pack_insert safe_pack_erase\<close>)

text \<open>Packing one block.\<close>

lemma pack_next_run:
  assumes inv: "server_inv B L n P g s" and run: "run_pack_next ord clk num m s = (r, s')"
  shows "packs B L n P g s s'" and "heap_le (heap s) (heap s')" and "held s' = held s"
    and "r = Inr cs \<Longrightarrow> (\<forall>c \<in> set cs. timer_ok n (heap s') c) \<and>
      (owners (map Timer cs) = [] \<or> owners (map Timer cs) = [length (heap s)])"
proof -
  have none: "packs B L n P g s s" using inv by (simp add: packs_def)
  let ?b = "packed_block ord (clk 0) num s"
  let ?s1 = "s\<lparr>blk_seq_generator := g + 1, heap := heap s @ [?b]\<rparr>"
  have g: "blk_seq_generator s = g" using inv by (simp add: server_inv_def)
  have new: "new_blocks s ?s1 = [?b]" by (simp add: new_blocks_def)
  have shares: "block_shares_ok B ?b" by (simp add: block_shares_ok_def Block_ok_def packed_block_facts)
  have "server_inv B L n (insert (core ?b) P) g s" using inv by (rule server_inv_mono) blast
  moreover have "server_wf (s\<lparr>heap := heap s @ [?b]\<rparr>)"
    using server_inv_wf [OF inv] shares by (intro server_wf_alloc) (simp_all add: block_shares_ok_def)
  ultimately have "server_inv B L n (insert (core ?b) P) g (s\<lparr>heap := heap s @ [?b]\<rparr>)"
    by (rule server_inv_alloc [where b = ?b]) (simp_all add: shares decided_def)
  then have "server_inv B L n (insert (core ?b) P) (g + 1) ?s1"
    by (simp add: server_inv_def decided_def server_wf_def)
  then have one: "packs B L n P g s ?s1" by (simp add: packs_def new packed_block_facts g)
  have id: "block_id ?b = g" by (simp add: packed_block_facts g)
  show "packs B L n P g s s'" and "heap_le (heap s) (heap s')" and "held s' = held s"
    and "r = Inr cs \<Longrightarrow> (\<forall>c \<in> set cs. timer_ok n (heap s') c) \<and>
      (owners (map Timer cs) = [] \<or> owners (map Timer cs) = [length (heap s)])"
  proof (atomize (full), cases "m = 0 \<or> \<not> unat num \<le> length (pending_txs s)")
    case True
    then have "r = Inr []" "s' = s" using run by (auto simp: run_pack_next_def split: nat.splits)
    with none show "(packs B L n P g s s' \<and> heap_le (heap s) (heap s')) \<and> held s' = held s \<and>
        (r = Inr cs \<longrightarrow> (\<forall>c \<in> set cs. timer_ok n (heap s') c) \<and>
          (owners (map Timer cs) = [] \<or> owners (map Timer cs) = [length (heap s)]))" by simp
  next
    case False
    then have "s' = ?s1" and "r = Inr [PackPush (length (heap s)) 0, PackInsert g (length (heap s)),
        PackErase (map fst (extract_txs num 0 (ord (pending_txs s)))), PackNext ord (\<lambda>i. clk (Suc i)) (m - 1)]"
      using run by (auto simp: run_pack_next_def alloc_def Let_def packed_block_def g split: nat.splits)
    with one id show "(packs B L n P g s s' \<and> heap_le (heap s) (heap s')) \<and> held s' = held s \<and>
        (r = Inr cs \<longrightarrow> (\<forall>c \<in> set cs. timer_ok n (heap s') c) \<and>
          (owners (map Timer cs) = [] \<or> owners (map Timer cs) = [length (heap s)]))" by (auto simp: held_def)
  qed
qed

subsection \<open>The invariant of the machine\<close>

definition owned :: "u64 \<Rightarrow> (u64 \<times> action list) list \<Rightarrow> addr list" where
  "owned i ths = owners (concat (map snd (filter (\<lambda>t. fst t = i) ths)))"

lemma owned_simps [simp]:
  "owned i [] = []" "owned i (xs @ ys) = owned i xs @ owned i ys"
  "owned i ((j, as) # ths) = (if j = i then owners as else []) @ owned i ths"
  by (simp_all add: owned_def)

text \<open>The packing thread runs on one server only.\<close>

fun placed :: "conf \<Rightarrow> u64 \<Rightarrow> action \<Rightarrow> bool" where
  "placed C i (Timer (PackStart ord clk rng)) = (i = cf_server_count C)"
| "placed C i (Timer (PackNext ord clk m)) = (i = cf_server_count C)"
| "placed C i a = True"

definition threads_ok :: "'ss blslib \<Rightarrow> 'r flexlib \<Rightarrow> conf \<Rightarrow> net \<Rightarrow> (u64 \<times> action list) list \<Rightarrow> bool" where
  "threads_ok B L C N ths \<longleftrightarrow>
     (\<forall>(i, as) \<in> set ths. \<forall>a \<in> set as.
        action_ok B L (cf_client_count C) (core ` set (packed N)) (heap (nodes N i)) a \<and> placed C i a) \<and>
     (\<forall>i. distinct (owned i ths) \<and> set (owned i ths) \<inter> held (nodes N i) = {})"

definition machine_inv :: "'ss blslib \<Rightarrow> 'r flexlib \<Rightarrow> conf \<Rightarrow> machine \<Rightarrow> bool" where
  "machine_inv B L C M \<longleftrightarrow> net_inv B L C (m_net M) \<and> threads_ok B L C (m_net M) (threads M)"

lemma owner_valid: "action_ok B L n P h a \<Longrightarrow> x \<in> set (owner a) \<Longrightarrow> x < length h"
  by (cases a rule: owner.cases) auto

lemma threads_ok_owned:
  assumes "threads_ok B L C N ths"
  shows "distinct (owned i ths)" and "set (owned i ths) \<inter> held (nodes N i) = {}"
  using assms by (simp_all add: threads_ok_def)

lemma owned_valid:
  assumes "threads_ok B L C N ths" and "x \<in> set (owned i ths)"
  shows "x < length (heap (nodes N i))"
  using assms by (fastforce simp: threads_ok_def owned_def dest: owner_valid)

text \<open>What one action does to its server, the packing of a block included.\<close>

definition acts_well :: "'ss blslib \<Rightarrow> 'r flexlib \<Rightarrow> conf \<Rightarrow> net \<Rightarrow> net \<Rightarrow> u64 \<Rightarrow> action \<Rightarrow> action list \<Rightarrow> bool" where
  "acts_well B L C N N' i a cs \<longleftrightarrow>
     net_inv B L C N' \<and> set (packed N) \<subseteq> set (packed N') \<and>
     heap_le (heap (nodes N i)) (heap (nodes N' i)) \<and> (\<forall>j. j \<noteq> i \<longrightarrow> nodes N' j = nodes N j) \<and>
     held (nodes N' i) \<subseteq> held (nodes N i) \<union> set (owner a) \<union> {length (heap (nodes N i))..} \<and>
     (\<forall>c \<in> set cs. action_ok B L (cf_client_count C) (core ` set (packed N')) (heap (nodes N' i)) c \<and> placed C i c) \<and>
     distinct (owners cs) \<and> set (owners cs) \<subseteq> {length (heap (nodes N i))..} - held (nodes N' i)"

text \<open>The actions of a thread after an action do not disturb the others.\<close>

lemma threads_ok_act:
  assumes ok: "threads_ok B L C N (xs @ (i, a # as) # ys)" and act: "acts_well B L C N N' i a cs"
  shows "threads_ok B L C N' (xs @ (i, cs @ as) # ys)"
proof -
  let ?n = "cf_client_count C" and ?old = "xs @ (i, a # as) # ys" and ?new = "xs @ (i, cs @ as) # ys"
  have le: "heap_le (heap (nodes N j)) (heap (nodes N' j))" for j
    using act by (cases "j = i") (simp_all add: acts_well_def)
  have keep: "action_ok B L ?n (core ` set (packed N')) (heap (nodes N' j)) c"
    if "action_ok B L ?n (core ` set (packed N)) (heap (nodes N j)) c" for j c
    using that _ le by (rule action_ok_mono) (use act in \<open>auto simp: acts_well_def\<close>)
  have acts: "\<forall>(j, bs) \<in> set ?new. \<forall>c \<in> set bs.
      action_ok B L ?n (core ` set (packed N')) (heap (nodes N' j)) c \<and> placed C j c"
  proof (intro ballI, clarify)
    fix j bs c assume "(j, bs) \<in> set ?new" and c: "c \<in> set bs"
    then consider "(j, bs) \<in> set ?old" | "j = i" "c \<in> set cs" | "j = i" "c \<in> set as" by auto
    then show "action_ok B L ?n (core ` set (packed N')) (heap (nodes N' j)) c \<and> placed C j c"
    proof cases
      case 1
      then show ?thesis using ok c unfolding threads_ok_def by (blast intro: keep)
    next
      case 2
      then show ?thesis using act unfolding acts_well_def by blast
    next
      case 3
      then have "(i, a # as) \<in> set ?old" "c \<in> set (a # as)" by simp_all
      then show ?thesis using ok 3(1) unfolding threads_ok_def by (blast intro: keep)
    qed
  qed
  have "distinct (owned j ?new) \<and> set (owned j ?new) \<inter> held (nodes N' j) = {}" for j
  proof (cases "j = i")
    case False
    then have "owned j ?new = owned j ?old" "nodes N' j = nodes N j" using act by (simp_all add: acts_well_def)
    then show ?thesis using threads_ok_owned [OF ok, of j] by presburger
  next
    case True
    let ?l = "length (heap (nodes N i))"
    note old = threads_ok_owned [OF ok, of i]
    have small: "x < ?l" if "x \<in> set (owned i ?old)" for x using owned_valid [OF ok that] .
    have conts: "distinct (owners cs)" "set (owners cs) \<subseteq> {?l..}" "set (owners cs) \<inter> held (nodes N' i) = {}"
      and grow: "held (nodes N' i) \<subseteq> held (nodes N i) \<union> set (owner a) \<union> {?l..}"
      using act by (auto simp: acts_well_def)
    have "distinct (owned i ?new)" using old(1) small conts(1,2) by fastforce
    moreover have "set (owned i ?new) \<inter> held (nodes N' i) = {}"
      using old small conts(3) grow by fastforce
    ultimately show ?thesis using True by simp
  qed
  with acts show ?thesis by (simp add: threads_ok_def)
qed

lemma acts_well_safe:
  assumes inv: "net_inv B L C N" and none: "packed_by a (nodes N i) s' = []"
    and safe: "\<And>g. server_inv B L (cf_client_count C) (core ` set (packed N)) g (nodes N i) \<Longrightarrow>
      safe B L (cf_client_count C) (core ` set (packed N)) g (owner a) (nodes N i) s'"
    and conts: "\<forall>c \<in> set cs. action_ok B L (cf_client_count C) (core ` set (packed N)) (heap s') c \<and> placed C i c \<and> owner c = []"
  shows "acts_well B L C N (moved a i s' N) i a cs"
proof -
  have N': "moved a i s' N = set_node i s' N" by (simp add: moved_def none)
  have "net_inv B L C (set_node i s' N)"
    using inv by (rule net_inv_set_node) (use safe in \<open>simp add: safe_def\<close>)
  moreover have own: "owners cs = []" using conts by simp
  ultimately show ?thesis
    using safe [OF net_inv_node [OF inv]] conts unfolding acts_well_def N' safe_def own by simp
qed

abbreviation next_actions :: "action list res \<Rightarrow> action list" where
  "next_actions r \<equiv> (case r of Inl e \<Rightarrow> [] | Inr cs \<Rightarrow> cs)"

text \<open>The same for an action of one of the four kinds.\<close>

lemma acts_well_kind:
  assumes inv: "net_inv B L C N" and run: "run B L K C a (nodes N i) = (r, s')"
    and kind: "run B L K C a (nodes N i) = continue c p" and none: "\<And>s1. packed_by a (nodes N i) s1 = []"
    and good: "\<And>g. server_inv B L (cf_client_count C) (core ` set (packed N)) g (nodes N i) \<Longrightarrow>
      safe B L (cf_client_count C) (core ` set (packed N)) g (owner a) (nodes N i) (snd p) \<and>
      (\<forall>ds. fst p = Inr ds \<longrightarrow> (\<forall>d \<in> set ds.
        action_ok B L (cf_client_count C) (core ` set (packed N)) (heap (snd p)) (c d) \<and> owner (c d) = []))"
    and placed: "\<And>ds d. fst p = Inr ds \<Longrightarrow> d \<in> set ds \<Longrightarrow> placed C i (c d)"
  shows "acts_well B L C N (moved a i s' N) i a (next_actions r)"
proof (rule acts_well_safe [OF inv none])
  have s': "s' = snd p" using run kind by (auto simp: continue_def split: prod.splits sum.splits)
  show "safe B L (cf_client_count C) (core ` set (packed N)) g (owner a) (nodes N i) s'"
    if "server_inv B L (cf_client_count C) (core ` set (packed N)) g (nodes N i)" for g
    using good [OF that] by (simp add: s')
  show "\<forall>x \<in> set (next_actions r). action_ok B L (cf_client_count C) (core ` set (packed N)) (heap s') x \<and>
      placed C i x \<and> owner x = []"
  proof (cases "fst p")
    case (Inr ds)
    then have "r = Inr (map c ds)" using run kind by (cases p) (simp add: continue_def)
    then show ?thesis using good [OF net_inv_node [OF inv]] placed Inr by (auto simp: s')
  next
    case (Inl e)
    then have "r = Inl e" using run kind by (cases p) (simp add: continue_def)
    then show ?thesis by simp
  qed
qed

lemma placed_simps [simp]: "placed C i (Client x)" "placed C i (Peer y)" "placed C i (Send z)"
  by simp_all

lemma timer_placed:
  assumes "placed C i (Timer x)" and "\<nexists>ord clk m. x = PackNext ord clk m"
    and "fst (run_timer B L C x s) = Inr ds" and "d \<in> set ds"
  shows "placed C i (Timer d)"
  using assms
  by (cases x) (auto simp: run_merge_take_def run_merge_block_def run_merge_insert_def run_merge_put_def
      run_merge_push_def run_dead_start_def run_pack_start_def run_pack_push_def split: option.splits prod.splits sum.splits if_splits)

lemma pack_next_acts_well:
  assumes inv: "net_inv B L C N" and here: "i = cf_server_count C"
    and run: "run B L K C (Timer (PackNext ord clk m)) (nodes N i) = (r, s')"
  shows "acts_well B L C N (moved (Timer (PackNext ord clk m)) i s' N) i (Timer (PackNext ord clk m)) (next_actions r)"
proof -
  let ?n = "cf_client_count C" and ?s = "nodes N i" and ?num = "cf_tx_per_block C"
  let ?N' = "moved (Timer (PackNext ord clk m)) i s' N"
  obtain p where p: "run_pack_next ord clk ?num m ?s = (p, s')" and r: "continue Timer (p, s') = (r, s')"
    using run by (cases "run_pack_next ord clk ?num m ?s") (auto simp: continue_def split: sum.splits)
  note one = pack_next_run [OF net_inv_node [OF inv] p]
  have "net_inv B L C ?N'"
    unfolding moved_def packed_by.simps by (rule net_inv_pack [OF inv here]) (rule pack_next_run(1) [OF _ p])
  moreover have small: "x < length (heap ?s)" if "x \<in> held ?s" for x
    using that server_inv_wf [OF net_inv_node [OF inv, of i]] by (auto simp: held_def server_wf_def keyed_def ran_def)
  moreover have conts: "\<forall>c \<in> set cs. timer_ok ?n (heap s') c"
    "owners (map Timer cs) = [] \<or> owners (map Timer cs) = [length (heap ?s)]" if "p = Inr cs" for cs
    using one(4) [OF that] by blast+
  have "distinct (owners (next_actions r)) \<and> set (owners (next_actions r)) \<subseteq> {length (heap ?s)..} - held ?s \<and>
      (\<forall>c \<in> set (next_actions r). action_ok B L ?n (core ` set (packed ?N')) (heap s') c \<and> placed C i c)"
  proof (cases p)
    case (Inl e)
    then have "r = Inl e" using r by simp
    then show ?thesis by simp
  next
    case (Inr cs)
    then have "r = Inr (map Timer cs)" using r by simp
    moreover have "placed C i (Timer c)" for c using here by (cases c) simp_all
    moreover
    have "distinct os \<and> set os \<subseteq> {length (heap ?s)..} - held ?s" if "os = [] \<or> os = [length (heap ?s)]" for os
      using that small [of "length (heap ?s)"] by auto
    note this [OF conts(2) [OF Inr]]
    ultimately show ?thesis using conts(1) [OF Inr] by simp
  qed
  ultimately show ?thesis
    using one(2,3) unfolding acts_well_def by (simp add: moved_def)
qed

lemma run_acts_well:
  assumes spec: "bls_ctor_spec B" "flexlib_spec L" and inv: "net_inv B L C N"
    and ok: "action_ok B L (cf_client_count C) (core ` set (packed N)) (heap (nodes N i)) a" and here: "placed C i a"
    and own: "set (owner a) \<inter> held (nodes N i) = {}" and run: "run B L K C a (nodes N i) = (r, s')"
  shows "acts_well B L C N (moved a i s' N) i a (next_actions r)"
proof (cases a)
  case (Client x)
  show ?thesis
    by (rule acts_well_kind [OF inv run, where c = Client and p = "run_client B L K C x (nodes N i)"])
      (use ok client_run [OF spec(1), where L = L and x = x] in \<open>auto simp: Client\<close>)
next
  case (Peer x)
  show ?thesis
    by (rule acts_well_kind [OF inv run, where c = Peer and p = "run_peer B L C x (nodes N i)"])
      (use ok peer_run [OF spec(1), where L = L and x = x] in \<open>auto simp: Peer\<close>)
next
  case (Send x)
  show ?thesis
    by (rule acts_well_kind [OF inv run, where c = Send and p = "run_sender L C x (nodes N i)"])
      (use ok sender_run [OF spec(2), where B = B and x = x] in \<open>auto simp: Send\<close>)
next
  case (Timer x)
  show ?thesis
  proof (cases "\<exists>ord clk m. x = PackNext ord clk m")
    case True
    then obtain ord clk m where a: "a = Timer (PackNext ord clk m)" using Timer by blast
    have "i = cf_server_count C" using here by (simp add: a)
    then show ?thesis using run unfolding a by (rule pack_next_acts_well [OF inv])
  next
    case False
    have none: "packed_by a (nodes N i) s1 = []" for s1
      using False by (cases x) (simp_all add: Timer)
    show ?thesis
    proof (rule acts_well_kind [OF inv run, where c = Timer and p = "run_timer B L C x (nodes N i)"])
      show "placed C i (Timer d)" if "fst (run_timer B L C x (nodes N i)) = Inr ds" "d \<in> set ds" for ds d
        using here unfolding Timer by (rule timer_placed [OF _ False that])
    qed (use ok own none timer_run [where B = B and L = L and B' = B and L' = L and x = x] False in \<open>auto simp: Timer\<close>)
  qed
qed

subsubsection \<open>Threads that start\<close>

lemma spawn_owner: "spawns C N i as \<Longrightarrow> a \<in> set as \<Longrightarrow> owner a = [] \<and> placed C i a"
  by (induction rule: spawns.induct) auto

lemma peer_actions_ok:
  assumes "req_ok B L n P req" and "x \<in> set (peer_actions clk req)"
  shows "peer_ok B L n P x"
proof (cases req)
  case (SPBcastCommitRequest i bs ts)
  with assms obtain j b where "x = CommitItem clk j b" "b \<in> set bs"
    by (auto simp: peer_actions_def in_set_enumerate_eq)
  with assms(1) SPBcastCommitRequest show ?thesis by (simp add: req_ok_def)
qed (use assms in \<open>auto simp: peer_actions_def req_ok_def\<close>)

lemma spawn_ok:
  assumes inv: "net_inv B L C N" and "spawns C N i as" and "a \<in> set as"
  shows "action_ok B L (cf_client_count C) (core ` set (packed N)) h a"
  using assms(2,3)
proof (cases rule: spawns.cases)
  case (deliver req j clk)
  have "\<forall>m \<in> set (outbox (nodes N j)). req_ok B L (cf_client_count C) (core ` set (packed N)) (snd m)"
    using net_inv_node [OF inv, of j] unfolding server_inv_def by blast
  then have "req_ok B L (cf_client_count C) (core ` set (packed N)) req"
    using deliver(2) by fastforce
  from peer_actions_ok [OF this] show ?thesis using assms(3) unfolding deliver(1) by auto
qed (auto simp: heartbeat_actions_def vote_actions_def block_actions_def commit_actions_def req_ok_def)

lemma threads_ok_drop:
  assumes "threads_ok B L C N (xs @ (i, as) # ys)"
  shows "threads_ok B L C N (xs @ ys)"
proof -
  have "distinct (owned j (xs @ ys)) \<and> set (owned j (xs @ ys)) \<inter> held (nodes N j) = {}" for j
    using threads_ok_owned [OF assms, of j] by auto
  with assms show ?thesis by (simp add: threads_ok_def)
qed

lemma machine_inv_step:
  assumes spec: "bls_ctor_spec B" "flexlib_spec L" and step: "mstep B L K C M M'" and inv: "machine_inv B L C M"
  shows "machine_inv B L C M'"
proof -
  have net: "net_inv B L C (m_net M)" and ths: "threads_ok B L C (m_net M) (threads M)"
    using inv by (simp_all add: machine_inv_def)
  have act: "acts_well B L C (m_net M) (moved a i s' (m_net M)) i a (next_actions r)"
    if ok: "threads_ok B L C (m_net M) (xs @ (i, a # as) # ys)" and "run B L K C a (nodes (m_net M) i) = (r, s')"
    for xs i a as ys r s'
  proof (rule run_acts_well [OF spec net _ _ _ that(2)])
    show "action_ok B L (cf_client_count C) (core ` set (packed (m_net M))) (heap (nodes (m_net M) i)) a" and "placed C i a"
      using ok by (auto simp: threads_ok_def)
    show "set (owner a) \<inter> held (nodes (m_net M) i) = {}" using threads_ok_owned(2) [OF ok, of i] by auto
  qed
  show ?thesis
    using step
  proof (cases rule: mstep.cases)
    case (spawn i as)
    have "owners as = []" using spawn_owner [OF spawn(2)] by simp
    then have "owned j (threads M @ [(i, as)]) = owned j (threads M)" for j by simp
    then have "threads_ok B L C (m_net M) (threads M @ [(i, as)])"
      using ths spawn_ok [OF net spawn(2)] spawn_owner [OF spawn(2)] unfolding threads_ok_def by auto
    then show ?thesis using net spawn(1) by (simp add: machine_inv_def)
  next
    case (exec xs i a as ys cs s')
    note well = act [OF ths [unfolded exec(2)] exec(3)]
    have "net_inv B L C (moved a i s' (m_net M))" using well by (simp add: acts_well_def)
    then show ?thesis
      using threads_ok_act [OF ths [unfolded exec(2)] well] exec(1) by (simp add: machine_inv_def)
  next
    case (fail xs i a as ys e s')
    note well = act [OF ths [unfolded fail(2)] fail(3)]
    have "net_inv B L C (moved a i s' (m_net M))" using well by (simp add: acts_well_def)
    moreover have "threads_ok B L C (moved a i s' (m_net M)) (xs @ (i, as) # ys)"
      using threads_ok_act [OF ths [unfolded fail(2)] well] by simp
    then have "threads_ok B L C (moved a i s' (m_net M)) (xs @ ys)" by (rule threads_ok_drop)
    ultimately show ?thesis using fail(1) by (simp add: machine_inv_def)
  next
    case (exit xs i ys)
    have "threads_ok B L C (m_net M) (xs @ ys)" using ths [unfolded exit(2)] by (rule threads_ok_drop)
    then show ?thesis using net exit(1) by (simp add: machine_inv_def)
  qed
qed

lemma machine_inv_interleaved:
  assumes spec: "bls_ctor_spec B" "flexlib_spec L" and "interleaved B L K C M"
  shows "machine_inv B L C M"
  using assms(3)
proof induction
  case start
  show ?case by (simp add: machine_inv_def net_inv_initial threads_ok_def)
next
  case (step M M')
  then show ?case using machine_inv_step [OF spec] by blast
qed

lemma net_inv_interleaved:
  assumes "bls_ctor_spec B" "flexlib_spec L" and "interleaved B L K C M"
  shows "net_inv B L C (m_net M)"
  using machine_inv_interleaved [OF assms] by (simp add: machine_inv_def)

end
