(* ===== verification/TC_Interleaving.thy ===== *)
theory TC_Interleaving
  imports TC_Threads
begin

text \<open>
  What the interleaved threads of \<open>TC_Threads\<close> can and cannot do. A thread may run to its end
  at once, so every step of \<open>net_step\<close> is a sequence of steps of the machine from any state,
  with any other threads under way; all that \<open>TC_Network\<close> shows to be possible is possible here. No
  action undoes what \<open>after\<close> lists. No action of a sender or a timer fails, apart from the
  merging of votes, which may fail in the library. The last section has a concrete interleaving.
\<close>

subsection \<open>Sequential runs\<close>

abbreviation msteps :: "'ss blslib \<Rightarrow> 'r flexlib \<Rightarrow> keylib \<Rightarrow> conf \<Rightarrow> machine \<Rightarrow> machine \<Rightarrow> bool" where
  "msteps B L K C \<equiv> (mstep B L K C)\<^sup>*\<^sup>*"

text \<open>A step of a thread that is under way already.\<close>

definition tstep :: "'ss blslib \<Rightarrow> 'r flexlib \<Rightarrow> keylib \<Rightarrow> conf \<Rightarrow> machine \<Rightarrow> machine \<Rightarrow> bool" where
  "tstep B L K C M M' \<longleftrightarrow> mstep B L K C M M' \<and> length (threads M') \<le> length (threads M)"

abbreviation tsteps :: "'ss blslib \<Rightarrow> 'r flexlib \<Rightarrow> keylib \<Rightarrow> conf \<Rightarrow> machine \<Rightarrow> machine \<Rightarrow> bool" where
  "tsteps B L K C \<equiv> (tstep B L K C)\<^sup>*\<^sup>*"

lemma tsteps_msteps: "tsteps B L K C M M' \<Longrightarrow> msteps B L K C M M'"
  by (induction rule: rtranclp_induct) (auto simp: tstep_def intro: rtranclp.rtrancl_into_rtrancl)

lemma tstep_intros:
  assumes "threads M = xs @ (i, as) # ys"
  shows "as = [] \<Longrightarrow> tstep B L K C M (M\<lparr>threads := xs @ ys\<rparr>)"
    and "as = a # as' \<Longrightarrow> run B L K C a (nodes (m_net M) i) = (Inl e, s') \<Longrightarrow>
      tstep B L K C M \<lparr>m_net = moved a i s' (m_net M), threads = xs @ ys\<rparr>"
    and "as = a # as' \<Longrightarrow> run B L K C a (nodes (m_net M) i) = (Inr cs, s') \<Longrightarrow>
      tstep B L K C M \<lparr>m_net = moved a i s' (m_net M), threads = xs @ (i, cs @ as') # ys\<rparr>"
  using assms by (auto simp: tstep_def simp del: run.simps intro: mstep.intros)

lemma interleaved_steps: "msteps B L K C M M' \<Longrightarrow> interleaved B L K C M \<Longrightarrow> interleaved B L K C M'"
  by (induction rule: rtranclp_induct) (blast intro: interleaved.step)+

lemma machine_eta: "M\<lparr>m_net := N\<rparr> = \<lparr>m_net = N, threads = threads M\<rparr>"
  by (cases M) simp

text \<open>
  A thread may run to its end at once. \<open>kind\<close> is a property of actions that the actions they
  lead to inherit, and \<open>grow\<close> the blocks that actions of this kind pack.
\<close>

lemma runs_tsteps:
  assumes "runs B L K C as s r" and "\<forall>a \<in> set as. kind a"
    and conts: "\<And>a s cs s'. kind a \<Longrightarrow> run B L K C a s = (Inr cs, s') \<Longrightarrow> \<forall>c \<in> set cs. kind c"
    and one: "\<And>a s r s'. kind a \<Longrightarrow> run B L K C a s = (r, s') \<Longrightarrow> packed_by a s s' = grow s s'"
    and refl: "\<And>s. grow s s = []"
    and trans: "\<And>a s cs s1 as r. kind a \<Longrightarrow> run B L K C a s = (Inr cs, s1) \<Longrightarrow> \<forall>c \<in> set as. kind c \<Longrightarrow>
      runs B L K C as s1 r \<Longrightarrow> grow s s1 @ grow s1 (snd r) = grow s (snd r)"
    and "nodes (m_net M) i = s" and "threads M = xs @ (i, as) # ys"
  shows "tsteps B L K C M \<lparr>m_net = (set_node i (snd r) (m_net M))\<lparr>packed := packed (m_net M) @ grow s (snd r)\<rparr>, threads = xs @ ys\<rparr>"
  using assms(1,2,7,8)
proof (induction arbitrary: M rule: runs.induct)
  case (ended s)
  have eq: "\<lparr>m_net = (set_node i (snd (None, s)) (m_net M))\<lparr>packed := packed (m_net M) @ grow s (snd (None, s))\<rparr>,
      threads = xs @ ys\<rparr> = M\<lparr>threads := xs @ ys\<rparr>"
    using ended.prems(2) by (auto simp: refl)
  show ?case unfolding eq using tstep_intros(1) [OF ended.prems(3) HOL.refl] by (rule r_into_rtranclp)
next
  case (failed a s e s' as)
  have "run B L K C a (nodes (m_net M) i) = (Inl e, s')" using failed by simp
  note step = tstep_intros(2) [OF failed.prems(3) HOL.refl this]
  have eq: "packed_by a s s' = grow s s'" using failed.prems(1) failed.hyps by (intro one) simp_all
  show ?case using step unfolding moved_def failed.prems(2) eq snd_conv by (rule r_into_rtranclp)
next
  case (continues a s cs s' as r)
  have run: "run B L K C a (nodes (m_net M) i) = (Inr cs, s')" using continues by simp
  let ?M = "\<lparr>m_net = moved a i s' (m_net M), threads = xs @ (i, cs @ as) # ys\<rparr>"
  have kinds: "\<forall>c \<in> set (cs @ as). kind c"
    using continues.prems(1) conts [OF _ continues.hyps(1)] by auto
  let ?M2 = "\<lparr>m_net = (set_node i (snd r) (m_net ?M))\<lparr>packed := packed (m_net ?M) @ grow s' (snd r)\<rparr>, threads = xs @ ys\<rparr>"
  have "packed_by a s s' = grow s s'" using continues.prems(1) continues.hyps(1) by (intro one) simp_all
  then have "packed_by a s s' @ grow s' (snd r) = grow s (snd r)"
    using trans [OF _ continues.hyps(1) kinds continues.hyps(2)] continues.prems(1) by simp
  then have eq: "\<lparr>m_net = (set_node i (snd r) (m_net M))\<lparr>packed := packed (m_net M) @ grow s (snd r)\<rparr>, threads = xs @ ys\<rparr> = ?M2"
    using continues.prems(2) by (simp add: moved_def)
  have "tstep B L K C M ?M" using tstep_intros(3) [OF continues.prems(3) HOL.refl run] .
  moreover have "tsteps B L K C ?M ?M2" by (rule continues.IH [OF kinds]) (simp_all add: moved_def)
  ultimately show ?case unfolding eq by (rule converse_rtranclp_into_rtranclp)
qed

text \<open>Actions that do not pack, and the actions of a packing round.\<close>

fun packing :: "timer_action \<Rightarrow> bool" where
  "packing (PackStart ord clk rng) = True"
| "packing (GenerateTx rng) = True"
| "packing (PackNext ord clk m) = True"
| "packing (PackPush a j) = True"
| "packing (PackInsert k a) = True"
| "packing (PackErase ks) = True"
| "packing x = False"

fun plain :: "action \<Rightarrow> bool" where
  "plain (Timer x) = (\<not> packing x)"
| "plain x = True"

abbreviation pack_kind :: "action \<Rightarrow> bool" where
  "pack_kind a \<equiv> (\<exists>x. a = Timer x \<and> packing x)"

lemmas run_timer_defs = run_merge_take_def run_merge_block_def run_merge_insert_def run_merge_put_def
  run_merge_push_def run_dead_start_def run_pack_start_def run_pack_next_def run_pack_push_def

lemma plain_next:
  assumes "plain a" and "run B L K C a s = (Inr cs, s')"
  shows "\<forall>c \<in> set cs. plain c"
proof (cases a)
  case (Timer x)
  then show ?thesis
    using assms by (cases x) (auto simp: run_timer_defs continue_def finish_def
      split: prod.splits sum.splits option.splits if_splits)
qed (use assms in \<open>auto simp: continue_def split: prod.splits sum.splits\<close>)

lemma plain_packs: "plain a \<Longrightarrow> packed_by a s s' = []"
  by (cases a rule: plain.cases) (auto elim: packing.elims)

lemma pack_next:
  assumes "pack_kind a" and "run B L K C a s = (r, s')"
  shows "r = Inr cs \<Longrightarrow> \<forall>c \<in> set cs. pack_kind c" and "packed_by a s s' = new_blocks s s'"
    and "\<exists>bs. heap s' = heap s @ bs"
proof -
  obtain x where x: "a = Timer x" "packing x" using assms(1) by blast
  show "r = Inr cs \<Longrightarrow> \<forall>c \<in> set cs. pack_kind c" and "packed_by a s s' = new_blocks s s'"
    and "\<exists>bs. heap s' = heap s @ bs"
    using assms(2) x
    by (cases x; auto simp: run_timer_defs alloc_def Let_def new_blocks_def generate_tx_def split: if_splits nat.splits)+
qed

lemma pack_runs_heap:
  "runs B L K C as s r \<Longrightarrow> \<forall>a \<in> set as. pack_kind a \<Longrightarrow> \<exists>bs. heap (snd r) = heap s @ bs"
proof (induction rule: runs.induct)
  case (failed a s e s' as)
  then show ?case using pack_next(3) [of a B L K C s "Inl e" s'] by simp
next
  case (continues a s cs s' as r)
  have a: "pack_kind a" using continues.prems by simp
  have "\<forall>c \<in> set (cs @ as). pack_kind c"
    using pack_next(1) [OF a continues.hyps(1)] continues.prems by auto
  with continues.IH pack_next(3) [OF a continues.hyps(1)] show ?case by auto
qed simp

lemma spawn_runs:
  assumes "spawns C (m_net M) i as" and "runs B L K C as (nodes (m_net M) i) r" and "\<forall>a \<in> set as. plain a"
  shows "msteps B L K C M (M\<lparr>m_net := set_node i (snd r) (m_net M)\<rparr>)"
    and "tsteps B L K C (M\<lparr>threads := threads M @ [(i, as)]\<rparr>) (M\<lparr>m_net := set_node i (snd r) (m_net M)\<rparr>)"
proof -
  let ?M = "M\<lparr>threads := threads M @ [(i, as)]\<rparr>"
  have "mstep B L K C M ?M" using assms(1) by (rule mstep.spawn)
  moreover have "tsteps B L K C ?M \<lparr>m_net = (set_node i (snd r) (m_net ?M))\<lparr>packed := packed (m_net ?M) @ []\<rparr>,
      threads = threads M @ []\<rparr>"
    by (rule runs_tsteps [OF assms(2), where kind = plain and grow = "\<lambda>s s'. []"])
      (use assms(3) in \<open>auto simp: plain_packs simp del: run.simps dest: plain_next\<close>)
  then show "tsteps B L K C ?M (M\<lparr>m_net := set_node i (snd r) (m_net M)\<rparr>)" by (simp add: machine_eta)
  ultimately show "msteps B L K C M (M\<lparr>m_net := set_node i (snd r) (m_net M)\<rparr>)"
    by (meson converse_rtranclp_into_rtranclp tsteps_msteps)
qed

lemma spawn_pack:
  assumes "spawns C (m_net M) i as" and "runs B L K C as (nodes (m_net M) i) r" and "\<forall>a \<in> set as. pack_kind a"
  shows "msteps B L K C M (M\<lparr>m_net := (set_node i (snd r) (m_net M))
    \<lparr>packed := packed (m_net M) @ new_blocks (nodes (m_net M) i) (snd r)\<rparr>\<rparr>)"
    and "tsteps B L K C (M\<lparr>threads := threads M @ [(i, as)]\<rparr>) (M\<lparr>m_net := (set_node i (snd r) (m_net M))
      \<lparr>packed := packed (m_net M) @ new_blocks (nodes (m_net M) i) (snd r)\<rparr>\<rparr>)"
proof -
  let ?M = "M\<lparr>threads := threads M @ [(i, as)]\<rparr>"
  have "mstep B L K C M ?M" using assms(1) by (rule mstep.spawn)
  moreover have "tsteps B L K C ?M \<lparr>m_net = (set_node i (snd r) (m_net ?M))
      \<lparr>packed := packed (m_net ?M) @ new_blocks (nodes (m_net M) i) (snd r)\<rparr>, threads = threads M @ []\<rparr>"
  proof (rule runs_tsteps [OF assms(2), where kind = pack_kind and grow = new_blocks])
    fix a s cs s1 as r
    assume h: "pack_kind a" "run B L K C a s = (Inr cs, s1)" "\<forall>c \<in> set as. pack_kind c" "runs B L K C as s1 r"
    obtain bs where bs: "heap s1 = heap s @ bs" using pack_next(3) [OF h(1,2)] by blast
    obtain ds where "heap (snd r) = heap s1 @ ds" using pack_runs_heap [OF h(4,3)] by blast
    then show "new_blocks s s1 @ new_blocks s1 (snd r) = new_blocks s (snd r)" by (simp add: new_blocks_def bs)
  qed (use assms(3) pack_next [where B = B and L = L] in \<open>auto simp del: run.simps\<close>)
  then show "tsteps B L K C ?M (M\<lparr>m_net := (set_node i (snd r) (m_net M))
      \<lparr>packed := packed (m_net M) @ new_blocks (nodes (m_net M) i) (snd r)\<rparr>\<rparr>)" by (simp add: machine_eta)
  ultimately show "msteps B L K C M (M\<lparr>m_net := (set_node i (snd r) (m_net M))
      \<lparr>packed := packed (m_net M) @ new_blocks (nodes (m_net M) i) (snd r)\<rparr>\<rparr>)"
    by (meson converse_rtranclp_into_rtranclp tsteps_msteps)
qed

lemma net_step_msteps:
  assumes "net_step B L K C (m_net M) N"
  shows "msteps B L K C M (M\<lparr>m_net := N\<rparr>)"
  using assms
proof (cases rule: net_step.cases)
  case (pack i ord s' clk rng)
  have "spawns C (m_net M) i [Timer (PackStart ord clk rng)]" using spawns.pack [OF pack(3)] pack(2) by simp
  from spawn_pack(1) [OF this runs_pack_round] show ?thesis using pack by simp
next
  case (register i client pkey)
  from spawn_runs(1) [OF spawns.register runs_register] show ?thesis using register by simp
next
  case (pull ord i clk client)
  from spawn_runs(1) [OF spawns.pull [OF pull(2)] runs_PullPendingBlocks] show ?thesis using pull by simp
next
  case (vote i client voted)
  from spawn_runs(1) [OF spawns.vote runs_VoteBlocks] show ?thesis using vote by simp
next
  case (merge i clk)
  from spawn_runs(1) [OF spawns.merge runs_merge_votes] show ?thesis using merge by simp
next
  case (remove_dead ord i clk)
  from spawn_runs(1) [OF spawns.remove_dead [OF remove_dead(2)] runs_remove_dead_blocks] show ?thesis using remove_dead by simp
next
  case (heartbeats i ok)
  from spawn_runs(1) [OF spawns.heartbeats runs_senders(1)] show ?thesis using heartbeats by simp
next
  case (votes_out i)
  from spawn_runs(1) [OF spawns.votes_out runs_senders(2)] show ?thesis using votes_out by simp
next
  case (blocks_out i)
  from spawn_runs(1) [OF spawns.blocks_out runs_senders(3)] show ?thesis using blocks_out by simp
next
  case (commits_out i clk)
  from spawn_runs(1) [OF spawns.commits_out runs_senders(4)] show ?thesis using commits_out by simp
next
  case (deliver t req i clk)
  from spawn_runs(1) [OF spawns.deliver [OF deliver(2)] runs_handle_peer] show ?thesis using deliver by simp
qed

lemma net_steps_msteps:
  "net_steps B L K C N N' \<Longrightarrow> m_net M = N \<Longrightarrow> msteps B L K C M (M\<lparr>m_net := N'\<rparr>)"
proof (induction arbitrary: rule: rtranclp_induct)
  case base
  then show ?case by auto
next
  case (step N1 N2)
  have "msteps B L K C (M\<lparr>m_net := N1\<rparr>) ((M\<lparr>m_net := N1\<rparr>)\<lparr>m_net := N2\<rparr>)"
    using step(2) by (intro net_step_msteps) simp
  then show ?case using step.IH [OF step.prems] by simp
qed

lemma reachable_interleaved: "reachable B L K C N \<Longrightarrow> interleaved B L K C \<lparr>m_net = N, threads = []\<rparr>"
proof (induction rule: reachable.induct)
  case (step N N')
  let ?M = "\<lparr>m_net = N, threads = []\<rparr>"
  have "msteps B L K C ?M (?M\<lparr>m_net := N'\<rparr>)" using step(2) by (intro net_step_msteps) simp
  with step.IH show ?case by (auto intro: interleaved_steps)
qed (rule interleaved.start)

subsection \<open>What no action undoes\<close>

lemma push_nth_keys: "dom (map_of (push_nth x j qs)) = dom (map_of qs)"
proof -
  have "map fst (push_nth x j qs) = map fst qs"
    by (cases "j < length qs") (simp_all add: push_nth_def map_update list_update_same_conv list_update_beyond)
  then show ?thesis unfolding dom_map_of_conv_image_fst by (metis list.set_map)
qed

lemma after_client: "after s (snd (run_client B L K C x s))"
proof (cases x)
  case (RegisterClient i d)
  have "snd (run_register K i d s) = snd (Register K i d s)"
    by (simp add: run_register_def split: prod.split sum.split)
  with RegisterClient show ?thesis by (simp add: after_Register)
qed (auto simp: run_pull_item_def run_pull_offer_def run_vote_item_def set_dist_ts_def see_block_def write_block_def
    after_relay_vote_to after_count_vote split: option.split sum.split)

lemma after_peer: "after s (snd (run_peer B L C x s))"
  by (cases x) (auto simp: run_relayed_vote_def relay_block_one_effect after_commit_one after_count_vote
      RelayBlockSync_handler_def split: option.split sum.split)

lemma after_sender: "after s (snd (run_sender L C x s))"
proof (cases x)
  case (CallPeer t req)
  then show ?thesis by (simp add: after_call_peer)
qed (auto simp: run_status_def run_send_votes_def run_send_blocks_def run_send_commits_def run_sync_next_def
      Let_def after_simps split: option.split sum.split prod.split)

lemma after_timer: "after s (snd (run_timer B L C x s))"
proof (cases x)
  case (DeadItem now i)
  then show ?thesis using remove_dead_one_shape [of C now i s] by auto
qed (auto simp: run_timer_defs alloc_def Let_def write_block_def generate_tx_def push_nth_keys after_simps
      split: option.split sum.split prod.split nat.split)

lemma snd_continue [simp]: "snd (continue c p) = snd p"
  by (simp add: continue_def split: prod.split sum.split)

lemma after_run: "run B L K C a s = (r, s') \<Longrightarrow> after s s'"
proof -
  have "after s (snd (run B L K C a s))"
    by (cases a) (simp_all add: after_client after_peer after_sender after_timer)
  then show "run B L K C a s = (r, s') \<Longrightarrow> after s s'" by simp
qed

lemma mstep_after:
  assumes "mstep B L K C M M'"
  shows "after (nodes (m_net M) i) (nodes (m_net M') i)" and "\<exists>ps. packed (m_net M') = packed (m_net M) @ ps"
  using assms by (cases rule: mstep.cases; auto simp: moved_def dest: after_run simp del: run.simps)+

lemma msteps_after:
  "msteps B L K C M M' \<Longrightarrow>
     after (nodes (m_net M) i) (nodes (m_net M') i) \<and> (\<exists>ps. packed (m_net M') = packed (m_net M) @ ps)"
proof (induction rule: rtranclp_induct)
  case (step M1 M2)
  then show ?case
    using mstep_after [OF step(2)] after_trans by fastforce
qed simp

lemma interleaved_msteps:
  assumes "interleaved B L K C M"
  shows "msteps B L K C \<lparr>m_net = initial K C, threads = []\<rparr> M"
  using assms by induction (auto intro: rtranclp.rtrancl_into_rtrancl)

lemma interleaved_after: "interleaved B L K C M \<Longrightarrow> after (nodes (initial K C) i) (nodes (m_net M) i)"
  using msteps_after [OF interleaved_msteps] by fastforce

lemma interleaved_linked:
  assumes "start_ok K C" and "interleaved B L K C M"
  shows "server_id (nodes (m_net M) i) = i" and "linked (peers_of C (nodes (m_net M) i)) (nodes (m_net M) i)"
    and "length (peer_status (nodes (m_net M) i)) = unat (cf_server_count C)"
proof -
  note aft = interleaved_after [OF assms(2), of i]
  show "server_id (nodes (m_net M) i) = i" using aft initial_linked(1) [OF assms(1), of i] by (simp add: after_def)
  show "linked (peers_of C (nodes (m_net M) i)) (nodes (m_net M) i)"
    by (rule after_linked [OF aft initial_linked(2) [OF assms(1)]])
  show "length (peer_status (nodes (m_net M) i)) = unat (cf_server_count C)"
    using aft initial_status [OF assms(1), of i] by (simp add: after_def)
qed

subsection \<open>Threads that do not fail\<close>

text \<open>
  The target of a sender is always a peer, and \<open>remove_dead_blocks\<close> visits the entries of its copy.
\<close>

fun target_ok :: "conf \<Rightarrow> u64 \<Rightarrow> action \<Rightarrow> bool" where
  "target_ok C i (Send (CallPeer t req)) = (t \<in> set (peer_ids (cf_server_count C) i))"
| "target_ok C i (Send (StoreStatus t b)) = (t \<in> set (peer_ids (cf_server_count C) i))"
| "target_ok C i (Send (SendVotes t bs)) = (t \<in> set (peer_ids (cf_server_count C) i))"
| "target_ok C i (Send (SendBlocks t bs ks)) = (t \<in> set (peer_ids (cf_server_count C) i))"
| "target_ok C i (Send (SendCommits now t bs)) = (t \<in> set (peer_ids (cf_server_count C) i))"
| "target_ok C i (Timer (DeadStart ord clk)) = visits_all ord"
| "target_ok C i x = True"

lemma target_next:
  assumes "target_ok C i a" and "server_id s = i" and "run B L K C a s = (Inr cs, s')"
  shows "\<forall>c \<in> set cs. target_ok C i c"
proof (cases a)
  case (Send x)
  then show ?thesis
    using assms by (cases x) (auto simp: run_status_def run_send_votes_def run_send_blocks_def run_send_commits_def
      run_sync_next_def Let_def continue_def finish_def split: prod.splits sum.splits option.splits if_splits)
next
  case (Timer x)
  then show ?thesis
    using assms by (cases x) (auto simp: run_timer_defs alloc_def Let_def continue_def finish_def
      split: prod.splits sum.splits option.splits if_splits nat.splits)
qed (use assms in \<open>auto simp: continue_def split: prod.splits sum.splits\<close>)

lemma target_spawn: "spawns C N i as \<Longrightarrow> server_id (nodes N i) = i \<Longrightarrow> a \<in> set as \<Longrightarrow> target_ok C i a"
  by (induction rule: spawns.induct)
    (auto simp: heartbeat_actions_def vote_actions_def block_actions_def commit_actions_def)

lemma interleaved_targets:
  assumes "start_ok K C" and "interleaved B L K C M" and "(i, as) \<in> set (threads M)" and "a \<in> set as"
  shows "target_ok C i a"
  using assms(2-4)
proof (induction arbitrary: i as a rule: interleaved.induct)
  case (step M M')
  note id = interleaved_linked(1) [OF assms(1) step.hyps(1)]
  from step.hyps(2) show ?case
  proof (cases rule: mstep.cases)
    case (spawn j bs)
    then show ?thesis using step.prems step.IH target_spawn [OF spawn(2) id] by auto
  next
    case (exec xs j b bs ys cs s')
    then have "target_ok C j b" "\<forall>c \<in> set bs. target_ok C j c" using step.IH [of j "b # bs"] by simp_all
    with target_next [OF _ id exec(3)] have "\<forall>c \<in> set (cs @ bs). target_ok C j c" by auto
    then show ?thesis using step.prems step.IH exec(1,2) by auto
  next
    case (fail xs j b bs ys e s')
    then show ?thesis using step.prems step.IH by auto
  next
    case (exit xs j ys)
    then show ?thesis using step.prems step.IH by auto
  qed
qed simp

lemma remove_dead_one_ok: "server_wf s \<Longrightarrow> fst (remove_dead_one C now i s) = None"
  by (auto simp: remove_dead_one_def server_wf_deref_pending Let_def split: option.split)

lemma dead_start_ok:
  assumes "server_wf s" and "visits_all ord"
  shows "\<exists>ks. run_dead_start ord clk s = (Inr ks, s)"
proof -
  have "deref s a = Inr (heap s ! a)" if "(k, a) \<in> set (ord (pending_blks s))" for k a
  proof -
    have "map_of (pending_blks s) k = Some a"
      using that visits_all_set [OF assms(2), of "pending_blks s"] assms(1) by (simp add: server_wf_def)
    then show ?thesis by (rule server_wf_deref_pending [OF assms(1)])
  qed
  then have "mapr (\<lambda>(k, a). bindr (deref s a) (\<lambda>b. Inr (block_id b))) (ord (pending_blks s)) =
      Inr (map (\<lambda>(k, a). block_id (heap s ! a)) (ord (pending_blks s)))"
    by (intro mapr_all_Inr) auto
  then show ?thesis by (simp add: run_dead_start_def)
qed

lemma sender_never_fails:
  assumes "target_ok C i (Send x)" and wf: "server_wf s" and link: "linked (peer_ids (cf_server_count C) i) s"
    and "length (peer_status s) = unat (cf_server_count C)"
  shows "\<exists>cs. fst (run_sender L C x s) = Inr cs"
proof -
  have valid: "a < length (heap s)" if "map_of (relay_blocks s) t = Some (a # q) \<or> map_of (bcast_commit_blocks s) t = Some (a # q)" for t a q
    using wf that by (auto simp: server_wf_def queues_valid_def)
  have known: "map_of (peer_stubs s) t \<noteq> None \<and> map_of (relay_votes s) t \<noteq> None \<and> map_of (relay_blocks s) t \<noteq> None
      \<and> map_of (bcast_commit_blocks s) t \<noteq> None \<and> unat (t - 1) < length (peer_status s)"
    if t: "t \<in> set (peer_ids (cf_server_count C) i)" for t
  proof -
    have "1 \<le> t" "t \<le> cf_server_count C" using t by (auto simp: set_peer_ids)
    then have "unat (t - 1) = unat t - 1" "0 < unat t" "unat t \<le> unat (cf_server_count C)"
      by (auto simp: unat_sub word_le_nat_alt)
    then show ?thesis using link t assms(4) by (auto simp: linked_def)
  qed
  show ?thesis
  proof (cases x)
    case (SendVotes t bs)
    with known [of t] assms(1) show ?thesis by (auto simp: run_send_votes_def split: option.splits prod.splits)
  next
    case (SendBlocks t bs ks)
    then obtain q where q: "map_of (relay_blocks s) t = Some q" using known [of t] assms(1) by auto
    then show ?thesis
      using SendBlocks valid [of t "hd q" "tl q"] by (cases q) (simp_all add: run_send_blocks_def deref_def Let_def)
  next
    case (SendCommits now t bs)
    then obtain q where q: "map_of (bcast_commit_blocks s) t = Some q" using known [of t] assms(1) by auto
    then show ?thesis
      using SendCommits valid [of t "hd q" "tl q"] by (cases q) (simp_all add: run_send_commits_def deref_def Let_def)
  qed (use known assms(1) in \<open>auto simp: call_peer_def run_status_def run_sync_next_def split: option.splits prod.splits\<close>)
qed

lemma timer_never_fails:
  assumes "target_ok C i (Timer x)" and wf: "server_wf s" and ok: "timer_ok n (heap s) x" and "\<nexists>now a. x = MergeBlock now a"
  shows "\<exists>cs. fst (run_timer B L C x s) = Inr cs"
proof (cases x)
  case (DeadStart ord clk)
  with assms(1) dead_start_ok [OF wf, of ord clk] show ?thesis by auto
next
  case (DeadItem now k)
  with remove_dead_one_ok [OF wf, of C now k] show ?thesis by simp
qed (use assms in \<open>auto simp: run_timer_defs alloc_def Let_def deref_def split: option.splits prod.splits nat.splits\<close>)

lemma continue_Inr: "fst p = Inr cs \<Longrightarrow> \<exists>cs s'. continue c p = (Inr cs, s')"
  by (cases p) simp

lemma background_never_fails:
  assumes spec: "bls_ctor_spec B" "flexlib_spec L" and start: "start_ok K C" and run: "interleaved B L K C M"
    and thread: "(i, a # as) \<in> set (threads M)"
    and a: "(\<exists>x. a = Send x) \<or> (\<exists>y. a = Timer y \<and> (\<nexists>now b. y = MergeBlock now b))"
  shows "\<exists>cs s'. run B L K C a (nodes (m_net M) i) = (Inr cs, s')"
proof -
  let ?s = "nodes (m_net M) i"
  note inv = machine_inv_interleaved [OF spec run] and link = interleaved_linked [OF start run, of i]
  have wf: "server_wf ?s" by (rule server_inv_wf [OF net_inv_node [OF net_inv_interleaved [OF spec run]]])
  have target: "target_ok C i a" by (rule interleaved_targets [OF start run thread]) simp
  have ok: "action_ok B L (cf_client_count C) (core ` set (packed (m_net M))) (heap ?s) a"
    using inv thread unfolding machine_inv_def threads_ok_def by fastforce
  from a show ?thesis
  proof (elim disjE exE conjE)
    fix x assume x: "a = Send x"
    then have "\<exists>cs. fst (run_sender L C x ?s) = Inr cs"
      using target wf link by (intro sender_never_fails) simp_all
    then show ?thesis using continue_Inr [of "run_sender L C x ?s" _ Send] by (auto simp: x)
  next
    fix y assume y: "a = Timer y" "\<nexists>now b. y = MergeBlock now b"
    then have "\<exists>cs. fst (run_timer B L C y ?s) = Inr cs"
      using target wf ok by (intro timer_never_fails) simp_all
    then show ?thesis using continue_Inr [of "run_timer B L C y ?s" _ Timer] by (auto simp: y)
  qed
qed

subsection \<open>A sample interleaving\<close>

text \<open>
  The packing server of the sample run has generated transactions and has allocated its first
  block, which is neither in a queue nor pending yet.
\<close>

abbreviation sample_rng :: "nat \<Rightarrow> u64" where
  "sample_rng \<equiv> \<lambda>k. word_of_nat (k + 1)"

definition gen_server :: server where
  "gen_server = generate_tx sample_rng 3 (nodes run_start 2)"

definition alloc_server :: server where
  "alloc_server = gen_server\<lparr>blk_seq_generator := 2000001, heap := [run_block]\<rparr>"

lemma gen_server_txs:
  "pending_txs gen_server = [(1, mk_Transaction 1 2 3 0 4), (5, mk_Transaction 5 6 7 0 8), (9, mk_Transaction 9 10 11 0 12)]"
  by (simp add: gen_server_def generate_tx_def run_started upt_rec random_tx_def chm_insert_def mk_Transaction_def)

lemma gen_server_fields:
  "heap gen_server = []" "blk_seq_generator gen_server = 2000000" "pending_blks gen_server = []"
  by (simp_all add: gen_server_def run_started) (simp add: generate_tx_def run_started)

lemma first_block:
  "\<exists>M M'. interleaved ref_bls ref_flex sample_keys (sample_conf 2) M \<and> mstep ref_bls ref_flex sample_keys (sample_conf 2) M M'
     \<and> packed (m_net M') = [run_block] \<and> pending_blks (nodes (m_net M') 2) = []
     \<and> (\<exists>as. (2, Timer (PackPush 0 0) # as) \<in> set (threads M'))"
proof -
  let ?C = "sample_conf 2" and ?clk = "\<lambda>i :: nat. 9 :: u64" and ?ord = "\<lambda>ps :: (u64 \<times> Transaction) list. ps"
  let ?fuel = "unat (word_of_int INT_MAX :: u64)"
  let ?M = "\<lambda>as s ps. \<lparr>m_net = (set_node 2 s run_start)\<lparr>packed := ps\<rparr>, threads = [(2, map Timer as)]\<rparr>"
  let ?step = "mstep ref_bls ref_flex sample_keys ?C"
  have start: "\<lparr>m_net = run_start, threads = []\<rparr> = \<lparr>m_net = initial sample_keys ?C, threads = []\<rparr>" "(set_node 2 (nodes run_start 2) run_start)\<lparr>packed := []\<rparr> = run_start"
    by (auto simp: run_start_def initial_def)
  have "visits_all ?ord" by (simp add: visits_all_def)
  from mstep.spawn [OF spawns.pack [OF this], of ref_bls ref_flex sample_keys ?C "\<lparr>m_net = run_start, threads = []\<rparr>" ?clk sample_rng]
  have 1: "?step \<lparr>m_net = run_start, threads = []\<rparr> (?M [PackStart ?ord ?clk sample_rng] (nodes run_start 2) [])"
    unfolding start(2) by simp
  have exec: "?step (?M (a # as) s ps) (?M (cs @ as) s' (ps @ packed_by (Timer a) s s'))"
    if "run_timer ref_bls ref_flex ?C a s = (Inr cs, s')" for a as s ps cs s'
    using mstep.exec [of "?M (a # as) s ps" "[]" 2 "Timer a" "map Timer as" "[]" ref_bls ref_flex sample_keys ?C "map Timer cs" s'] that
    by (simp add: moved_def)
  have "run_timer ref_bls ref_flex ?C (PackStart ?ord ?clk sample_rng) (nodes run_start 2) =
      (Inr [GenerateTx sample_rng, PackNext ?ord ?clk ?fuel], nodes run_start 2)"
    by (simp add: run_pack_start_def run_started sample_conf_def)
  from exec [OF this, of "[]" "[]"]
  have 2: "?step (?M [PackStart ?ord ?clk sample_rng] (nodes run_start 2) [])
      (?M [GenerateTx sample_rng, PackNext ?ord ?clk ?fuel] (nodes run_start 2) [])" by simp
  have "run_timer ref_bls ref_flex ?C (GenerateTx sample_rng) (nodes run_start 2) = (Inr [], gen_server)"
    by (simp add: gen_server_def sample_conf_def)
  from exec [OF this, of "[]" "[PackNext ?ord ?clk ?fuel]"]
  have 3: "?step (?M [GenerateTx sample_rng, PackNext ?ord ?clk ?fuel] (nodes run_start 2) []) (?M [PackNext ?ord ?clk ?fuel] gen_server [])"
    by simp
  obtain m where fuel: "?fuel = Suc m" by (simp add: INT_MAX_def)
  have num: "cf_tx_per_block ?C = 2" "\<not> (2 :: u64) \<le> 1" by (simp_all add: sample_conf_def word_le_nat_alt)
  have "\<exists>cs. run_timer ref_bls ref_flex ?C (PackNext ?ord ?clk ?fuel) gen_server = (Inr (PackPush 0 0 # cs), alloc_server)"
    unfolding fuel by (simp add: run_pack_next_def num gen_server_txs gen_server_fields alloc_def Let_def alloc_server_def run_block_def)
  then obtain cs where "run_timer ref_bls ref_flex ?C (PackNext ?ord ?clk ?fuel) gen_server = (Inr (PackPush 0 0 # cs), alloc_server)" by blast
  from exec [OF this, of "[]" "[]"]
  have 4: "?step (?M [PackNext ?ord ?clk ?fuel] gen_server []) (?M (PackPush 0 0 # cs) alloc_server [run_block])"
    by (simp add: new_blocks_def alloc_server_def gen_server_fields)
  have "interleaved ref_bls ref_flex sample_keys ?C \<lparr>m_net = run_start, threads = []\<rparr>"
    unfolding start(1) by (rule interleaved.start)
  then have "interleaved ref_bls ref_flex sample_keys ?C (?M [PackNext ?ord ?clk ?fuel] gen_server [])"
    using 1 2 3 by (blast intro: interleaved.step)
  with 4 show ?thesis
    by (intro exI [of _ "?M [PackNext ?ord ?clk ?fuel] gen_server []"] exI [of _ "?M (PackPush 0 0 # cs) alloc_server [run_block]"])
      (simp add: alloc_server_def gen_server_fields)
qed

end
