(* ===== verification/TC_Ledger.thy ===== *)
theory TC_Ledger
  imports TC_Interleaving
begin

text \<open>
  What the servers promise together, as a specification without queues, stores, votes and
  messages: a replicated ledger. Contents are proposed under numbers that are not used twice,
  and a replica may commit contents that have been proposed, once for each number and for
  good. \<open>ledger_of\<close> reads such a ledger off a state of the network, and every step of the
  interleaved threads carries it through a sequence of steps of the specification: none for most
  actions, a proposal when a block is packed, a commit when a merged block or a block of an
  incoming commit broadcast is inserted.

  The locale \<open>forward_simulation\<close> has the general argument; it is interpreted on the machine
  as long as at most \<open>2 ^ 64\<close> blocks are packed.
\<close>

subsection \<open>Forward simulation\<close>

locale forward_simulation =
  fixes step :: "'s \<Rightarrow> 's \<Rightarrow> bool" and inv :: "'s \<Rightarrow> bool"
    and astep :: "'a \<Rightarrow> 'a \<Rightarrow> bool" and abs :: "'s \<Rightarrow> 'a"
  assumes keeps: "inv s \<Longrightarrow> step s s' \<Longrightarrow> inv s'"
    and simulates: "inv s \<Longrightarrow> step s s' \<Longrightarrow> astep\<^sup>*\<^sup>* (abs s) (abs s')"
begin

lemma run_simulated: "step\<^sup>*\<^sup>* s s' \<Longrightarrow> inv s \<Longrightarrow> inv s' \<and> astep\<^sup>*\<^sup>* (abs s) (abs s')"
proof (induction rule: rtranclp_induct)
  case (step s' s'')
  then have "inv s'" "astep\<^sup>*\<^sup>* (abs s) (abs s')" by blast+
  then show ?case using keeps [OF _ step(2)] simulates [OF _ step(2)] by (blast intro: rtranclp_trans)
qed simp

lemma invariant_transfer:
  assumes "\<And>a a'. astep a a' \<Longrightarrow> I a \<Longrightarrow> I a'" and "step\<^sup>*\<^sup>* s s'" and "inv s" and "I (abs s)"
  shows "I (abs s')"
proof -
  have "astep\<^sup>*\<^sup>* (abs s) (abs s')" using run_simulated [OF assms(2,3)] by blast
  then show ?thesis using assms(4) by (induction rule: rtranclp_induct) (use assms(1) in blast)+
qed

end

subsection \<open>The specification\<close>

type_synonym contents = "u64 \<times> u64 \<times> u64 \<times> Transaction list"

abbreviation number :: "contents \<Rightarrow> u64" where
  "number \<equiv> fst"

record ledger =
  proposed :: "contents list"
  final :: "u64 \<Rightarrow> u64 \<rightharpoonup> contents"

definition empty_ledger :: ledger where
  "empty_ledger = \<lparr>proposed = [], final = (\<lambda>i. Map.empty)\<rparr>"

inductive ledger_step :: "ledger \<Rightarrow> ledger \<Rightarrow> bool" where
  propose: "distinct (map number (proposed A @ cs)) \<Longrightarrow> ledger_step A (A\<lparr>proposed := proposed A @ cs\<rparr>)"
| commit: "c \<in> set (proposed A) \<Longrightarrow> final A i (number c) = None \<Longrightarrow>
    ledger_step A (A\<lparr>final := (final A)(i := (final A i)(number c \<mapsto> c))\<rparr>)"

inductive_cases ledger_step_cases: "ledger_step A A'"

definition ledger_ok :: "ledger \<Rightarrow> bool" where
  "ledger_ok A \<longleftrightarrow> distinct (map number (proposed A)) \<and>
     (\<forall>i k c. final A i k = Some c \<longrightarrow> c \<in> set (proposed A) \<and> number c = k)"

lemma ledger_ok_empty: "ledger_ok empty_ledger"
  by (simp add: ledger_ok_def empty_ledger_def)

lemma ledger_ok_step: "ledger_step A A' \<Longrightarrow> ledger_ok A \<Longrightarrow> ledger_ok A'"
  by (erule ledger_step_cases) (auto simp: ledger_ok_def split: if_splits)

lemma ledger_ok_agree:
  assumes "ledger_ok A" and "final A i k = Some c" and "final A j k = Some d"
  shows "c = d"
proof -
  have "c \<in> set (proposed A)" "d \<in> set (proposed A)" "number c = number d" and "distinct (map number (proposed A))"
    using assms unfolding ledger_ok_def by blast+
  then show ?thesis by (metis distinct_map inj_onD)
qed

text \<open>Any finite set of admissible commits is a sequence of steps.\<close>

lemma commits:
  assumes "finite X" and "\<forall>(i, k) \<in> X. final A i k = None \<and> (\<exists>c. F i k = Some c \<and> c \<in> set (proposed A) \<and> number c = k)"
    and "\<forall>i k. (i, k) \<notin> X \<longrightarrow> F i k = final A i k"
  shows "ledger_step\<^sup>*\<^sup>* A (A\<lparr>final := F\<rparr>)"
  using assms
proof (induction X arbitrary: A)
  case empty
  then have "F = final A" by (simp add: fun_eq_iff)
  then show ?case by simp
next
  case (insert p X)
  obtain i k where p: "p = (i, k)" by (cases p)
  with insert.prems(1) obtain c where c: "final A i k = None" "F i k = Some c" "c \<in> set (proposed A)" "number c = k"
    by auto
  let ?A = "A\<lparr>final := (final A)(i := (final A i)(k \<mapsto> c))\<rparr>"
  have "ledger_step A ?A" using ledger_step.commit [of c A i] c by simp
  moreover have "ledger_step\<^sup>*\<^sup>* ?A (?A\<lparr>final := F\<rparr>)"
    by (rule insert.IH) (use insert.hyps(2) insert.prems c p in auto)
  ultimately show ?case by (simp add: converse_rtranclp_into_rtranclp)
qed

subsection \<open>The network as a ledger\<close>

definition ledger_of :: "net \<Rightarrow> ledger" where
  "ledger_of N = \<lparr>proposed = map core (packed N),
     final = (\<lambda>i k. map_option (\<lambda>a. core (heap (nodes N i) ! a)) (map_of (committed_blks (nodes N i)) k))\<rparr>"

definition counted_step :: "'ss blslib \<Rightarrow> 'r flexlib \<Rightarrow> keylib \<Rightarrow> conf \<Rightarrow> machine \<Rightarrow> machine \<Rightarrow> bool" where
  "counted_step B L K C M M' \<longleftrightarrow> mstep B L K C M M' \<and> length (packed (m_net M')) \<le> 2 ^ 64"

lemma number_core: "number (core b) = block_id b"
  by (simp add: core_def)

lemma proposed_numbers:
  assumes "net_inv B L C N" and "length (packed N) \<le> 2 ^ 64"
  shows "distinct (map number (proposed (ledger_of N)))"
  using packed_numbers_unique [OF assms] by (auto simp: ledger_of_def distinct_conv_nth number_core)

lemma final_proposed:
  assumes "net_inv B L C N" and "final (ledger_of N) i k = Some c"
  shows "c \<in> set (proposed (ledger_of N)) \<and> number c = k"
proof -
  obtain a where a: "map_of (committed_blks (nodes N i)) k = Some a" "c = core (heap (nodes N i) ! a)"
    using assms(2) by (auto simp: ledger_of_def)
  then have "a < length (heap (nodes N i))" "block_id (heap (nodes N i) ! a) = k"
    using held_valid [OF assms(1)] by blast+
  with a(2) show ?thesis
    by (auto simp: ledger_of_def number_core elim!: node_block [OF assms(1)])
qed

lemma progress_simulated:
  assumes inv: "net_inv B L C N" and inv': "net_inv B L C N'" and ps: "packed N' = packed N @ ps"
    and after: "\<And>i. after (nodes N i) (nodes N' i)" and len: "length (packed N') \<le> 2 ^ 64"
  shows "ledger_step\<^sup>*\<^sup>* (ledger_of N) (ledger_of N')"
proof -
  let ?A = "ledger_of N" and ?A' = "ledger_of N'"
  let ?B = "?A\<lparr>proposed := proposed ?A @ map core ps\<rparr>"
  have same: "proposed ?B = proposed ?A'" by (simp add: ledger_of_def ps)
  have one: "ledger_step ?A ?B"
    by (rule ledger_step.propose) (use proposed_numbers [OF inv' len] same in simp)
  have old: "final ?A' i k = Some c" if "final ?A i k = Some c" for i k c
  proof -
    have "dom (map_of (committed_blks (nodes N i))) \<subseteq> dom (map_of (committed_blks (nodes N' i)))"
      using after [of i] by (simp add: after_def)
    moreover have "k \<in> dom (map_of (committed_blks (nodes N i)))" using that by (auto simp: ledger_of_def)
    ultimately obtain a where "map_of (committed_blks (nodes N' i)) k = Some a" by (auto simp: dom_def)
    then obtain d where d: "final ?A' i k = Some d" by (simp add: ledger_of_def)
    have "c \<in> set (proposed ?A')" "number c = k"
      using final_proposed [OF inv that] same by (auto simp: ledger_of_def ps)
    with final_proposed [OF inv' d] proposed_numbers [OF inv' len] have "c = d"
      by (metis distinct_map inj_onD)
    with d show ?thesis by simp
  qed
  let ?X = "{(i, k). final ?A i k = None \<and> final ?A' i k \<noteq> None}"
  have new: "\<exists>c. final ?A' i k = Some c \<and> c \<in> set (proposed ?A') \<and> number c = k" if "final ?A' i k \<noteq> None" for i k
    using that final_proposed [OF inv'] by (cases "final ?A' i k") blast+
  have finals: "final ?B = final ?A" by simp
  have "ledger_step\<^sup>*\<^sup>* ?B (?B\<lparr>final := final ?A'\<rparr>)"
  proof (rule commits)
    show "finite ?X" by (rule finite_subset [OF subset_UNIV]) simp
    show "\<forall>(i, k) \<in> ?X. final ?B i k = None \<and> (\<exists>c. final ?A' i k = Some c \<and> c \<in> set (proposed ?B) \<and> number c = k)"
      unfolding same finals by (intro ballI, elim CollectE case_prodE, hypsubst, unfold prod.case) (simp only: new simp_thms)
    show "\<forall>i k. (i, k) \<notin> ?X \<longrightarrow> final ?A' i k = final ?B i k"
      unfolding finals
    proof (intro allI impI)
      fix i k assume "(i, k) \<notin> ?X"
      then show "final ?A' i k = final ?A i k" using old [of i k] by (cases "final ?A i k"; cases "final ?A' i k") auto
    qed
  qed
  moreover have "?B\<lparr>final := final ?A'\<rparr> = ?A'" using same by simp
  ultimately show ?thesis using one by (metis converse_rtranclp_into_rtranclp)
qed

interpretation ledger: forward_simulation "counted_step B L K C"
  "\<lambda>M. bls_ctor_spec B \<and> flexlib_spec L \<and> machine_inv B L C M" ledger_step "\<lambda>M. ledger_of (m_net M)"
  for B :: "'ss blslib" and L :: "'r flexlib" and K :: keylib and C :: conf
proof
  fix M M'
  assume inv: "bls_ctor_spec B \<and> flexlib_spec L \<and> machine_inv B L C M" and step: "counted_step B L K C M M'"
  then have st: "mstep B L K C M M'" and len: "length (packed (m_net M')) \<le> 2 ^ 64" by (simp_all add: counted_step_def)
  show inv': "bls_ctor_spec B \<and> flexlib_spec L \<and> machine_inv B L C M'"
    using inv machine_inv_step [OF _ _ st] by blast
  obtain ps where "packed (m_net M') = packed (m_net M) @ ps" using mstep_after(2) [OF st] by blast
  then show "ledger_step\<^sup>*\<^sup>* (ledger_of (m_net M)) (ledger_of (m_net M'))"
    using inv inv' mstep_after(1) [OF st] len by (intro progress_simulated) (auto simp: machine_inv_def)
qed

lemma counted_run:
  assumes "interleaved B L K C M" and "length (packed (m_net M)) \<le> 2 ^ 64"
  shows "(counted_step B L K C)\<^sup>*\<^sup>* \<lparr>m_net = initial K C, threads = []\<rparr> M"
  using assms
proof (induction rule: interleaved.induct)
  case (step M M')
  then have "length (packed (m_net M)) \<le> 2 ^ 64" using mstep_after(2) [OF step(2)] by auto
  with step show ?case by (auto simp: counted_step_def intro: rtranclp.rtrancl_into_rtrancl)
qed simp

lemma ledger_of_initial: "ledger_of (initial K C) = empty_ledger"
proof -
  have "committed_blks (nodes (initial K C) i) = []" for i
  proof -
    let ?s = "new_server\<lparr>server_id := i, blk_seq_generator := i * 1000000\<rparr>" and ?C = "C\<lparr>cf_server_id := i\<rparr>"
    obtain cs where "snd (init_client_profile K ?C ?s) = ?s\<lparr>clients := cs\<rparr>"
      using init_client_profile_frame [of ?s K ?C] by (auto simp: new_server_def)
    then have "committed_blks (snd (init_client_profile K ?C ?s)) = []" by (simp add: new_server_def)
    then show ?thesis
      by (auto simp: initial_def start_def init_server_def init_peer_stubs_def Let_def split: prod.split option.split)
  qed
  then show ?thesis by (simp add: ledger_of_def empty_ledger_def initial_def)
qed


subsection \<open>Properties\<close>

text \<open>
  C7: the servers refine the ledger, however their threads are interleaved. At the start the
  ledger is empty, and every step of the machine, whatever action of whatever thread it is, is a
  sequence of proposals and commits of the ledger; hence the ledger stays consistent, with unique
  numbers and nothing final that was not proposed.
\<close>

theorem machine_refines_ledger:
  assumes "bls_ctor_spec B" and "flexlib_spec L" and "interleaved B L K C M" and "mstep B L K C M M'"
    and "length (packed (m_net M')) \<le> 2 ^ 64"
  shows "ledger_of (initial K C) = empty_ledger \<and> ledger_step\<^sup>*\<^sup>* empty_ledger (ledger_of (m_net M))
    \<and> ledger_step\<^sup>*\<^sup>* (ledger_of (m_net M)) (ledger_of (m_net M')) \<and> ledger_ok (ledger_of (m_net M'))"
proof -
  let ?init = "\<lparr>m_net = initial K C, threads = []\<rparr>"
  have len: "length (packed (m_net M)) \<le> 2 ^ 64" using mstep_after(2) [OF assms(4)] assms(5) by auto
  have init: "bls_ctor_spec B \<and> flexlib_spec L \<and> machine_inv B L C ?init"
    using machine_inv_interleaved [OF assms(1,2) interleaved.start, of C K] assms(1,2) by blast
  have "ledger_step\<^sup>*\<^sup>* (ledger_of (m_net ?init)) (ledger_of (m_net M))"
    using ledger.run_simulated [OF counted_run [OF assms(3) len] init] by blast
  moreover have "ledger_step\<^sup>*\<^sup>* (ledger_of (m_net M)) (ledger_of (m_net M'))"
    by (rule ledger.simulates) (use machine_inv_interleaved [OF assms(1-3)] assms in \<open>simp_all add: counted_step_def\<close>)
  moreover have "ledger_ok (ledger_of (m_net M'))"
    by (rule ledger.invariant_transfer [OF ledger_ok_step counted_run [OF interleaved.step [OF assms(3,4)] assms(5)] init])
      (simp_all add: ledger_of_initial ledger_ok_empty)
  ultimately show ?thesis by (simp add: ledger_of_initial)
qed

theorem machine_refines_ledger_witness:
  "\<exists>M M'. mstep ref_bls ref_flex sample_keys (sample_conf 2) M M' \<and> packed (m_net M') = [run_block]
     \<and> pending_blks (nodes (m_net M') 2) = []
     \<and> ledger_step\<^sup>*\<^sup>* empty_ledger (ledger_of (m_net M')) \<and> proposed (ledger_of (m_net M')) = [core run_block]"
proof -
  obtain M M' where M: "interleaved ref_bls ref_flex sample_keys (sample_conf 2) M"
    "mstep ref_bls ref_flex sample_keys (sample_conf 2) M M'"
    "packed (m_net M') = [run_block]" "pending_blks (nodes (m_net M') 2) = []"
    using first_block by blast
  have "length (packed (m_net M')) \<le> 2 ^ 64" by (simp add: M(3))
  from machine_refines_ledger [OF bls_ctor_ref ref_flex_spec M(1,2) this] M show ?thesis
    by (intro exI [of _ M] exI [of _ M']) (auto simp: ledger_of_def intro: rtranclp_trans)
qed

end
