(* ===== verification/TC_Attest.thy ===== *)
theory TC_Attest
  imports TC_Interleaving
begin

text \<open>
  Votes on their way through the servers. \<open>A k j v\<close> says that \<open>v\<close> is a proper vote of the voter \<open>j\<close> for
  the block \<open>k\<close>; the locale \<open>attestation\<close> only asks that such a vote names the block and the voter and can
  be written and read. When every ballot that a client hands to \<open>VoteBlocks\<close> holds a proper vote of
  that client, all votes in all blocks, queues, requests and local variables of all threads are
  proper, at every point of every interleaving. The servers check none of this: it rests on where votes
  come from and on the keys under which they are filed.
\<close>

subsection \<open>Proper votes\<close>

type_synonym voting = "u64 \<Rightarrow> u64 \<Rightarrow> BlockVote \<Rightarrow> bool"

definition attested :: "voting \<Rightarrow> Block \<Rightarrow> bool" where
  "attested A b \<longleftrightarrow> (\<forall>p \<in> set (votes b). A (block_id b) (fst p) (snd p))"

definition attested_vote :: "voting \<Rightarrow> BlockVote \<Rightarrow> bool" where
  "attested_vote A v \<longleftrightarrow> A (vote_block_id v) (vote_voter_id v) v"

definition attested_bytes :: "voting \<Rightarrow> 'ss blslib \<Rightarrow> 'r flexlib \<Rightarrow> bytes \<Rightarrow> bool" where
  "attested_bytes A B L bs \<longleftrightarrow> (\<forall>b. Block_from_bytes B L bs = Inr b \<longrightarrow> attested A b)"

definition attested_vote_bytes :: "voting \<Rightarrow> 'ss blslib \<Rightarrow> 'r flexlib \<Rightarrow> bytes \<Rightarrow> bool" where
  "attested_vote_bytes A B L bs \<longleftrightarrow> (\<forall>v. BlockVote_from_bytes B L bs = Inr v \<longrightarrow> attested_vote A v)"

text \<open>A ballot of the client \<open>c\<close>, as the server reads it.\<close>

definition attested_ballot :: "voting \<Rightarrow> 'ss blslib \<Rightarrow> 'r flexlib \<Rightarrow> u32 \<Rightarrow> bytes \<Rightarrow> bool" where
  "attested_ballot A B L c bs \<longleftrightarrow>
     (\<forall>b v. Block_from_bytes B L bs = Inr b \<longrightarrow> map_of (votes b) (ucast c) = Some v \<longrightarrow> A (block_id b) (ucast c) v)"

definition attested_request :: "voting \<Rightarrow> 'ss blslib \<Rightarrow> 'r flexlib \<Rightarrow> request \<Rightarrow> bool" where
  "attested_request A B L req =
     (case req of
        RelayVoteRequest i vs \<Rightarrow> (\<forall>x \<in> set vs. attested_vote_bytes A B L x)
      | RelayBlockRequest i bs \<Rightarrow> (\<forall>x \<in> set bs. attested_bytes A B L x)
      | SPBcastCommitRequest i bs ts \<Rightarrow> (\<forall>x \<in> set bs. attested_bytes A B L x)
      | _ \<Rightarrow> True)"

definition attested_server :: "voting \<Rightarrow> 'ss blslib \<Rightarrow> 'r flexlib \<Rightarrow> server \<Rightarrow> bool" where
  "attested_server A B L s \<longleftrightarrow>
     (\<forall>b \<in> set (heap s). attested A b) \<and>
     (\<forall>t q. map_of (relay_votes s) t = Some q \<longrightarrow> (\<forall>v \<in> set q. attested_vote A v)) \<and>
     (\<forall>m \<in> set (outbox s). attested_request A B L (snd m))"

fun attested_action :: "voting \<Rightarrow> 'ss blslib \<Rightarrow> 'r flexlib \<Rightarrow> action \<Rightarrow> bool" where
  "attested_action A B L (Client (VoteItem c bs)) = attested_ballot A B L c bs"
| "attested_action A B L (Client (PushVote v t)) = attested_vote A v"
| "attested_action A B L (Client (CountVote j v k)) = A k j v"
| "attested_action A B L (Peer (RelayVoteItem bs)) = attested_vote_bytes A B L bs"
| "attested_action A B L (Peer (RelayVoteCount v)) = attested_vote A v"
| "attested_action A B L (Peer (RelayBlockItem bs)) = attested_bytes A B L bs"
| "attested_action A B L (Peer (CommitItem clk j bs)) = attested_bytes A B L bs"
| "attested_action A B L (Send (CallPeer t req)) = attested_request A B L req"
| "attested_action A B L (Send (SendVotes t xs)) = (\<forall>x \<in> set xs. attested_vote_bytes A B L x)"
| "attested_action A B L (Send (SendBlocks t xs ids)) = (\<forall>x \<in> set xs. attested_bytes A B L x)"
| "attested_action A B L (Send (SendCommits now t xs)) = (\<forall>x \<in> set xs. attested_bytes A B L x)"
| "attested_action A B L a = True"

definition attested_machine :: "voting \<Rightarrow> 'ss blslib \<Rightarrow> 'r flexlib \<Rightarrow> machine \<Rightarrow> bool" where
  "attested_machine A B L M \<longleftrightarrow>
     (\<forall>i. attested_server A B L (nodes (m_net M) i)) \<and>
     (\<forall>(i, as) \<in> set (threads M). \<forall>a \<in> set as. attested_action A B L a)"

lemmas attested_defs = attested_def attested_vote_def attested_bytes_def attested_vote_bytes_def
  attested_ballot_def attested_request_def attested_server_def

text \<open>More votes may become proper.\<close>

lemma attested_mono:
  assumes "\<forall>k j v. A k j v \<longrightarrow> A' k j v"
  shows "attested A b \<Longrightarrow> attested A' b" and "attested_vote A v \<Longrightarrow> attested_vote A' v"
    and "attested_bytes A B L bs \<Longrightarrow> attested_bytes A' B L bs"
    and "attested_vote_bytes A B L bs \<Longrightarrow> attested_vote_bytes A' B L bs"
    and "attested_ballot A B L c bs \<Longrightarrow> attested_ballot A' B L c bs"
    and "attested_request A B L req \<Longrightarrow> attested_request A' B L req"
  using assms by (auto simp: attested_defs split: request.splits)

lemma attested_action_mono:
  assumes "\<forall>k j v. A k j v \<longrightarrow> A' k j v" and "attested_action A B L a"
  shows "attested_action A' B L a"
  using assms(2)
  by (cases "(A, B, L, a)" rule: attested_action.cases) (auto simp: assms(1) intro: attested_mono [OF assms(1)])

lemma attested_machine_mono:
  assumes "\<forall>k j v. A k j v \<longrightarrow> A' k j v" and "attested_machine A B L M"
  shows "attested_machine A' B L M"
  using assms(2) attested_mono(1,2) [OF assms(1)] attested_mono(6) [OF assms(1), where B = B and L = L]
    attested_action_mono [OF assms(1), where B = B and L = L]
  unfolding attested_machine_def attested_server_def by blast

lemma attested_simps [simp]:
  "attested A (b\<lparr>tss_sig := g\<rparr>) = attested A b"
  "votes b = [] \<Longrightarrow> attested A b"
  by (simp_all add: attested_def)

lemma attested_same: "votes b' = votes b \<Longrightarrow> block_id b' = block_id b \<Longrightarrow> attested A b' = attested A b"
  by (simp add: attested_def)

lemma attested_add_vote:
  assumes "attested A b" and "A (block_id b) j v"
  shows "attested A (Block_add_vote j v b)"
  using assms set_omap_insert [of j v "votes b"] by (auto simp: attested_def Block_add_vote_def)

text \<open>Writing and reading.\<close>

lemma attested_written:
  assumes "flexlib_spec L" and "block_shares_ok B b" and "attested A b"
  shows "attested_bytes A B L (Block_to_bytes L b)"
  using assms by (auto simp: attested_bytes_def Block_roundtrip_cases split: if_splits)

subsection \<open>Changes of a server\<close>

lemma attested_server_frame:
  assumes "attested_server A B L s" and "heap s' = heap s" and "relay_votes s' = relay_votes s" and "outbox s' = outbox s"
  shows "attested_server A B L s'"
  using assms by (simp add: attested_server_def)

lemma attested_server_write:
  assumes "attested_server A B L s" and "heap s' = (heap s)[a := b]" and "attested A b"
    and "relay_votes s' = relay_votes s" and "outbox s' = outbox s"
  shows "attested_server A B L s'"
  using assms set_update_subset_insert [of "heap s" a b] by (auto simp: attested_server_def)

lemma attested_server_alloc:
  assumes "attested_server A B L s" and "heap s' = heap s @ [b]" and "attested A b"
    and "relay_votes s' = relay_votes s" and "outbox s' = outbox s"
  shows "attested_server A B L s'"
  using assms by (auto simp: attested_server_def)

lemma attested_server_nth: "attested_server A B L s \<Longrightarrow> a < length (heap s) \<Longrightarrow> attested A (heap s ! a)"
  by (simp add: attested_server_def)

lemma attested_server_pull_offer:
  assumes "attested_server A B L s"
  shows "attested_server A B L (snd (run_pull_offer i now a s))"
proof -
  have "attested_server A B L (set_dist_ts now a (heap s ! a) (see_block i cp (heap s ! a) s))"
    if a: "a < length (heap s)" for cp
  proof -
    have "attested A ((heap s ! a)\<lparr>header := (header (heap s ! a))\<lparr>hdr_dist_ts := now\<rparr>\<rparr>)"
      using attested_server_nth [OF assms a] by (simp add: attested_def)
    then show ?thesis
      using attested_server_write [OF assms, where a = a]
      by (auto intro!: attested_server_frame [OF assms] simp: set_dist_ts_def see_block_def write_block_def)
  qed
  with assms show ?thesis by (auto simp: run_pull_offer_def deref_def split: option.split)
qed

lemma attested_server_merge_block:
  assumes "attested_server A B L s"
  shows "attested_server A B L (snd (run_merge_block B' C now a s))"
proof (cases "bindr (deref s a) (Block_merge_votes B' (cf_client_count C))")
  case (Inr b)
  then have a: "a < length (heap s)" and "Block_merge_votes B' (cf_client_count C) (heap s ! a) = Inr b"
    by (auto simp: bindr_Inr_iff deref_def split: if_splits)
  then obtain t where b: "b = (heap s ! a)\<lparr>tss_sig := t\<rparr>" using Block_merge_votes_frame by blast
  have "attested A (b\<lparr>header := (header b)\<lparr>hdr_commit_ts := now, hdr_recv_ts := now\<rparr>\<rparr>)"
    using attested_server_nth [OF assms a] by (simp add: attested_def b)
  then show ?thesis
    using attested_server_write [OF assms, where a = a] Inr by (simp add: run_merge_block_def write_block_def)
qed (use assms in \<open>simp add: run_merge_block_def\<close>)

subsection \<open>Every action\<close>

locale attestation =
  fixes A :: voting and B :: "'ss blslib"
  assumes names: "A k j v \<Longrightarrow> vote_block_id v = k \<and> vote_voter_id v = j"
    and written: "A k j v \<Longrightarrow> vote_ok B v"
begin

lemma attested_vote_iff: "A k j v \<Longrightarrow> attested_vote A v"
  using names [of k j v] by (simp add: attested_vote_def)

lemma attested_vote_written:
  assumes "flexlib_spec L" and "attested_vote A v"
  shows "attested_vote_bytes A B L (BlockVote_to_bytes L v)"
  using assms BlockVote_roundtrip [OF assms(1) written] by (auto simp: attested_vote_bytes_def attested_vote_def)

lemma attested_server_count_vote:
  assumes "attested_server A B L s" and "server_wf s" and "A k j v"
  shows "attested_server A B L (snd (count_vote C j v k s))"
proof (cases "map_of (pending_blks s) k")
  case None
  with assms(1) show ?thesis by (simp add: count_vote_absent)
next
  case (Some a)
  let ?b = "Block_add_vote j v (heap s ! a)"
  note a = server_wf_pending [OF assms(2) Some]
  have s': "snd (count_vote C j v k s) = (if is_vote_enough (cf_client_count C) ?b
      then moved_to_merge a k (write_block a ?b s) else write_block a ?b s)"
    using count_vote_pending [OF assms(2) Some, of C j v] by (simp add: Let_def)
  have "attested A ?b"
    using attested_server_nth [OF assms(1)] a assms(3) by (intro attested_add_vote) simp_all
  then show ?thesis
    unfolding s' by (intro attested_server_write [OF assms(1), where a = a]) (simp_all add: write_block_def)
qed

lemma client_attested:
  assumes "attested_server A B L s" and "server_wf s" and "attested_action A B L (Client x)"
  shows "attested_server A B L (snd (run_client B L K C x s)) \<and>
    (\<forall>cs. fst (run_client B L K C x s) = Inr cs \<longrightarrow> (\<forall>c \<in> set cs. attested_action A B L (Client c)))"
proof (cases x)
  case (RegisterClient i d)
  have "attested_server A B L (snd (run_register K i d s))" "fst (run_register K i d s) = Inr cs \<Longrightarrow> cs = []" for cs
    by (auto simp: run_register_def Register_def intro!: attested_server_frame [OF assms(1)]
        split: prod.splits sum.splits option.splits)
  with RegisterClient show ?thesis by auto
next
  case (PullItem i now k a)
  with assms(1) show ?thesis by (auto simp: run_pull_item_def split: option.split sum.split)
next
  case (PullOffer i now a)
  have "fst (run_pull_offer i now a s) = Inr cs \<Longrightarrow> cs = []" for cs
    by (auto simp: run_pull_offer_def split: option.splits sum.splits)
  with PullOffer assms(1) show ?thesis by (auto simp: attested_server_pull_offer)
next
  case (VoteItem i bs)
  then show ?thesis
    using assms attested_vote_iff
    by (auto simp: run_vote_item_def attested_ballot_def split: option.splits sum.splits if_splits)
next
  case (PushVote v t)
  have "attested_server A B L (snd (relay_vote_to v t s))"
    using assms(1,3) PushVote push_at_Some
    by (auto simp: relay_vote_to_def attested_server_def push_at_def push_def update_conv' split: sum.split option.splits if_splits)
  with PushVote show ?thesis by auto
qed (use assms in \<open>auto simp: attested_server_count_vote\<close>)

lemma peer_attested:
  assumes "attested_server A B L s" and "server_wf s" and "attested_action A B L (Peer x)"
  shows "attested_server A B L (snd (run_peer B L C x s)) \<and>
    (\<forall>cs. fst (run_peer B L C x s) = Inr cs \<longrightarrow> (\<forall>c \<in> set cs. attested_action A B L (Peer c)))"
proof (cases x)
  case (RelayVoteItem bs)
  with assms show ?thesis by (auto simp: attested_vote_bytes_def split: sum.splits)
next
  case (RelayVoteCount v)
  have "fst (run_relayed_vote C v s) = Inr cs \<Longrightarrow> cs = []" for cs
    by (auto simp: run_relayed_vote_def split: option.splits sum.splits)
  moreover have "attested_server A B L (snd (run_relayed_vote C v s))"
    using assms RelayVoteCount attested_server_count_vote [OF assms(1,2), of "vote_block_id v" "vote_voter_id v" v C]
    by (auto simp: run_relayed_vote_def attested_vote_def split: option.split sum.split)
  ultimately show ?thesis using RelayVoteCount by auto
next
  case (RelayBlockItem bs)
  have "attested_server A B L (snd (relay_block_one b s))" if "attested A b" for b
    using that by (intro attested_server_alloc [OF assms(1), where b = b]) (simp_all add: relay_block_one_effect)
  with assms RelayBlockItem show ?thesis by (auto simp: attested_bytes_def split: sum.splits)
next
  case (CommitItem clk j bs)
  have "attested_server A B L (snd (commit_one L C clk j b s))" if b: "attested A b" for b
  proof (cases "map_of (pending_blks s) (block_id b)")
    case None
    with assms(1) show ?thesis by (simp add: commit_one_effect)
  next
    case (Some a)
    have "attested A (received (clk j) b)" using b by (simp add: attested_def)
    then show ?thesis
      using Some by (intro attested_server_alloc [OF assms(1), where b = "received (clk j) b"]) (simp_all add: commit_one_effect)
  qed
  with assms CommitItem show ?thesis by (auto simp: attested_bytes_def split: sum.splits)
next
  case (SyncLabel k)
  then show ?thesis by (auto simp: RelayBlockSync_handler_def intro!: attested_server_frame [OF assms(1)])
qed

lemma sender_attested:
  assumes spec: "flexlib_spec L" and att: "attested_server A B L s" and inv: "server_inv B L n P g s"
    and ok: "attested_action A B L (Send x)"
  shows "attested_server A B L (snd (run_sender L C x s)) \<and>
    (\<forall>cs. fst (run_sender L C x s) = Inr cs \<longrightarrow> (\<forall>c \<in> set cs. attested_action A B L (Send c)))"
proof -
  have same: "attested_server A B L (s\<lparr>peer_status := x1\<rparr>)" "attested_server A B L (s\<lparr>pb_sync_queue := x2\<rparr>)"
    "attested_server A B L (s\<lparr>pb_sync_labels := x3\<rparr>)" "attested_server A B L (s\<lparr>relay_blocks := x4\<rparr>)"
    "attested_server A B L (s\<lparr>bcast_commit_blocks := x5\<rparr>)" for x1 x2 x3 x4 x5
    by (simp_all add: attested_server_frame [OF att])
  have bytes: "attested_bytes A B L (Block_to_bytes L (heap s ! a))" if "a < length (heap s)" for a
    using that inv by (intro attested_written [OF spec] attested_server_nth [OF att]) (simp_all add: server_inv_def)
  show ?thesis
  proof (cases x)
    case (CallPeer t req)
    have "attested_server A B L (snd (call_peer t req s))"
      using att ok CallPeer by (auto simp: call_peer_def attested_server_def split: option.split)
    with CallPeer show ?thesis by auto
  next
    case (SendVotes t added)
    show ?thesis
    proof (cases "map_of (relay_votes s) t")
      case None
      with SendVotes att show ?thesis by (simp add: run_send_votes_def)
    next
      case (Some q)
      show ?thesis
      proof (cases q)
        case Nil
        with SendVotes Some att ok show ?thesis by (simp add: run_send_votes_def attested_request_def)
      next
        case (Cons v q')
        have v: "attested_vote A v" using att Some Cons by (simp add: attested_server_def)
        have "attested_server A B L (s\<lparr>relay_votes := AList.update t q' (relay_votes s)\<rparr>)"
          using att Some Cons by (auto simp: attested_server_def update_conv' split: if_splits)
        with SendVotes Some Cons ok attested_vote_written [OF spec v] show ?thesis
          by (auto simp: run_send_votes_def)
      qed
    qed
  next
    case (SendBlocks t added ids)
    show ?thesis
      using att ok bytes SendBlocks
      by (auto simp: run_send_blocks_def Let_def deref_def same attested_request_def split: option.splits prod.splits if_splits)
  next
    case (SendCommits now t added)
    show ?thesis
      using att ok bytes SendCommits
      by (auto simp: run_send_commits_def Let_def deref_def same attested_request_def split: option.splits prod.splits if_splits)
  qed (use att ok in \<open>auto simp: run_status_def run_sync_next_def Let_def same attested_request_def split: option.splits prod.splits if_splits\<close>)
qed

lemma timer_attested:
  assumes att: "attested_server A B L s"
  shows "attested_server A B L (snd (run_timer B' L' C x s)) \<and>
    (\<forall>cs. fst (run_timer B' L' C x s) = Inr cs \<longrightarrow> (\<forall>c \<in> set cs. attested_action A B L (Timer c)))"
proof (cases x)
  case (DeadItem now i)
  have "attested_server A B L (snd (remove_dead_one C now i s))"
    using remove_dead_one_shape [of C now i s] by (auto intro!: attested_server_frame [OF att])
  with DeadItem show ?thesis by simp
next
  case (PackNext ord clk m)
  have "attested_server A B L (s\<lparr>blk_seq_generator := g, heap := heap s @ [(mk_Block k base t)\<lparr>tx_vec := txs\<rparr>]\<rparr>)" for g k base t txs
    by (rule attested_server_alloc [OF att, where b = "(mk_Block k base t)\<lparr>tx_vec := txs\<rparr>"]) (simp_all add: mk_Block_def)
  with PackNext att show ?thesis
    by (auto simp: run_pack_next_def alloc_def Let_def split: nat.split)
next
  case (MergeBlock now a)
  moreover have "fst (run_merge_block B' C now a s) = Inr cs \<Longrightarrow> cs = []" for cs
    by (auto simp: run_merge_block_def split: sum.splits)
  ultimately show ?thesis using attested_server_merge_block [OF att] by auto
qed (use att in \<open>auto simp: run_merge_take_def run_merge_insert_def run_merge_put_def
      run_merge_push_def run_dead_start_def run_pack_start_def run_pack_push_def generate_tx_def
      intro!: attested_server_frame [OF att] split: option.split sum.split prod.split\<close>)

lemma run_attested:
  assumes spec: "flexlib_spec L" and att: "attested_server A B L s" and inv: "server_inv B L n P g s"
    and ok: "attested_action A B L a" and run: "run B L K C a s = (r, s')"
  shows "attested_server A B L s' \<and> (\<forall>c \<in> set (next_actions r). attested_action A B L c)"
proof -
  have kind: "attested_server A B L s' \<and> (\<forall>c \<in> set (next_actions r). attested_action A B L c)"
    if "run B L K C a s = continue f p" and "attested_server A B L (snd p) \<and>
      (\<forall>cs. fst p = Inr cs \<longrightarrow> (\<forall>c \<in> set cs. attested_action A B L (f c)))" for f :: "'c \<Rightarrow> action" and p
    using that run by (cases p; cases "fst p") (auto simp: continue_def)
  note wf = server_inv_wf [OF inv]
  show ?thesis
  proof (cases a)
    case (Client x)
    show ?thesis by (rule kind [of Client "run_client B L K C x s"]) (use client_attested [OF att wf] ok Client in simp_all)
  next
    case (Peer x)
    show ?thesis by (rule kind [of Peer "run_peer B L C x s"]) (use peer_attested [OF att wf] ok Peer in simp_all)
  next
    case (Send x)
    show ?thesis by (rule kind [of Send "run_sender L C x s"]) (use sender_attested [OF spec att inv] ok Send in simp_all)
  next
    case (Timer x)
    show ?thesis by (rule kind [of Timer "run_timer B L C x s"]) (use timer_attested [OF att] Timer in simp_all)
  qed
qed

text \<open>
  A step of the machine keeps all votes proper, provided that the actions of a thread that starts are.
\<close>

lemma mstep_attested:
  assumes spec: "flexlib_spec L" and net: "net_inv B L C (m_net M)" and att: "attested_machine A B L M"
    and step: "mstep B L K C M M'"
    and start: "\<And>i as. threads M' = threads M @ [(i, as)] \<Longrightarrow> \<forall>a \<in> set as. attested_action A B L a"
  shows "attested_machine A B L M'"
proof -
  have node: "attested_server A B L (nodes (m_net M) i)" for i using att by (simp add: attested_machine_def)
  have act: "attested_server A B L s' \<and> (\<forall>c \<in> set (next_actions r). attested_action A B L c)"
    if "threads M = xs @ (i, a # as) # ys" and "run B L K C a (nodes (m_net M) i) = (r, s')" for xs i a as ys r s'
    by (rule run_attested [OF spec node net_inv_node [OF net] _ that(2)])
      (use att that(1) in \<open>simp add: attested_machine_def\<close>)
  have moved: "attested_server A B L (nodes (moved a i s' (m_net M)) j)" if "attested_server A B L s'" for a i s' j
    using that node by (simp add: moved_def)
  from step show ?thesis
  proof (cases rule: mstep.cases)
    case (spawn i as)
    then show ?thesis using att start [of i as] by (auto simp: attested_machine_def)
  next
    case (exec xs i a as ys cs s')
    then show ?thesis using att act [OF exec(2,3)] moved by (auto simp: attested_machine_def)
  next
    case (fail xs i a as ys e s')
    then show ?thesis using att act [OF fail(2,3)] moved by (auto simp: attested_machine_def)
  next
    case (exit xs i ys)
    then show ?thesis using att by (auto simp: attested_machine_def)
  qed
qed

text \<open>The threads that start, other than the votes of clients.\<close>

lemma spawn_attested:
  assumes att: "attested_machine A B L M" and "spawns C (m_net M) i as" and "a \<in> set as"
    and "\<nexists>c bs. a = Client (VoteItem c bs)"
  shows "attested_action A B L a"
  using assms(2-4)
proof (cases rule: spawns.cases)
  case (deliver req j clk)
  have "attested_request A B L req"
    using att deliver(2) unfolding attested_machine_def attested_server_def by (metis snd_conv)
  then show ?thesis
    using assms(3) deliver(1)
    by (auto simp: attested_request_def peer_actions_def in_set_enumerate_eq split: request.splits)
qed (auto simp: heartbeat_actions_def vote_actions_def block_actions_def commit_actions_def attested_request_def)

end

lemma attested_initial: "attested_machine A B L \<lparr>m_net = initial K C, threads = []\<rparr>"
proof -
  have "attested_server A B L (snd (start K (C\<lparr>cf_server_id := i\<rparr>) True new_server))" for i
  proof -
    let ?C = "C\<lparr>cf_server_id := i\<rparr>" and ?s1 = "new_server\<lparr>server_id := i, blk_seq_generator := i * 1000000\<rparr>"
    have "chm_ok (clients ?s1)" by (simp add: new_server_def)
    then obtain cs where cs: "snd (init_client_profile K ?C ?s1) = ?s1\<lparr>clients := cs\<rparr>"
      using init_client_profile_frame by blast
    have "attested_server A B L (?s1\<lparr>clients := cs\<rparr>)" by (simp add: attested_server_def new_server_def)
    moreover have "attested_server A B L (init_peer_stubs ?C (?s1\<lparr>clients := cs\<rparr>))"
      by (auto simp: attested_server_def new_server_def init_peer_stubs_def Let_def peer_queues_lookup split: if_splits)
    ultimately show ?thesis
      using cs unfolding start_def init_server_def Let_def by (auto split: prod.split option.split)
  qed
  then show ?thesis by (simp add: attested_machine_def initial_def)
qed

end
