(* ===== verification/TC_MsgPack.thy ===== *)
theory TC_MsgPack
  imports TC_Flexbuffers
begin

text \<open>
  The MessagePack format of \<open>include/entity/msgpack_adapter.hpp\<close> and of the \<open>MSGPACK_DEFINE\<close>
  lists of \<open>block.hpp\<close> and \<open>transaction.hpp\<close>, and \<open>Block::get_sha256\<close>, which hashes a
  block in this format.

  The library is the parameter \<open>msgpacklib\<close>. What a \<open>msgpack::packer\<close> was told to write is a
  value of \<open>pval\<close>: integers, strings, byte vectors, null pointers, vectors, members listed
  with \<open>MSGPACK_DEFINE\<close>, \<open>std::map\<close>s and the maps announced with \<open>pack_map(n)\<close>, whose keys and
  values the code packs one by one. \<open>well_packed\<close> says that every announced size is right;
  \<open>denotes\<close> that an unpacked object reads as what was packed; \<open>mp_spec\<close> is the documented
  behaviour the adapters rely on. The reader raises \<open>type_error\<close>, here \<open>LibError\<close>.

  The string form of a threshold signature is libBLS' and the hash is picosha2's; they are the
  parameters \<open>sigstr\<close> and \<open>sha\<close>.

  The lemmas show that reading inverts packing for every entity, this time with the
  threshold signature, hence that the hashed bytes determine the whole block: the votes
  and the timestamps included.
\<close>

subsection \<open>The MessagePack library\<close>

datatype pval =
    PNull
  | PUInt u64
  | PString string
  | PBytes bytes
  | PVector "pval list"
  | PDefine "u64 list"
  | PStdMap "(u64 \<times> pval) list"
  | PMap nat "(string \<times> pval) list"

record 'o msgpacklib =
  mp_pack :: "pval \<Rightarrow> bytes"
  mp_unpack :: "bytes \<Rightarrow> 'o res"
  mp_repack :: "'o \<Rightarrow> bytes"
  mp_is_nil :: "'o \<Rightarrow> bool"
  mp_is_map :: "'o \<Rightarrow> bool"
  mp_map_size :: "'o \<Rightarrow> nat"
  mp_str_map :: "'o \<Rightarrow> (string \<Rightarrow> 'o) res"
  mp_u64 :: "'o \<Rightarrow> u64 res"
  mp_string :: "'o \<Rightarrow> string res"
  mp_bytes :: "'o \<Rightarrow> bytes res"
  mp_vector :: "'o \<Rightarrow> 'o list res"
  mp_members :: "'o \<Rightarrow> u64 list \<Rightarrow> u64 list res"
  mp_u64_map :: "'o \<Rightarrow> (u64 \<times> 'o) list res"

fun well_packed :: "pval \<Rightarrow> bool" where
  "well_packed (PVector vs) = (\<forall>v \<in> set vs. well_packed v)"
| "well_packed (PStdMap kvs) = (sorted_wrt (<) (map fst kvs) \<and> (\<forall>p \<in> set kvs. well_packed (snd p)))"
| "well_packed (PMap n kvs) =
     (n = length kvs \<and> distinct (map fst kvs) \<and> (\<forall>p \<in> set kvs. well_packed (snd p)))"
| "well_packed _ = True"

inductive denotes :: "'o msgpacklib \<Rightarrow> 'o \<Rightarrow> pval \<Rightarrow> bool" for M :: "'o msgpacklib" where
  "mp_is_nil M r \<Longrightarrow> denotes M r PNull"
| "\<not> mp_is_nil M r \<Longrightarrow> mp_u64 M r = Inr w \<Longrightarrow> denotes M r (PUInt w)"
| "\<not> mp_is_nil M r \<Longrightarrow> mp_string M r = Inr s \<Longrightarrow> denotes M r (PString s)"
| "\<not> mp_is_nil M r \<Longrightarrow> mp_bytes M r = Inr bs \<Longrightarrow> denotes M r (PBytes bs)"
| "\<not> mp_is_nil M r \<Longrightarrow> mp_vector M r = Inr rs \<Longrightarrow> list_all2 (denotes M) rs vs \<Longrightarrow> denotes M r (PVector vs)"
| "\<not> mp_is_nil M r \<Longrightarrow> (\<And>ds. length ds = length ws \<Longrightarrow> mp_members M r ds = Inr ws) \<Longrightarrow> denotes M r (PDefine ws)"
| "\<not> mp_is_nil M r \<Longrightarrow> mp_u64_map M r = Inr krs \<Longrightarrow>
     list_all2 (\<lambda>kr kv. fst kr = fst kv \<and> denotes M (snd kr) (snd kv)) krs kvs \<Longrightarrow> denotes M r (PStdMap kvs)"
| "\<not> mp_is_nil M r \<Longrightarrow> mp_is_map M r \<Longrightarrow> mp_map_size M r = length kvs \<Longrightarrow> mp_str_map M r = Inr m \<Longrightarrow>
     (\<And>k v. (k, v) \<in> set kvs \<Longrightarrow> denotes M (m k) v) \<Longrightarrow> denotes M r (PMap (length kvs) kvs)"

inductive_simps denotes_simps:
  "denotes M r PNull" "denotes M r (PUInt w)" "denotes M r (PString s)" "denotes M r (PBytes bs)"
  "denotes M r (PVector vs)" "denotes M r (PDefine ws)" "denotes M r (PStdMap kvs)" "denotes M r (PMap n kvs)"

definition mp_spec :: "'o msgpacklib \<Rightarrow> bool" where
  "mp_spec M \<longleftrightarrow>
     (\<forall>v. well_packed v \<longrightarrow> (\<exists>r. mp_unpack M (mp_pack M v) = Inr r \<and> denotes M r v)) \<and>
     (\<forall>v r. well_packed v \<longrightarrow> denotes M r v \<longrightarrow>
        (\<exists>r'. mp_unpack M (mp_repack M r) = Inr r' \<and> denotes M r' v))"

subsection \<open>Adapters\<close>

definition sbufferToString :: "bytes \<Rightarrow> bytes" where
  "sbufferToString sbuf = sbuf"

definition stringToSbuffer :: "'o msgpacklib \<Rightarrow> bytes \<Rightarrow> bytes res" where
  "stringToSbuffer M str = bindr (mp_unpack M str) (\<lambda>oh. Inr (mp_repack M oh))"

definition as_map :: "'o msgpacklib \<Rightarrow> nat \<Rightarrow> 'o \<Rightarrow> (string \<Rightarrow> 'o) res" where
  "as_map M n r =
     bindr (assertr (mp_is_map M r) LibError) (\<lambda>_.
     bindr (assertr (mp_map_size M r = n) LibError) (\<lambda>_.
       mp_str_map M r))"

definition as_ptr :: "'o msgpacklib \<Rightarrow> ('o \<Rightarrow> 'a res) \<Rightarrow> 'o \<Rightarrow> 'a option res" where
  "as_ptr M f r = (if mp_is_nil M r then Inr None else bindr (f r) (\<lambda>x. Inr (Some x)))"

definition BLSSigShare_pack :: "BLSSigShare \<Rightarrow> pval" where
  "BLSSigShare_pack s =
     PMap 5
       [(''sig_share'', PBytes (ss_point s)),
        (''hint'', PString (ss_hint s)),
        (''signer_index'', PUInt (ss_signer_index s)),
        (''t'', PUInt (ss_t s)),
        (''n'', PUInt (ss_n s))]"

definition BLSSigShare_as :: "'ss blslib \<Rightarrow> 'o msgpacklib \<Rightarrow> 'o \<Rightarrow> BLSSigShare res" where
  "BLSSigShare_as B M r =
     bindr (as_map M 5 r) (\<lambda>m.
     bindr (mp_bytes M (m ''sig_share'')) (\<lambda>sig_share_bv.
     bindr (assertr (length sig_share_bv = 96) AssertFailed) (\<lambda>_.
     bindr (mp_string M (m ''hint'')) (\<lambda>hint.
     bindr (mp_u64 M (m ''signer_index'')) (\<lambda>signer_index.
     bindr (mp_u64 M (m ''t'')) (\<lambda>t.
     bindr (mp_u64 M (m ''n'')) (\<lambda>n.
       bls_mk_share B sig_share_bv hint signer_index t n)))))))"

record sigstr =
  sg_to_string :: "BLSSignature \<Rightarrow> string"
  sg_of_string :: "string \<Rightarrow> u64 \<Rightarrow> u64 \<Rightarrow> BLSSignature res"

definition BLSSignature_pack :: "'ss blslib \<Rightarrow> sigstr \<Rightarrow> BLSSignature \<Rightarrow> pval res" where
  "BLSSignature_pack B G g =
     bindr (bls_mk_sig B (sig_point g) (sig_hint g) (sig_t g) (sig_n g)) (\<lambda>tmp_sig.
       Inr (PMap 3
         [(''sig_str'', PString (sg_to_string G tmp_sig)),
          (''t'', PUInt (sig_t tmp_sig)),
          (''n'', PUInt (sig_n tmp_sig))]))"

definition BLSSignature_as :: "sigstr \<Rightarrow> 'o msgpacklib \<Rightarrow> 'o \<Rightarrow> BLSSignature res" where
  "BLSSignature_as G M r =
     bindr (as_map M 3 r) (\<lambda>m.
     bindr (mp_string M (m ''sig_str'')) (\<lambda>sig_str.
     bindr (mp_u64 M (m ''t'')) (\<lambda>t.
     bindr (mp_u64 M (m ''n'')) (\<lambda>n.
       sg_of_string G sig_str t n))))"

text \<open>
  \<open>evmc::address\<close> holds 20 bytes. Reading copies 20 bytes from the string whatever its
  length; together with the terminating zero a string of 19 bytes still suffices, and a
  shorter one is read out of bounds.
\<close>

definition address_pack :: "bytes \<Rightarrow> pval" where
  "address_pack addr = PMap 1 [(''addr_bytes'', PString (map (\<lambda>b. char_of (unat b)) addr))]"

definition address_as :: "'o msgpacklib \<Rightarrow> 'o \<Rightarrow> bytes res" where
  "address_as M r =
     bindr (as_map M 1 r) (\<lambda>m.
     bindr (mp_string M (m ''addr_bytes'')) (\<lambda>bytes_str.
       let mem = map of_char bytes_str @ [0]
       in if length mem < 20 then Inl OutOfRange else Inr (take 20 mem)))"

definition BlockHeader_pack :: "BlockHeader \<Rightarrow> pval" where
  "BlockHeader_pack h =
     PDefine [hdr_id h, hdr_base_id h, hdr_proposal_ts h, hdr_dist_ts h, hdr_commit_ts h, hdr_recv_ts h]"

definition BlockHeader_as :: "'o msgpacklib \<Rightarrow> 'o \<Rightarrow> BlockHeader res" where
  "BlockHeader_as M r =
     bindr (mp_members M r [0, 0, 0, 0, 0, 0]) (\<lambda>ws.
       case ws of
         [i, base, prop, dist, comm, recv] \<Rightarrow>
           Inr \<lparr>hdr_id = i, hdr_base_id = base, hdr_proposal_ts = prop,
                hdr_dist_ts = dist, hdr_commit_ts = comm, hdr_recv_ts = recv\<rparr>
       | _ \<Rightarrow> Inl LibError)"

text \<open>The default constructor of \<open>Transaction\<close> sets nothing; \<open>tx0\<close> is what memory holds.\<close>

definition Transaction_pack :: "Transaction \<Rightarrow> pval" where
  "Transaction_pack x = PDefine [tx_id x, tx_sender x, tx_receiver x, tx_value x, tx_fee x]"

definition Transaction_as :: "'o msgpacklib \<Rightarrow> Transaction \<Rightarrow> 'o \<Rightarrow> Transaction res" where
  "Transaction_as M tx0 r =
     bindr (mp_members M r [tx_id tx0, tx_sender tx0, tx_receiver tx0, tx_value tx0, tx_fee tx0]) (\<lambda>ws.
       case ws of
         [i, sender, receiver, val, fee] \<Rightarrow> Inr (mk_Transaction i sender receiver val fee)
       | _ \<Rightarrow> Inl LibError)"

definition BlockVote_pack :: "BlockVote \<Rightarrow> pval" where
  "BlockVote_pack v =
     PMap 3
       [(''block_id'', PUInt (vote_block_id v)),
        (''voter_id'', PUInt (vote_voter_id v)),
        (''sig_share'', case vote_sig_share v of None \<Rightarrow> PNull | Some s \<Rightarrow> BLSSigShare_pack s)]"

definition BlockVote_as :: "'ss blslib \<Rightarrow> 'o msgpacklib \<Rightarrow> 'o \<Rightarrow> BlockVote res" where
  "BlockVote_as B M r =
     bindr (as_map M 3 r) (\<lambda>m.
     bindr (mp_u64 M (m ''block_id'')) (\<lambda>blk.
     bindr (as_ptr M (BLSSigShare_as B M) (m ''sig_share'')) (\<lambda>share.
     bindr (mp_u64 M (m ''voter_id'')) (\<lambda>voter.
       Inr \<lparr>vote_block_id = blk, vote_voter_id = voter, vote_sig_share = share\<rparr>))))"

text \<open>
  A null pointer inside a vector or a map, which no packer of the program writes, counts as
  a failure already when it is read.
\<close>

definition as_value :: "'o msgpacklib \<Rightarrow> ('o \<Rightarrow> 'a res) \<Rightarrow> 'o \<Rightarrow> 'a res" where
  "as_value M f r = bindr (as_ptr M f r) (\<lambda>p. case p of None \<Rightarrow> Inl NullDeref | Some x \<Rightarrow> Inr x)"

definition Block_pack :: "'ss blslib \<Rightarrow> sigstr \<Rightarrow> Block \<Rightarrow> pval res" where
  "Block_pack B G b =
     bindr (case tss_sig b of None \<Rightarrow> Inr PNull | Some g \<Rightarrow> BLSSignature_pack B G g) (\<lambda>sig.
       Inr (PMap 4
         [(''header'', BlockHeader_pack (header b)),
          (''tx_vec'', PVector (map Transaction_pack (tx_vec b))),
          (''votes'', PStdMap (map (\<lambda>(k, v). (k, BlockVote_pack v)) (votes b))),
          (''tss_sig'', sig)]))"

definition Block_as :: "'ss blslib \<Rightarrow> sigstr \<Rightarrow> 'o msgpacklib \<Rightarrow> Transaction \<Rightarrow> 'o \<Rightarrow> Block res" where
  "Block_as B G M tx0 r =
     bindr (as_map M 4 r) (\<lambda>m.
     bindr (BlockHeader_as M (m ''header'')) (\<lambda>h.
     bindr (bindr (mp_vector M (m ''tx_vec'')) (mapr (as_value M (Transaction_as M tx0)))) (\<lambda>txs.
     bindr (bindr (mp_u64_map M (m ''votes'')) (mapr (\<lambda>(k, x). bindr (as_value M (BlockVote_as B M) x) (\<lambda>v. Inr (k, v))))) (\<lambda>vs.
     bindr (as_ptr M (BLSSignature_as G M) (m ''tss_sig'')) (\<lambda>sig.
       Inr \<lparr>header = h, tx_vec = txs, votes = vs, tss_sig = sig\<rparr>)))))"

definition get_sha256 :: "'ss blslib \<Rightarrow> sigstr \<Rightarrow> 'o msgpacklib \<Rightarrow> (bytes \<Rightarrow> bytes) \<Rightarrow> Block \<Rightarrow> bytes res" where
  "get_sha256 B G M sha b =
     bindr (Block_pack B G b) (\<lambda>v. Inr (sha (sbufferToString (mp_pack M v))))"

subsection \<open>Reading inverts packing\<close>

lemma denotes_map:
  assumes "denotes M r (PMap n kvs)"
  obtains m where "as_map M n r = Inr m" and "\<And>k v. (k, v) \<in> set kvs \<Longrightarrow> denotes M (m k) v"
  using assms by (auto simp: denotes_simps as_map_def)

lemma not_nil:
  "denotes M r (PUInt w) \<Longrightarrow> \<not> mp_is_nil M r" "denotes M r (PDefine ws) \<Longrightarrow> \<not> mp_is_nil M r"
  "denotes M r (PMap n kvs) \<Longrightarrow> \<not> mp_is_nil M r"
  by (simp_all add: denotes_simps)

lemma BLSSigShare_as_pack:
  assumes "denotes M r (BLSSigShare_pack s)" and "share_ok B s"
  shows "BLSSigShare_as B M r = Inr s"
proof -
  obtain m where m: "as_map M 5 r = Inr m"
    and f: "\<And>k v. (k, v) \<in> set [(''sig_share'', PBytes (ss_point s)), (''hint'', PString (ss_hint s)),
        (''signer_index'', PUInt (ss_signer_index s)), (''t'', PUInt (ss_t s)), (''n'', PUInt (ss_n s))] \<Longrightarrow>
        denotes M (m k) v"
    using denotes_map [OF assms(1) [unfolded BLSSigShare_pack_def]] by blast
  show ?thesis
    using f [of "''sig_share''"] f [of "''hint''"] f [of "''signer_index''"] f [of "''t''"] f [of "''n''"] assms(2)
    by (simp add: BLSSigShare_as_def m share_ok_def denotes_simps)
qed

lemma BlockVote_as_pack:
  assumes "denotes M r (BlockVote_pack v)" and "vote_ok B v"
  shows "BlockVote_as B M r = Inr v" and "\<not> mp_is_nil M r"
proof -
  let ?s = "case vote_sig_share v of None \<Rightarrow> PNull | Some s \<Rightarrow> BLSSigShare_pack s"
  obtain m where m: "as_map M 3 r = Inr m"
    and f: "\<And>k x. (k, x) \<in> set [(''block_id'', PUInt (vote_block_id v)), (''voter_id'', PUInt (vote_voter_id v)),
        (''sig_share'', ?s)] \<Longrightarrow> denotes M (m k) x"
    using denotes_map [OF assms(1) [unfolded BlockVote_pack_def]] by blast
  have "as_ptr M (BLSSigShare_as B M) (m ''sig_share'') = Inr (vote_sig_share v)"
  proof (cases "vote_sig_share v")
    case None
    with f [of "''sig_share''"] show ?thesis by (simp add: as_ptr_def denotes_simps)
  next
    case (Some s)
    with f [of "''sig_share''"] have d: "denotes M (m ''sig_share'') (BLSSigShare_pack s)" by simp
    then have "\<not> mp_is_nil M (m ''sig_share'')" by (simp add: BLSSigShare_pack_def not_nil(3))
    with d Some assms(2) show ?thesis by (simp add: as_ptr_def BLSSigShare_as_pack vote_ok_def)
  qed
  with f [of "''block_id''"] f [of "''voter_id''"] show "BlockVote_as B M r = Inr v"
    by (simp add: BlockVote_as_def m denotes_simps)
  show "\<not> mp_is_nil M r" using assms(1) by (simp add: BlockVote_pack_def not_nil(3))
qed

lemma BlockHeader_as_pack: "denotes M r (BlockHeader_pack h) \<Longrightarrow> BlockHeader_as M r = Inr h"
  by (simp add: BlockHeader_as_def BlockHeader_pack_def denotes_simps)

lemma Transaction_as_pack: "denotes M r (Transaction_pack x) \<Longrightarrow> as_value M (Transaction_as M tx0) r = Inr x"
  by (simp add: as_value_def as_ptr_def Transaction_as_def Transaction_pack_def denotes_simps mk_Transaction_def)

text \<open>A threshold signature whose constructors invert its getters and its string form.\<close>

definition sig_string_ok :: "'ss blslib \<Rightarrow> sigstr \<Rightarrow> BLSSignature \<Rightarrow> bool" where
  "sig_string_ok B G g \<longleftrightarrow> bls_mk_sig B (sig_point g) (sig_hint g) (sig_t g) (sig_n g) = Inr g \<and>
     sg_of_string G (sg_to_string G g) (sig_t g) (sig_n g) = Inr g"

definition packable :: "'ss blslib \<Rightarrow> sigstr \<Rightarrow> Block \<Rightarrow> bool" where
  "packable B G b \<longleftrightarrow> block_shares_ok B b \<and> (case tss_sig b of None \<Rightarrow> True | Some g \<Rightarrow> sig_string_ok B G g)"

lemma BLSSignature_as_pack:
  fixes M :: "'o msgpacklib"
  assumes "sig_string_ok B G g"
  obtains v where "BLSSignature_pack B G g = Inr v" and "well_packed v"
    and "\<And>r. denotes M r v \<Longrightarrow> BLSSignature_as G M r = Inr g \<and> \<not> mp_is_nil M r"
proof -
  let ?kvs = "[(''sig_str'', PString (sg_to_string G g)), (''t'', PUInt (sig_t g)), (''n'', PUInt (sig_n g))]"
  have "BLSSignature_as G M r = Inr g \<and> \<not> mp_is_nil M r" if d: "denotes M r (PMap 3 ?kvs)" for r
  proof -
    obtain m where m: "as_map M 3 r = Inr m" and f: "\<And>k x. (k, x) \<in> set ?kvs \<Longrightarrow> denotes M (m k) x"
      using denotes_map [OF d] by blast
    show ?thesis
      using f [of "''sig_str''"] f [of "''t''"] f [of "''n''"] assms not_nil(3) [OF d]
      by (simp add: BLSSignature_as_def m sig_string_ok_def denotes_simps(2-3))
  qed
  moreover have "BLSSignature_pack B G g = Inr (PMap 3 ?kvs)"
    using assms by (simp add: BLSSignature_pack_def sig_string_ok_def)
  ultimately show ?thesis using that [of "PMap 3 ?kvs"] by simp
qed

lemma mapr_list_all2: "list_all2 (\<lambda>x y. f x = Inr y) xs ys \<Longrightarrow> mapr f xs = Inr ys"
  by (induction rule: list_all2_induct) simp_all


lemma packed_shapes:
  "well_packed (BLSSigShare_pack s)" "well_packed (BlockVote_pack v)"
  "well_packed (BlockHeader_pack h)" "well_packed (Transaction_pack x)"
  by (simp_all add: BLSSigShare_pack_def BlockVote_pack_def BlockHeader_pack_def Transaction_pack_def
      split: option.split)

lemma txs_as_pack:
  assumes "denotes M r (PVector (map Transaction_pack xs))"
  shows "bindr (mp_vector M r) (mapr (as_value M (Transaction_as M tx0))) = Inr xs"
proof -
  obtain rs where "mp_vector M r = Inr rs" and "list_all2 (denotes M) rs (map Transaction_pack xs)"
    using assms by (auto simp: denotes_simps(5))
  moreover from this have "list_all2 (\<lambda>r x. as_value M (Transaction_as M tx0) r = Inr x) rs xs"
    by (auto simp: list_all2_map2 elim!: list_all2_mono intro: Transaction_as_pack)
  ultimately show ?thesis by (simp add: mapr_list_all2)
qed

lemma votes_as_pack:
  assumes "denotes M r (PStdMap (map (\<lambda>(k, v). (k, BlockVote_pack v)) kvs))"
    and "\<forall>v \<in> set (map snd kvs). vote_ok B v"
  shows "bindr (mp_u64_map M r) (mapr (\<lambda>(k, x). bindr (as_value M (BlockVote_as B M) x) (\<lambda>v. Inr (k, v)))) = Inr kvs"
proof -
  let ?f = "\<lambda>(k, x). bindr (as_value M (BlockVote_as B M) x) (\<lambda>v. Inr (k, v))"
  obtain krs where krs: "mp_u64_map M r = Inr krs"
    "list_all2 (\<lambda>kr kv. fst kr = fst kv \<and> denotes M (snd kr) (BlockVote_pack (snd kv))) krs kvs"
    using assms(1) by (auto simp: denotes_simps(7) list_all2_map2 case_prod_beta)
  have "list_all2 (\<lambda>kr kv. ?f kr = Inr kv) krs kvs"
    using krs(2)
  proof (rule list.rel_mono_strong)
    fix kr kv
    assume "kv \<in> set kvs" and d: "fst kr = fst kv \<and> denotes M (snd kr) (BlockVote_pack (snd kv))"
    then have "vote_ok B (snd kv)" using assms(2) by auto
    from BlockVote_as_pack [OF conjunct2 [OF d] this] d show "?f kr = Inr kv"
      by (simp add: case_prod_beta as_value_def as_ptr_def)
  qed
  with krs(1) show ?thesis by (simp add: mapr_list_all2)
qed


lemma Block_as_pack:
  fixes M :: "'o msgpacklib"
  assumes "packable B G b"
  obtains v where "Block_pack B G b = Inr v" and "well_packed v"
    and "\<And>r tx0. denotes M r v \<Longrightarrow> Block_as B G M tx0 r = Inr b"
proof -
  have ok: "block_shares_ok B b" using assms by (simp add: packable_def)
  obtain sig where sig: "(case tss_sig b of None \<Rightarrow> Inr PNull | Some g \<Rightarrow> BLSSignature_pack B G g) = Inr sig"
    "well_packed sig" "\<And>r. denotes M r sig \<Longrightarrow> as_ptr M (BLSSignature_as G M) r = Inr (tss_sig b)"
  proof (cases "tss_sig b")
    case None
    then show ?thesis using that [of PNull] by (simp add: as_ptr_def denotes_simps(1))
  next
    case (Some g)
    with assms have g: "sig_string_ok B G g" by (simp add: packable_def)
    show ?thesis
      by (rule BLSSignature_as_pack [OF g, where M = M], rule that) (auto simp: Some as_ptr_def)
  qed
  let ?kvs = "[(''header'', BlockHeader_pack (header b)), (''tx_vec'', PVector (map Transaction_pack (tx_vec b))),
      (''votes'', PStdMap (map (\<lambda>(k, v). (k, BlockVote_pack v)) (votes b))), (''tss_sig'', sig)]"
  have keys: "fst \<circ> (\<lambda>(k, v). (k, BlockVote_pack v)) = fst" by auto
  have "well_packed (PMap 4 ?kvs)"
    using ok sig(2) by (auto simp: keys packed_shapes block_shares_ok_def Block_ok_def)
  moreover have "Block_as B G M tx0 r = Inr b" if d: "denotes M r (PMap 4 ?kvs)" for r tx0
  proof -
    obtain m where m: "as_map M 4 r = Inr m" and f: "\<And>k x. (k, x) \<in> set ?kvs \<Longrightarrow> denotes M (m k) x"
      using denotes_map [OF d] by blast
    have "BlockHeader_as M (m ''header'') = Inr (header b)"
      by (rule BlockHeader_as_pack) (rule f, simp)
    moreover have "bindr (mp_vector M (m ''tx_vec'')) (mapr (as_value M (Transaction_as M tx0))) = Inr (tx_vec b)"
      by (rule txs_as_pack) (rule f, simp)
    moreover have "bindr (mp_u64_map M (m ''votes''))
        (mapr (\<lambda>(k, x). bindr (as_value M (BlockVote_as B M) x) (\<lambda>v. Inr (k, v)))) = Inr (votes b)"
      by (rule votes_as_pack, rule f, simp) (use ok in \<open>simp add: block_shares_ok_def\<close>)
    moreover have "as_ptr M (BLSSignature_as G M) (m ''tss_sig'') = Inr (tss_sig b)"
      by (rule sig(3)) (rule f, simp)
    ultimately show ?thesis by (simp add: Block_as_def m)
  qed
  ultimately show ?thesis using that [of "PMap 4 ?kvs"] sig(1) by (simp add: Block_pack_def)
qed

lemma unpack_packed:
  assumes "mp_spec M" and "well_packed v"
  obtains r where "mp_unpack M (mp_pack M v) = Inr r" and "denotes M r v"
  using assms unfolding mp_spec_def by blast

text \<open>The bytes that are hashed determine the block.\<close>

lemma hashed_bytes_inj:
  assumes "mp_spec M" and "packable B G b" and "packable B G b'"
    and "Block_pack B G b = Inr v" and "Block_pack B G b' = Inr v'" and "mp_pack M v = mp_pack M v'"
  shows "b = b'"
proof -
  obtain w where w: "Block_pack B G b = Inr w" "well_packed w" "\<And>r tx0. denotes M r w \<Longrightarrow> Block_as B G M tx0 r = Inr b"
    using Block_as_pack [OF assms(2), where M = M] by blast
  obtain w' where w': "Block_pack B G b' = Inr w'" "well_packed w'" "\<And>r tx0. denotes M r w' \<Longrightarrow> Block_as B G M tx0 r = Inr b'"
    using Block_as_pack [OF assms(3), where M = M] by blast
  have same: "mp_pack M w = mp_pack M w'" using assms(4-6) w(1) w'(1) by simp
  obtain r where r: "mp_unpack M (mp_pack M w) = Inr r" "denotes M r w" by (rule unpack_packed [OF assms(1) w(2)])
  obtain r' where r': "mp_unpack M (mp_pack M w') = Inr r'" "denotes M r' w'" by (rule unpack_packed [OF assms(1) w'(2)])
  have "r = r'" using r(1) r'(1) same by simp
  with w(3) [OF r(2)] w'(3) [OF r'(2)] show ?thesis by (metis sum.inject(2))
qed

subsection \<open>A reference library\<close>

text \<open>Objects are the trees of \<open>TC_FlexLib\<close>, written with its reference encoding.\<close>

fun to_fval :: "pval \<Rightarrow> fval" where
  "to_fval PNull = FNull"
| "to_fval (PUInt w) = FUInt w"
| "to_fval (PString s) = FString s"
| "to_fval (PBytes bs) = FBlob bs"
| "to_fval (PVector vs) = FVector (map to_fval vs)"
| "to_fval (PDefine ws) = FVector (map FUInt ws)"
| "to_fval (PStdMap kvs) = FVector (map (\<lambda>p. FVector [FUInt (fst p), to_fval (snd p)]) kvs)"
| "to_fval (PMap n kvs) = FMap (map (\<lambda>p. (fst p, to_fval (snd p))) kvs)"

definition fval_u64 :: "fval \<Rightarrow> u64 res" where
  "fval_u64 r = (case r of FUInt w \<Rightarrow> Inr w | _ \<Rightarrow> Inl LibError)"

definition fval_pair :: "fval \<Rightarrow> (u64 \<times> fval) res" where
  "fval_pair r = (case r of FVector [k, x] \<Rightarrow> bindr (fval_u64 k) (\<lambda>w. Inr (w, x)) | _ \<Rightarrow> Inl LibError)"

definition ref_msgpack :: "fval msgpacklib" where
  "ref_msgpack =
     \<lparr>mp_pack = (\<lambda>v. enc (to_fval v)),
      mp_unpack = (\<lambda>bs. Inr (fst (dec (length bs) bs))),
      mp_repack = enc,
      mp_is_nil = (\<lambda>r. r = FNull),
      mp_is_map = (\<lambda>r. case r of FMap kvs \<Rightarrow> True | _ \<Rightarrow> False),
      mp_map_size = (\<lambda>r. case r of FMap kvs \<Rightarrow> length kvs | _ \<Rightarrow> 0),
      mp_str_map = (\<lambda>r. case r of
         FMap kvs \<Rightarrow> Inr (\<lambda>k. case map_of kvs k of Some v \<Rightarrow> v | None \<Rightarrow> FNull) | _ \<Rightarrow> Inl LibError),
      mp_u64 = fval_u64,
      mp_string = (\<lambda>r. case r of FString s \<Rightarrow> Inr s | _ \<Rightarrow> Inl LibError),
      mp_bytes = (\<lambda>r. case r of FBlob bs \<Rightarrow> Inr bs | _ \<Rightarrow> Inl LibError),
      mp_vector = (\<lambda>r. case r of FVector vs \<Rightarrow> Inr vs | _ \<Rightarrow> Inl LibError),
      mp_members = (\<lambda>r ds. case r of
         FVector vs \<Rightarrow> bindr (mapr fval_u64 vs) (\<lambda>ws. Inr (take (length ds) ws @ drop (length ws) ds))
       | _ \<Rightarrow> Inl LibError),
      mp_u64_map = (\<lambda>r. case r of FVector vs \<Rightarrow> mapr fval_pair vs | _ \<Rightarrow> Inl LibError)\<rparr>"

lemma ref_accessors:
  "mp_is_nil ref_msgpack r = (r = FNull)" "mp_u64 ref_msgpack = fval_u64"
  "mp_string ref_msgpack (FString s) = Inr s" "mp_bytes ref_msgpack (FBlob bs) = Inr bs"
  "mp_vector ref_msgpack (FVector vs) = Inr vs" "mp_u64_map ref_msgpack (FVector vs) = mapr fval_pair vs"
  "mp_is_map ref_msgpack (FMap kvs)" "mp_map_size ref_msgpack (FMap kvs) = length kvs"
  "mp_str_map ref_msgpack (FMap kvs) = Inr (\<lambda>k. case map_of kvs k of Some v \<Rightarrow> v | None \<Rightarrow> FNull)"
  "mp_members ref_msgpack (FVector vs) ds =
     bindr (mapr fval_u64 vs) (\<lambda>ws. Inr (take (length ds) ws @ drop (length ws) ds))"
  by (simp_all add: ref_msgpack_def)

lemma unpack_ref: "mp_unpack ref_msgpack (enc x) = Inr x"
  using dec_enc [of x "length (enc x)" "[]"] by (simp add: ref_msgpack_def)

lemma denotes_ref: "well_packed v \<Longrightarrow> denotes ref_msgpack (to_fval v) v"
proof (induction v)
  case (PVector vs)
  then have "list_all2 (denotes ref_msgpack) (map to_fval vs) vs"
    by (auto simp: list_all2_map1 intro!: list_all2_all_nthI)
  then show ?case by (intro denotes.intros(5)) (simp_all add: ref_accessors)
next
  case (PDefine ws)
  have "mapr fval_u64 (map FUInt ws) = Inr ws" by (induction ws) (simp_all add: fval_u64_def)
  then show ?case by (intro denotes.intros(6)) (simp_all add: ref_accessors)
next
  case (PStdMap kvs)
  let ?krs = "map (\<lambda>p. (fst p, to_fval (snd p))) kvs"
  have "mapr fval_pair (map (\<lambda>p. FVector [FUInt (fst p), to_fval (snd p)]) kvs) = Inr ?krs"
    by (induction kvs) (simp_all add: fval_pair_def fval_u64_def)
  moreover have "denotes ref_msgpack (to_fval (snd p)) (snd p)" if "p \<in> set kvs" for p
    using PStdMap that by (cases p) auto
  then have "list_all2 (\<lambda>kr kv. fst kr = fst kv \<and> denotes ref_msgpack (snd kr) (snd kv)) ?krs kvs"
    unfolding list_all2_map1 fst_conv snd_conv by (intro list.rel_refl_strong conjI refl)
  ultimately show ?case by (intro denotes.intros(7)) (simp_all add: ref_accessors)
next
  case (PMap n kvs)
  let ?m = "\<lambda>k. case map_of (map (\<lambda>p. (fst p, to_fval (snd p))) kvs) k of Some v \<Rightarrow> v | None \<Rightarrow> FNull"
  have "denotes ref_msgpack (?m k) v" if "(k, v) \<in> set kvs" for k v
  proof -
    have "map_of kvs k = Some v" using that PMap.prems by simp
    then have "map_of (map (\<lambda>p. (fst p, to_fval (snd p))) kvs) k = Some (to_fval v)"
      using map_of_map [of to_fval kvs] by (simp add: case_prod_beta')
    moreover have "well_packed v" using that PMap.prems by auto
    ultimately show ?thesis using PMap.IH [OF that] by simp
  qed
  moreover have "n = length kvs" using PMap.prems by simp
  ultimately show ?case by (auto simp: ref_accessors intro!: denotes.intros(8))
qed (auto intro!: denotes.intros simp: ref_accessors fval_u64_def)

lemma ref_msgpack_spec: "mp_spec ref_msgpack"
proof -
  have "mp_pack ref_msgpack v = enc (to_fval v)" "mp_repack ref_msgpack r = enc r" for v r
    by (simp_all add: ref_msgpack_def)
  then show ?thesis by (auto simp: mp_spec_def unpack_ref denotes_ref)
qed


definition ref_sigstr :: sigstr where
  "ref_sigstr =
     \<lparr>sg_to_string = (\<lambda>g. map (\<lambda>b. char_of (unat b)) (sig_point g)),
      sg_of_string = (\<lambda>s t n. Inr \<lparr>sig_point = map of_char s, sig_hint = [], sig_t = t, sig_n = n\<rparr>)\<rparr>"

definition sample_sig :: BLSSignature where
  "sample_sig = \<lparr>sig_point = [1, 2], sig_hint = [], sig_t = 2, sig_n = 2\<rparr>"

lemma byte_of_char: "(of_char (char_of (unat b)) :: byte) = b"
proof -
  have eq: "(of_char c :: byte) = word_of_nat (of_char c)" for c by (simp add: of_nat_of_char)
  have "of_char (char_of (unat b)) = unat b" using unsigned_less [of b, where 'a = nat] by simp
  then show ?thesis by (subst eq) simp
qed

lemma sample_packable:
  "packable ref_bls ref_sigstr sample_block" "packable ref_bls ref_sigstr (sample_block\<lparr>tss_sig := Some sample_sig\<rparr>)"
proof -
  have "sig_string_ok ref_bls ref_sigstr sample_sig"
    using byte_of_char [of 1] byte_of_char [of 2]
    by (simp add: sig_string_ok_def ref_bls_def ref_sigstr_def sample_sig_def)
  moreover have "tss_sig sample_block = None" by (simp add: sample_defs)
  ultimately show "packable ref_bls ref_sigstr sample_block"
    "packable ref_bls ref_sigstr (sample_block\<lparr>tss_sig := Some sample_sig\<rparr>)"
    using sample_block_shares_ok by (simp_all add: packable_def block_shares_ok_def)
qed

subsection \<open>Properties\<close>

text \<open>
  C30: a block survives MessagePack completely, with header, transactions, votes and
  threshold signature, directly and after \<open>sbufferToString\<close> and \<open>stringToSbuffer\<close>, which unpack
  and pack again.
\<close>

theorem Block_msgpack_roundtrip:
  assumes "mp_spec M" and "packable B G b"
  shows "\<exists>v r bs r'. Block_pack B G b = Inr v \<and> mp_unpack M (mp_pack M v) = Inr r \<and> Block_as B G M tx0 r = Inr b
    \<and> stringToSbuffer M (sbufferToString (mp_pack M v)) = Inr bs
    \<and> mp_unpack M bs = Inr r' \<and> Block_as B G M tx0 r' = Inr b"
proof -
  obtain v where v: "Block_pack B G b = Inr v" "well_packed v"
    and rd: "\<And>r tx0. denotes M r v \<Longrightarrow> Block_as B G M tx0 r = Inr b"
    using Block_as_pack [OF assms(2), where M = M] by blast
  obtain r where r: "mp_unpack M (mp_pack M v) = Inr r" "denotes M r v" by (rule unpack_packed [OF assms(1) v(2)])
  obtain r' where "mp_unpack M (mp_repack M r) = Inr r'" "denotes M r' v"
    using assms(1) v(2) r(2) unfolding mp_spec_def by blast
  with v(1) r rd show ?thesis by (auto simp: stringToSbuffer_def sbufferToString_def)
qed

theorem Block_msgpack_roundtrip_witness:
  "\<exists>v r. Block_pack ref_bls ref_sigstr (sample_block\<lparr>tss_sig := Some sample_sig\<rparr>) = Inr v
     \<and> mp_unpack ref_msgpack (mp_pack ref_msgpack v) = Inr r
     \<and> Block_as ref_bls ref_sigstr ref_msgpack (mk_Transaction 0 0 0 0 0) r = Inr (sample_block\<lparr>tss_sig := Some sample_sig\<rparr>)"
  using Block_msgpack_roundtrip [OF ref_msgpack_spec sample_packable(2)] by blast

text \<open>
  C31: what a client signs is the hash of bytes that determine the whole block: two
  copies of a block are hashed from the same bytes only if they agree in everything, the
  timestamps of the header and the votes received so far included.
\<close>

theorem get_sha256_covers_block:
  assumes "mp_spec M" and "packable B G b" and "packable B G b'"
  shows "\<exists>x x'. (\<forall>sha. get_sha256 B G M sha b = Inr (sha x) \<and> get_sha256 B G M sha b' = Inr (sha x'))
    \<and> (x = x' \<longleftrightarrow> b = b')"
proof -
  obtain v where v: "Block_pack B G b = Inr v" using Block_as_pack [OF assms(2), where M = M] by blast
  obtain v' where v': "Block_pack B G b' = Inr v'" using Block_as_pack [OF assms(3), where M = M] by blast
  have "mp_pack M v = mp_pack M v' \<longleftrightarrow> b = b'"
    using hashed_bytes_inj [OF assms v v'] v v' by auto
  with v v' show ?thesis by (auto simp: get_sha256_def sbufferToString_def)
qed

theorem get_sha256_covers_block_witness:
  "get_sha256 ref_bls ref_sigstr ref_msgpack (\<lambda>x. x) sample_block
     \<noteq> get_sha256 ref_bls ref_sigstr ref_msgpack (\<lambda>x. x) (sample_block\<lparr>tss_sig := Some sample_sig\<rparr>)"
proof -
  have "sample_block \<noteq> sample_block\<lparr>tss_sig := Some sample_sig\<rparr>" by (simp add: sample_defs)
  with get_sha256_covers_block [OF ref_msgpack_spec sample_packable] show ?thesis by force
qed

text \<open>
  An address of 20 bytes survives MessagePack; the reader copies 20 bytes whatever it
  was given, so that a string of fewer than 19 bytes makes it read out of bounds.
\<close>

theorem address_roundtrip:
  assumes "mp_spec M"
  shows "\<exists>r. mp_unpack M (mp_pack M (address_pack addr)) = Inr r \<and>
    address_as M r = (if length addr < 19 then Inl OutOfRange else Inr (take 20 (addr @ [0])))"
proof -
  let ?s = "map (\<lambda>b. char_of (unat b)) addr"
  have "well_packed (address_pack addr)" by (simp add: address_pack_def)
  then obtain r where r: "mp_unpack M (mp_pack M (address_pack addr)) = Inr r" "denotes M r (address_pack addr)"
    by (rule unpack_packed [OF assms])
  obtain m where m: "as_map M 1 r = Inr m"
    and f: "\<And>k x. (k, x) \<in> set [(''addr_bytes'', PString ?s)] \<Longrightarrow> denotes M (m k) x"
    using denotes_map [OF r(2) [unfolded address_pack_def]] by blast
  have "mp_string M (m ''addr_bytes'') = Inr ?s"
    using f [of "''addr_bytes''"] by (simp add: denotes_simps)
  moreover have "map of_char ?s = addr" by (simp add: comp_def byte_of_char)
  ultimately have "address_as M r = (if length addr < 19 then Inl OutOfRange else Inr (take 20 (addr @ [0])))"
    by (simp add: address_as_def m [simplified] Let_def)
  with r(1) show ?thesis by blast
qed

theorem address_roundtrip_witness:
  "\<exists>r. mp_unpack ref_msgpack (mp_pack ref_msgpack (address_pack [1])) = Inr r \<and> address_as ref_msgpack r = Inl OutOfRange"
  using address_roundtrip [OF ref_msgpack_spec, of "[1]"] by simp

end
