(* ===== verification/TC_Client.thy ===== *)
theory TC_Client
  imports TC_MsgPack TC_Invariant
begin

text \<open>
  The client of \<open>include/client/tc-client.hpp\<close>, \<open>include/client/tc-client-grpc.hpp\<close> and
  \<open>src/client/tc-client.cpp\<close>: the choice of its two servers, start-up, registration, and the
  rounds of its threads, which pull headers, get blocks and vote.

  The record \<open>client\<close> has the members of \<open>TcClient\<close> that the code uses; \<open>cli_requests\<close> is an
  observation, the sequence of requests handed to the two stubs. The blocks in the queue
  belong to the client alone and are held by value. What a remote call answers is an
  argument of the operation: the contents of the response, which is empty when the call
  fails, since the code does not look at the status.

  RocksDB is the parameter \<open>rocksdb\<close>: \<open>rdb_get\<close> gives the contents of the result string after a
  \<open>Get\<close>, given its contents before. Signing and reading a key share from a string belong to
  libBLS and are the parameter \<open>signlib\<close>.
\<close>

subsection \<open>Configuration, libraries and state\<close>

record client_conf =
  cc_client_id :: u64
  cc_client_count :: u64
  cc_account_count :: u64
  cc_clear_rocksdb :: string
  cc_grpc_server_count :: u32
  cc_grpc_server_port :: u32
  cc_grpc_server_ip :: string

record 'd rocksdb =
  rdb_get :: "'d \<Rightarrow> string \<Rightarrow> string \<Rightarrow> string"
  rdb_put :: "string \<Rightarrow> string \<Rightarrow> 'd \<Rightarrow> 'd"

record signlib =
  sl_sk_of_string :: "bytes \<Rightarrow> u64 \<Rightarrow> u64 \<Rightarrow> BLSPrivateKeyShare res"
  sl_sign :: "BLSPrivateKeyShare \<Rightarrow> bytes \<Rightarrow> u64 \<Rightarrow> BLSSigShare res"

datatype client_request =
    RegisterRequest u32 bytes
  | HeartbeatRequest u32
  | PullPendingBlocksRequest u32
  | GetBlocksRequest "bytes list"
  | VoteBlocksRequest u32 "bytes list"

record 'd client =
  cli_id :: u64
  cli_ecc_pkey :: bytes
  cli_pending_blks :: "Block list"
  cli_pending_blkhdr :: "(u64, BlockHeader) chm"
  cli_tss_key :: "(BLSPrivateKeyShare \<times> BLSPublicKeyShare) option"
  cli_db :: 'd
  sender_strvec :: "string list"
  receiver_strvec :: "string list"
  sender_bal_strvec :: "string list"
  receiver_bal_strvec :: "string list"
  cli_requests :: "(nat \<times> client_request) list"

subsection \<open>The choice of servers\<close>

text \<open>\<open>main\<close>: a nonzero \<open>--id\<close> replaces the configured client number.\<close>

definition conf_with_id :: "u32 \<Rightarrow> client_conf \<Rightarrow> client_conf" where
  "conf_with_id arg_id cc = (if ucast arg_id \<noteq> (0 :: u64) then cc\<lparr>cc_client_id := ucast arg_id\<rparr> else cc)"

definition server_select :: "client_conf \<Rightarrow> u32 res" where
  "server_select cc =
     (if cc_grpc_server_count cc = 0 then Inl DivByZero
      else let client_index = ucast (cc_client_id cc) - 1
           in Inr (client_index mod cc_grpc_server_count cc + 1))"

definition shadow_server_select :: "client_conf \<Rightarrow> u32 res" where
  "shadow_server_select cc =
     (if cc_grpc_server_count cc = 0 then Inl DivByZero
      else let client_index = ucast (cc_client_id cc) - 1;
               shadow = client_index mod cc_grpc_server_count cc + 2
           in Inr (if shadow > cc_grpc_server_count cc then 1 else shadow))"

definition server_addr :: "client_conf \<Rightarrow> u32 \<Rightarrow> string" where
  "server_addr cc select = cc_grpc_server_ip cc @ '':'' @ to_string (ucast (cc_grpc_server_port cc + select))"

subsection \<open>Start-up\<close>

definition populate :: "'d rocksdb \<Rightarrow> u64 \<Rightarrow> 'd \<Rightarrow> 'd" where
  "populate D account_count db =
     fold (\<lambda>i. rdb_put D (to_string (word_of_nat i)) (to_string (word_of_nat i))) [0..<unat account_count] db"

definition TcClient_init :: "'d rocksdb \<Rightarrow> client_conf \<Rightarrow> bytes \<Rightarrow> bool \<Rightarrow> 'd \<Rightarrow> 'd client outcome" where
  "TcClient_init D cc pkey db_open_ok db =
     (let c = \<lparr>cli_id = cc_client_id cc, cli_ecc_pkey = pkey, cli_pending_blks = [], cli_pending_blkhdr = [],
               cli_tss_key = None, cli_db = db,
               sender_strvec = replicate 2000 [], receiver_strvec = replicate 2000 [],
               sender_bal_strvec = replicate 2000 [], receiver_bal_strvec = replicate 2000 [],
               cli_requests = []\<rparr>
      in if \<not> db_open_ok then (Some AssertFailed, c)
         else if cc_clear_rocksdb cc = ''true''
         then (Some ProcessExit, c\<lparr>cli_db := populate D (cc_account_count cc) db\<rparr>)
         else (None, c))"

subsection \<open>Remote calls\<close>

definition call_stub :: "nat \<Rightarrow> client_request \<Rightarrow> 'd client \<Rightarrow> 'd client outcome" where
  "call_stub stub_id req c =
     (if stub_id < 2 then (None, c\<lparr>cli_requests := cli_requests c @ [(stub_id, req)]\<rparr>) else (Some OutOfRange, c))"

definition TcClient_Register ::
  "keylib \<Rightarrow> signlib \<Rightarrow> client_conf \<Rightarrow> bytes \<Rightarrow> nat \<Rightarrow> 'd client \<Rightarrow> 'd client outcome" where
  "TcClient_Register K S cc tss_sk_str stub_id c =
     (case call_stub stub_id (RegisterRequest (ucast (cli_id c)) (cli_ecc_pkey c)) c of
        (Some e, c1) \<Rightarrow> (Some e, c1)
      | (None, c1) \<Rightarrow>
          let n = cc_client_count cc
          in case bindr (sl_sk_of_string S tss_sk_str n n) (\<lambda>skey_share.
                  bindr (kl_mk_pk K (sk_share skey_share) n n) (\<lambda>pkey_share. Inr (skey_share, pkey_share))) of
               Inl e \<Rightarrow> (Some e, c1)
             | Inr key \<Rightarrow> (None, c1\<lparr>cli_tss_key := Some key\<rparr>))"

definition TcClient_Heartbeat :: "nat \<Rightarrow> 'd client \<Rightarrow> 'd client outcome" where
  "TcClient_Heartbeat stub_id c = call_stub stub_id (HeartbeatRequest (ucast (cli_id c))) c"

definition TcClient_PullPendingBlocks :: "'r flexlib \<Rightarrow> bytes list \<Rightarrow> nat \<Rightarrow> 'd client \<Rightarrow> 'd client outcome" where
  "TcClient_PullPendingBlocks L pb_hdrs stub_id c =
     (case call_stub stub_id (PullPendingBlocksRequest (ucast (cli_id c))) c of
        (Some e, c1) \<Rightarrow> (Some e, c1)
      | (None, c1) \<Rightarrow>
          (None, c1\<lparr>cli_pending_blkhdr := fold (\<lambda>hdr_bytes.
             let h = BlockHeader_from_bytes L hdr_bytes in chm_insert (hdr_id h) h) pb_hdrs (cli_pending_blkhdr c1)\<rparr>))"

definition got_block :: "Block \<Rightarrow> 'd client \<Rightarrow> 'd client outcome" where
  "got_block block c =
     (None, c\<lparr>cli_pending_blks := push block (cli_pending_blks c),
              cli_pending_blkhdr := chm_erase (block_id block) (cli_pending_blkhdr c)\<rparr>)"

text \<open>\<open>ord\<close> is the order in which the hash map is traversed, \<open>answer\<close> what the server answers.\<close>

definition TcClient_GetBlocks ::
  "'ss blslib \<Rightarrow> 'r flexlib \<Rightarrow> ((u64 \<times> BlockHeader) list \<Rightarrow> (u64 \<times> BlockHeader) list) \<Rightarrow>
     (bytes list \<Rightarrow> bytes list) \<Rightarrow> nat \<Rightarrow> 'd client \<Rightarrow> 'd client outcome" where
  "TcClient_GetBlocks B L ord answer stub_id c =
     (let pb_hdrs = map (\<lambda>(k, h). BlockHeader_to_bytes L h) (ord (cli_pending_blkhdr c))
      in case call_stub stub_id (GetBlocksRequest pb_hdrs) c of
           (Some e, c1) \<Rightarrow> (Some e, c1)
         | (None, c1) \<Rightarrow> decode_each (Block_from_bytes B L) got_block (answer pb_hdrs) c1)"

subsection \<open>Voting\<close>

text \<open>
  \<open>snprintf(s.data(), s.size(), "%ld", w)\<close> writes at most \<open>s.size() - 1\<close> characters and a
  terminating zero over the contents of \<open>s\<close>, whose size does not change.
\<close>

definition format_ld :: "u64 \<Rightarrow> string" where
  "format_ld w = (if sint w < 0 then ''-'' @ to_string (- w) else to_string w)"

definition snprintf_into :: "string \<Rightarrow> string \<Rightarrow> string" where
  "snprintf_into buf text =
     (if buf = [] then []
      else let written = take (length buf - 1) text @ [CHR 0x00] in written @ drop (length written) buf)"

definition format_accounts :: "nat \<times> Transaction \<Rightarrow> 'd client \<Rightarrow> 'd client outcome" where
  "format_accounts p c =
     (let (i, tx) = p
      in if i < length (sender_strvec c) \<and> i < length (receiver_strvec c)
         then (None, c\<lparr>sender_strvec := (sender_strvec c)[i := snprintf_into (sender_strvec c ! i) (format_ld (tx_sender tx))],
                       receiver_strvec := (receiver_strvec c)[i := snprintf_into (receiver_strvec c ! i) (format_ld (tx_receiver tx))]\<rparr>)
         else (Some OutOfRange, c))"

definition touch_accounts :: "'d rocksdb \<Rightarrow> nat \<Rightarrow> 'd client \<Rightarrow> 'd client" where
  "touch_accounts D i c =
     (let sender = sender_strvec c ! i; receiver = receiver_strvec c ! i;
          sender_bal = rdb_get D (cli_db c) sender (sender_bal_strvec c ! i);
          receiver_bal = rdb_get D (cli_db c) receiver (receiver_bal_strvec c ! i)
      in c\<lparr>sender_bal_strvec := (sender_bal_strvec c)[i := sender_bal],
           receiver_bal_strvec := (receiver_bal_strvec c)[i := receiver_bal],
           cli_db := rdb_put D receiver receiver_bal (rdb_put D sender sender_bal (cli_db c))\<rparr>)"

definition check_tx :: "'d rocksdb \<Rightarrow> Transaction list \<Rightarrow> 'd client \<Rightarrow> 'd client outcome" where
  "check_tx D txs c =
     (case foreach format_accounts (enumerate 0 txs) c of
        (Some e, c1) \<Rightarrow> (Some e, c1)
      | (None, c1) \<Rightarrow> (None, fold (touch_accounts D) [0..<length txs] c1))"

record ('ss, 'o, 'd) votelib =
  vl_bls :: "'ss blslib"
  vl_sigstr :: sigstr
  vl_msgpack :: "'o msgpacklib"
  vl_sha :: "bytes \<Rightarrow> bytes"
  vl_sign :: signlib
  vl_db :: "'d rocksdb"

definition sign_block :: "('ss, 'o, 'd) votelib \<Rightarrow> Block \<Rightarrow> 'd client \<Rightarrow> Block res" where
  "sign_block V b c =
     bindr (get_sha256 (vl_bls V) (vl_sigstr V) (vl_msgpack V) (vl_sha V) b) (\<lambda>block_hash_str.
     case cli_tss_key c of
       None \<Rightarrow> Inl NullDeref
     | Some key \<Rightarrow>
         bindr (sl_sign (vl_sign V) (fst key) block_hash_str (cli_id c)) (\<lambda>sig_share.
           let bv = \<lparr>vote_block_id = block_id b, vote_voter_id = cli_id c, vote_sig_share = Some sig_share\<rparr>
           in Inr (Block_add_vote (cli_id c) bv (b\<lparr>tx_vec := []\<rparr>))))"

definition vote_block :: "('ss, 'o, 'd) votelib \<Rightarrow> 'r flexlib \<Rightarrow> Block \<Rightarrow> 'd client \<Rightarrow> 'd client outcome" where
  "vote_block V L b c =
     (case check_tx (vl_db V) (tx_vec b) c of
        (Some e, c1) \<Rightarrow> (Some e, c1)
      | (None, c1) \<Rightarrow>
          (case sign_block V b c1 of
             Inl e \<Rightarrow> (Some e, c1)
           | Inr voted \<Rightarrow>
               foreach (\<lambda>stub_id. call_stub stub_id
                 (VoteBlocksRequest (ucast (cli_id c1)) [Block_to_bytes L voted])) [0, 1] c1))"

lemma call_stub_queue: "cli_pending_blks (snd (call_stub i req c)) = cli_pending_blks c"
  by (simp add: call_stub_def)

lemma touch_accounts_queue: "cli_pending_blks (fold (touch_accounts D) is c) = cli_pending_blks c"
  by (induction "is" arbitrary: c) (simp_all add: touch_accounts_def Let_def)

lemma check_tx_queue: "cli_pending_blks (snd (check_tx D txs c)) = cli_pending_blks c"
proof -
  have "cli_pending_blks (snd (foreach format_accounts ps c)) = cli_pending_blks c" for ps
    by (rule foreach_invariant [where I = "\<lambda>c'. cli_pending_blks c' = cli_pending_blks c"])
      (simp_all add: format_accounts_def Let_def split: prod.split)
  then show ?thesis
    by (auto simp: check_tx_def touch_accounts_queue split: prod.split option.split) (metis snd_conv)+
qed

lemma vote_block_queue:
  fixes c :: "'d client"
  shows "cli_pending_blks (snd (vote_block V L b c)) = cli_pending_blks c"
proof -
  have "cli_pending_blks (snd (foreach (\<lambda>i. call_stub i req) is c1)) = cli_pending_blks c1" for "is" req and c1 :: "'d client"
    by (rule foreach_invariant [where I = "\<lambda>c'. cli_pending_blks c' = cli_pending_blks c1"])
      (simp_all add: call_stub_queue)
  then show ?thesis
    using check_tx_queue [of "vl_db V" "tx_vec b" c]
    by (auto simp: vote_block_def simp del: foreach.simps split: prod.split option.split sum.split)
qed

function TcClient_VoteBlocks :: "('ss, 'o, 'd) votelib \<Rightarrow> 'r flexlib \<Rightarrow> 'd client \<Rightarrow> 'd client outcome" where
  "TcClient_VoteBlocks V L c =
     (case try_pop (cli_pending_blks c) of
        None \<Rightarrow> (None, c)
      | Some (b, q) \<Rightarrow>
          (case vote_block V L b (c\<lparr>cli_pending_blks := q\<rparr>) of
             (None, c') \<Rightarrow> TcClient_VoteBlocks V L c'
           | (Some e, c') \<Rightarrow> (Some e, c')))"
  by pat_completeness auto
termination
proof (relation "measure (\<lambda>(V, L, c). length (cli_pending_blks c))", goal_cases)
  case 1
  then show ?case by simp
next
  case (2 V L c p b q x c')
  then have "c' = snd (vote_block V L b (c\<lparr>cli_pending_blks := q\<rparr>))" by (metis snd_conv)
  then have "cli_pending_blks c' = q" by (simp add: vote_block_queue)
  with "2" show ?case by (auto dest: lq.try_pop_shrinks)
qed

declare TcClient_VoteBlocks.simps [simp del]

text \<open>
  \<open>start\<close> registers with the first server before it starts the threads of \<open>schedule\<close>. One round of
  the heartbeat thread, of the pull thread and of the vote thread: \<open>h0\<close>, \<open>h1\<close> are the headers
  that the two servers answer, \<open>a0\<close>, \<open>a1\<close> their answers to the request for blocks.
\<close>

definition TcClient_start :: "keylib \<Rightarrow> signlib \<Rightarrow> client_conf \<Rightarrow> bytes \<Rightarrow> 'd client \<Rightarrow> 'd client outcome" where
  "TcClient_start K S cc tss_sk_str c = TcClient_Register K S cc tss_sk_str 0 c"

definition client_heartbeat_round :: "'d client \<Rightarrow> 'd client outcome" where
  "client_heartbeat_round c = TcClient_Heartbeat 0 c"

definition client_pull_round ::
  "'ss blslib \<Rightarrow> 'r flexlib \<Rightarrow> ((u64 \<times> BlockHeader) list \<Rightarrow> (u64 \<times> BlockHeader) list) \<Rightarrow>
     bytes list \<Rightarrow> bytes list \<Rightarrow> (bytes list \<Rightarrow> bytes list) \<Rightarrow> (bytes list \<Rightarrow> bytes list) \<Rightarrow> 'd client \<Rightarrow> 'd client outcome" where
  "client_pull_round B L ord h0 h1 a0 a1 c =
     foreach (\<lambda>call. call)
       [TcClient_PullPendingBlocks L h0 0, TcClient_PullPendingBlocks L h1 1,
        TcClient_GetBlocks B L ord a0 0, TcClient_GetBlocks B L ord a1 1] c"

definition client_vote_round :: "('ss, 'o, 'd) votelib \<Rightarrow> 'r flexlib \<Rightarrow> 'd client \<Rightarrow> 'd client outcome" where
  "client_vote_round V L c = TcClient_VoteBlocks V L c"

subsection \<open>Checking transactions: lemmas\<close>

text \<open>The buffers as \<open>init\<close> leaves them: the strings for the keys have been reserved but are empty.\<close>

definition buffers_ok :: "'d client \<Rightarrow> bool" where
  "buffers_ok c \<longleftrightarrow> sender_strvec c = replicate 2000 [] \<and> receiver_strvec c = replicate 2000 [] \<and>
     length (sender_bal_strvec c) = 2000 \<and> length (receiver_bal_strvec c) = 2000"

lemma format_accounts_empty:
  assumes "buffers_ok c"
  shows "format_accounts (i, tx) c = (if i < 2000 then (None, c) else (Some OutOfRange, c))"
proof -
  have "(replicate 2000 [])[i := []] = (replicate 2000 [] :: string list)"
    by (cases "i < 2000") (simp_all add: list_update_same_conv list_update_beyond)
  with assms show ?thesis by (simp add: format_accounts_def buffers_ok_def snprintf_into_def)
qed

lemma format_loop:
  assumes "buffers_ok c"
  shows "foreach format_accounts (enumerate k txs) c =
    (if txs = [] \<or> k + length txs \<le> 2000 then (None, c) else (Some OutOfRange, c))"
proof (induction txs arbitrary: k)
  case (Cons tx txs)
  then show ?case
    using Cons.IH [of "Suc k"] by (cases "txs = []") (auto simp: format_accounts_empty [OF assms])
qed simp

lemma touch_empty:
  assumes "buffers_ok c" and "i < 2000"
  shows "buffers_ok (touch_accounts D i c)"
    and "cli_id (touch_accounts D i c) = cli_id c" "cli_tss_key (touch_accounts D i c) = cli_tss_key c"
      "cli_requests (touch_accounts D i c) = cli_requests c" "cli_pending_blkhdr (touch_accounts D i c) = cli_pending_blkhdr c"
    and "\<exists>v w. cli_db (touch_accounts D i c) = rdb_put D [] w (rdb_put D [] v (cli_db c))"
  using assms by (auto simp: touch_accounts_def buffers_ok_def Let_def)

lemma check_tx_run:
  assumes "buffers_ok c"
  shows "2000 < length txs \<Longrightarrow> check_tx D txs c = (Some OutOfRange, c)"
    and "length txs \<le> 2000 \<Longrightarrow> \<exists>c' vs. check_tx D txs c = (None, c') \<and> buffers_ok c' \<and> cli_id c' = cli_id c
      \<and> cli_tss_key c' = cli_tss_key c \<and> cli_requests c' = cli_requests c \<and> cli_pending_blkhdr c' = cli_pending_blkhdr c
      \<and> cli_db c' = fold (rdb_put D []) vs (cli_db c) \<and> length vs = 2 * length txs"
proof -
  have loop: "\<exists>vs. buffers_ok (fold (touch_accounts D) is c) \<and> cli_id (fold (touch_accounts D) is c) = cli_id c
      \<and> cli_tss_key (fold (touch_accounts D) is c) = cli_tss_key c
      \<and> cli_requests (fold (touch_accounts D) is c) = cli_requests c
      \<and> cli_pending_blkhdr (fold (touch_accounts D) is c) = cli_pending_blkhdr c
      \<and> cli_db (fold (touch_accounts D) is c) = fold (rdb_put D []) vs (cli_db c) \<and> length vs = 2 * length is"
    if "set is \<subseteq> {..<2000}" for "is"
    using that assms
  proof (induction "is" arbitrary: c)
    case (Cons i "is")
    note t = touch_empty [OF Cons.prems(2), of i D]
    obtain v w where db: "cli_db (touch_accounts D i c) = rdb_put D [] w (rdb_put D [] v (cli_db c))"
      using t(6) Cons.prems(1) by auto
    from Cons.IH [OF _ t(1)] Cons.prems(1) obtain vs where
      "buffers_ok (fold (touch_accounts D) is (touch_accounts D i c))"
      "cli_id (fold (touch_accounts D) is (touch_accounts D i c)) = cli_id c"
      "cli_tss_key (fold (touch_accounts D) is (touch_accounts D i c)) = cli_tss_key c"
      "cli_requests (fold (touch_accounts D) is (touch_accounts D i c)) = cli_requests c"
      "cli_pending_blkhdr (fold (touch_accounts D) is (touch_accounts D i c)) = cli_pending_blkhdr c"
      "cli_db (fold (touch_accounts D) is (touch_accounts D i c)) = fold (rdb_put D []) vs (cli_db (touch_accounts D i c))"
      "length vs = 2 * length is"
      using t(2-5) by auto
    then show ?case by (intro exI [of _ "v # w # vs"]) (simp add: db)
  qed simp
  show "2000 < length txs \<Longrightarrow> check_tx D txs c = (Some OutOfRange, c)"
    by (auto simp: check_tx_def format_loop [OF assms])
  show "\<exists>c' vs. check_tx D txs c = (None, c') \<and> buffers_ok c' \<and> cli_id c' = cli_id c
      \<and> cli_tss_key c' = cli_tss_key c \<and> cli_requests c' = cli_requests c \<and> cli_pending_blkhdr c' = cli_pending_blkhdr c
      \<and> cli_db c' = fold (rdb_put D []) vs (cli_db c) \<and> length vs = 2 * length txs" if len: "length txs \<le> 2000"
  proof -
    have "set [0..<length txs] \<subseteq> {..<2000}" using len by auto
    from loop [OF this] show ?thesis using len by (simp add: check_tx_def format_loop [OF assms])
  qed
qed

subsection \<open>Voting: lemmas\<close>

text \<open>
  \<open>signs V key i\<close>: the key share signs every hash for the signer \<open>i\<close> with a well-formed share.
\<close>

definition signs :: "('ss, 'o, 'd) votelib \<Rightarrow> BLSPrivateKeyShare \<Rightarrow> u64 \<Rightarrow> bool" where
  "signs V sk i \<longleftrightarrow> (\<forall>h. \<exists>sh. sl_sign (vl_sign V) sk h i = Inr sh \<and> share_ok (vl_bls V) sh)"

lemma small_id:
  assumes "int (unat (i :: u64)) \<le> INT_MAX"
  shows "ucast (ucast i :: u32) = i"
proof -
  have "unat i \<le> 2147483647" using assms unfolding INT_MAX_def by linarith
  then have "unat (ucast i :: u32) = unat i" by (simp add: unsigned_ucast_eq take_bit_nat_eq_self)
  then show ?thesis by (simp add: word_unat_eq_iff unat_client_id)
qed

text \<open>A block as the client receives it.\<close>

definition votable :: "('ss, 'o, 'd) votelib \<Rightarrow> Block \<Rightarrow> bool" where
  "votable V b \<longleftrightarrow> sendable (vl_bls V) b \<and> tss_sig b = None \<and> length (tx_vec b) \<le> 2000"

abbreviation vote_request :: "'r flexlib \<Rightarrow> u64 \<Rightarrow> Block \<Rightarrow> client_request" where
  "vote_request L i b \<equiv> VoteBlocksRequest (ucast i) [Block_to_bytes L b]"

abbreviation vote_requests :: "'r flexlib \<Rightarrow> u64 \<Rightarrow> Block list \<Rightarrow> (nat \<times> client_request) list" where
  "vote_requests L i bs \<equiv> concat (map (\<lambda>b. [(0, vote_request L i b), (1, vote_request L i b)]) bs)"

text \<open>
  \<open>vb\<close> is the ballot made from \<open>b\<close>: no transactions, and the voter's vote, which carries the
  signature of the hash of the block as it was received, unless the block came with a vote of
  this voter.
\<close>

definition signed_vote :: "('ss, 'o, 'd) votelib \<Rightarrow> BLSPrivateKeyShare \<Rightarrow> u64 \<Rightarrow> Block \<Rightarrow> BlockVote \<Rightarrow> bool" where
  "signed_vote V sk i b v \<longleftrightarrow> (\<exists>h sh. get_sha256 (vl_bls V) (vl_sigstr V) (vl_msgpack V) (vl_sha V) b = Inr h
     \<and> sl_sign (vl_sign V) sk h i = Inr sh
     \<and> v = \<lparr>vote_block_id = block_id b, vote_voter_id = i, vote_sig_share = Some sh\<rparr>)"

definition voted_copy :: "('ss, 'o, 'd) votelib \<Rightarrow> BLSPrivateKeyShare \<Rightarrow> u64 \<Rightarrow> Block \<Rightarrow> Block \<Rightarrow> bool" where
  "voted_copy V sk i b vb \<longleftrightarrow> header vb = header b \<and> tx_vec vb = [] \<and>
     (\<exists>v. ballot (vl_bls V) (block_id b) (ucast i) v vb \<and> vote_ok (vl_bls V) v
        \<and> (map_of (votes b) i = None \<longrightarrow> signed_vote V sk i b v))"

lemma sign_block_voted:
  assumes "signs V (fst key) (cli_id c)" and "cli_tss_key c = Some key" and "votable V b"
    and "int (unat (cli_id c)) \<le> INT_MAX"
  shows "\<exists>vb. sign_block V b c = Inr vb \<and> voted_copy V (fst key) (cli_id c) b vb"
proof -
  have send: "sendable (vl_bls V) b" and ok: "block_shares_ok (vl_bls V) b"
    using assms(3) by (simp_all add: votable_def sendable_def)
  have "packable (vl_bls V) (vl_sigstr V) b" using assms(3) ok by (simp add: votable_def packable_def)
  then obtain x where x: "Block_pack (vl_bls V) (vl_sigstr V) b = Inr x"
    using Block_as_pack [where M = "vl_msgpack V"] by blast
  obtain sh where sh: "sl_sign (vl_sign V) (fst key) (vl_sha V (mp_pack (vl_msgpack V) x)) (cli_id c) = Inr sh"
    "share_ok (vl_bls V) sh" using assms(1) unfolding signs_def by blast
  let ?i = "cli_id c"
  let ?v = "\<lparr>vote_block_id = block_id b, vote_voter_id = ?i, vote_sig_share = Some sh\<rparr>"
  let ?vb = "Block_add_vote ?i ?v (b\<lparr>tx_vec := []\<rparr>)"
  have "sign_block V b c = Inr ?vb"
    using x sh(1) assms(2) by (simp add: sign_block_def get_sha256_def sbufferToString_def)
  moreover have "voted_copy V (fst key) ?i b ?vb"
  proof -
    have vok: "vote_ok (vl_bls V) ?v" using sh(2) by (simp add: vote_ok_def)
    have ok0: "block_shares_ok (vl_bls V) (b\<lparr>tx_vec := []\<rparr>)" using ok by (simp add: block_shares_ok_def)
    have shares: "block_shares_ok (vl_bls V) ?vb" using block_shares_ok_add_vote [OF ok0 vok] .
    have keys: "\<forall>k \<in> set (map fst (votes ?vb)). int (unat k) \<le> INT_MAX"
      using send assms(4) set_omap_insert [of ?i ?v "votes b"] by (auto simp: sendable_def Block_add_vote_def)
    have look: "map_of (votes ?vb) ?i = (case map_of (votes b) ?i of None \<Rightarrow> Some ?v | Some w \<Rightarrow> Some w)"
      using Block_add_vote_lookup [of "b\<lparr>tx_vec := []\<rparr>" ?i ?v] ok
      by (auto simp: block_shares_ok_def split: option.split)
    then obtain v where v: "map_of (votes ?vb) ?i = Some v" "map_of (votes b) ?i = None \<longrightarrow> v = ?v"
      by (cases "map_of (votes b) ?i") auto
    then have "v \<in> set (map snd (votes ?vb))" by (force dest: map_of_SomeD)
    then have "vote_ok (vl_bls V) v" using shares unfolding block_shares_ok_def by blast
    moreover have "signed_vote V (fst key) ?i b ?v"
      using x sh(1) by (simp add: signed_vote_def get_sha256_def sbufferToString_def)
    ultimately show ?thesis
      using shares keys v
      by (auto simp: voted_copy_def ballot_def sendable_def small_id [OF assms(4)] intro!: exI [of _ v])
  qed
  ultimately show ?thesis by blast
qed


lemma vote_block_run:
  assumes "buffers_ok c" and "signs V (fst key) (cli_id c)" and "cli_tss_key c = Some key" and "votable V b"
    and "int (unat (cli_id c)) \<le> INT_MAX"
  shows "\<exists>c' vb. vote_block V L b c = (None, c') \<and> voted_copy V (fst key) (cli_id c) b vb \<and> buffers_ok c'
    \<and> cli_id c' = cli_id c \<and> cli_tss_key c' = cli_tss_key c \<and> cli_pending_blkhdr c' = cli_pending_blkhdr c
    \<and> cli_requests c' = cli_requests c @ vote_requests L (cli_id c) [vb]"
proof -
  have "length (tx_vec b) \<le> 2000" using assms(4) by (simp add: votable_def)
  from check_tx_run(2) [OF assms(1) this, of "vl_db V"] obtain c1 where
    c1: "check_tx (vl_db V) (tx_vec b) c = (None, c1)" "buffers_ok c1" "cli_id c1 = cli_id c"
    "cli_tss_key c1 = cli_tss_key c" "cli_requests c1 = cli_requests c" "cli_pending_blkhdr c1 = cli_pending_blkhdr c"
    by blast
  obtain vb where vb: "sign_block V b c1 = Inr vb" "voted_copy V (fst key) (cli_id c) b vb"
    using sign_block_voted [of V key c1 b] assms(2-5) c1(3,4) by auto
  let ?c' = "c1\<lparr>cli_requests := cli_requests c1 @ vote_requests L (cli_id c) [vb]\<rparr>"
  have "vote_block V L b c = (None, ?c')" using c1(1,3) vb(1) by (simp add: vote_block_def call_stub_def)
  moreover have "buffers_ok ?c'" using c1(2) by (simp add: buffers_ok_def)
  ultimately show ?thesis using vb(2) c1 by (intro exI [of _ ?c'] exI [of _ vb]) simp
qed

lemma VoteBlocks_loop:
  assumes "buffers_ok c" and "signs V (fst key) (cli_id c)" and "cli_tss_key c = Some key"
    and "int (unat (cli_id c)) \<le> INT_MAX" and "\<forall>b \<in> set (cli_pending_blks c). votable V b"
  shows "\<exists>c' vbs. TcClient_VoteBlocks V L c = (None, c') \<and> cli_pending_blks c' = [] \<and> buffers_ok c'
    \<and> cli_id c' = cli_id c \<and> cli_tss_key c' = cli_tss_key c \<and> cli_pending_blkhdr c' = cli_pending_blkhdr c
    \<and> list_all2 (voted_copy V (fst key) (cli_id c)) (cli_pending_blks c) vbs
    \<and> cli_requests c' = cli_requests c @ vote_requests L (cli_id c) vbs"
  using assms
proof (induction "cli_pending_blks c" arbitrary: c)
  case Nil
  then show ?case
    by (subst TcClient_VoteBlocks.simps) (auto intro!: exI [of _ "[]"])
next
  case (Cons b q)
  let ?c0 = "c\<lparr>cli_pending_blks := q\<rparr>"
  have q: "cli_pending_blks c = b # q" using Cons.hyps(2) by simp
  have "votable V b" using Cons.prems(5) q by simp
  moreover have "buffers_ok ?c0" using Cons.prems(1) by (simp add: buffers_ok_def)
  ultimately obtain c1 vb where c1: "vote_block V L b ?c0 = (None, c1)" "voted_copy V (fst key) (cli_id c) b vb" "buffers_ok c1"
    "cli_id c1 = cli_id c" "cli_tss_key c1 = cli_tss_key c" "cli_pending_blkhdr c1 = cli_pending_blkhdr c"
    "cli_requests c1 = cli_requests c @ vote_requests L (cli_id c) [vb]"
    using vote_block_run [of ?c0 V key b L] Cons.prems(2-4) by auto
  have q1: "q = cli_pending_blks c1" using vote_block_queue [of V L b ?c0] c1(1) by simp
  have "\<exists>c' vbs. TcClient_VoteBlocks V L c1 = (None, c') \<and> cli_pending_blks c' = [] \<and> buffers_ok c'
    \<and> cli_id c' = cli_id c1 \<and> cli_tss_key c' = cli_tss_key c1 \<and> cli_pending_blkhdr c' = cli_pending_blkhdr c1
    \<and> list_all2 (voted_copy V (fst key) (cli_id c1)) (cli_pending_blks c1) vbs
    \<and> cli_requests c' = cli_requests c1 @ vote_requests L (cli_id c1) vbs"
    by (rule Cons.hyps(1) [OF q1 c1(3)]) (use Cons.prems c1 q q1 in simp_all)
  then obtain c' vbs where c': "TcClient_VoteBlocks V L c1 = (None, c')" "cli_pending_blks c' = []" "buffers_ok c'"
    "cli_id c' = cli_id c1" "cli_tss_key c' = cli_tss_key c1" "cli_pending_blkhdr c' = cli_pending_blkhdr c1"
    "list_all2 (voted_copy V (fst key) (cli_id c1)) q vbs"
    "cli_requests c' = cli_requests c1 @ vote_requests L (cli_id c1) vbs"
    using q1 by auto
  have "TcClient_VoteBlocks V L c = (None, c')"
    by (subst TcClient_VoteBlocks.simps) (simp add: q c1(1) c'(1))
  with c1 c' show ?case by (intro exI [of _ c'] exI [of _ "vb # vbs"]) (simp add: q)
qed

subsection \<open>Pulling and getting: lemmas\<close>

definition keyed_hdrs :: "(u64, BlockHeader) chm \<Rightarrow> bool" where
  "keyed_hdrs m \<longleftrightarrow> chm_ok m \<and> (\<forall>k h. map_of m k = Some h \<longrightarrow> hdr_id h = k)"

lemma keyed_hdrs_empty [simp]: "keyed_hdrs []"
  by (simp add: keyed_hdrs_def)

lemma pull_headers:
  assumes "keyed_hdrs m"
  shows "keyed_hdrs (fold (\<lambda>h. chm_insert (hdr_id h) h) hs m)"
    and "dom (map_of (fold (\<lambda>h. chm_insert (hdr_id h) h) hs m)) = dom (map_of m) \<union> hdr_id ` set hs"
proof -
  have "keyed_hdrs (fold (\<lambda>h. chm_insert (hdr_id h) h) hs m) \<and>
      dom (map_of (fold (\<lambda>h. chm_insert (hdr_id h) h) hs m)) = dom (map_of m) \<union> hdr_id ` set hs"
    using assms
  proof (induction hs arbitrary: m)
    case (Cons h hs)
    have "map_of (chm_insert (hdr_id h) h m) =
        (if map_of m (hdr_id h) = None then (map_of m)(hdr_id h \<mapsto> h) else map_of m)"
      using Cons.prems by (simp add: keyed_hdrs_def chm.lookup_ins)
    moreover have "chm_ok (chm_insert (hdr_id h) h m)"
      using Cons.prems by (simp add: keyed_hdrs_def chm.invar_ins)
    ultimately have "keyed_hdrs (chm_insert (hdr_id h) h m)"
      and "dom (map_of (chm_insert (hdr_id h) h m)) = insert (hdr_id h) (dom (map_of m))"
      using Cons.prems by (auto simp: keyed_hdrs_def split: if_splits)
    with Cons.IH show ?case by auto
  qed simp
  then show "keyed_hdrs (fold (\<lambda>h. chm_insert (hdr_id h) h) hs m)"
    and "dom (map_of (fold (\<lambda>h. chm_insert (hdr_id h) h) hs m)) = dom (map_of m) \<union> hdr_id ` set hs"
    by blast+
qed

lemma got_loop:
  "foreach got_block bs c = (None, c\<lparr>cli_pending_blks := cli_pending_blks c @ bs,
    cli_pending_blkhdr := fold chm_erase (map block_id bs) (cli_pending_blkhdr c)\<rparr>)"
  by (induction bs arbitrary: c) (simp_all add: got_block_def push_def)

text \<open>What a server in the state \<open>s\<close> answers to a request for blocks.\<close>

definition served :: "'r flexlib \<Rightarrow> server \<Rightarrow> bytes list \<Rightarrow> bytes list" where
  "served L s req = (case GetBlocks L req s of Inl e \<Rightarrow> [] | Inr pbs \<Rightarrow> pbs)"

lemma map_filter_ids:
  assumes "\<And>x y. x \<in> set xs \<Longrightarrow> f x = Some y \<Longrightarrow> g y = key x"
    and "\<And>x. x \<in> set xs \<Longrightarrow> f x = None \<longleftrightarrow> key x \<notin> D"
  shows "map g (List.map_filter f xs) = filter (\<lambda>k. k \<in> D) (map key xs)"
  using assms
proof (induction xs)
  case (Cons x xs)
  have "map g (List.map_filter f xs) = filter (\<lambda>k. k \<in> D) (map key xs)"
    by (rule Cons.IH) (simp_all add: Cons.prems)
  moreover have "f x = Some y \<Longrightarrow> g y = key x" for y by (simp add: Cons.prems(1))
  moreover have "f x = None \<longleftrightarrow> key x \<notin> D" by (simp add: Cons.prems(2))
  ultimately show ?case by (cases "f x") (simp_all add: map_filter_simps)
qed (simp add: map_filter_simps)

lemma traversed_ids:
  assumes "keyed_hdrs m" and "visits_all ord"
  shows "distinct (map hdr_id (map snd (ord m)))" and "set (map hdr_id (map snd (ord m))) = dom (map_of m)"
proof -
  have ok: "chm_ok m" using assms(1) by (simp add: keyed_hdrs_def)
  have "hdr_id (snd p) = fst p" if "p \<in> set (ord m)" for p
  proof -
    have "map_of m (fst p) = Some (snd p)" using that ok by (simp add: visits_all_set [OF assms(2)])
    then show ?thesis using assms(1) by (simp add: keyed_hdrs_def)
  qed
  then have ids: "map hdr_id (map snd (ord m)) = map fst (ord m)" by simp
  show "distinct (map hdr_id (map snd (ord m)))" unfolding ids using visits_all_keys [OF assms(2) ok] .
  show "set (map hdr_id (map snd (ord m))) = dom (map_of m)"
    unfolding ids by (simp add: visits_all_set [OF assms(2)] dom_map_of_conv_image_fst)
qed

lemma GetBlocks_client:
  assumes L: "flexlib_spec L" and wf: "server_wf s" and send: "\<forall>b \<in> set (heap s). sendable B b"
    and hdrs: "keyed_hdrs (cli_pending_blkhdr c)" and ord: "visits_all ord" and i: "i < 2"
  shows "\<exists>bs m req. TcClient_GetBlocks B L ord (served L s) i c = (None, c\<lparr>cli_pending_blks := cli_pending_blks c @ bs,
      cli_pending_blkhdr := m, cli_requests := cli_requests c @ [(i, GetBlocksRequest req)]\<rparr>)
    \<and> keyed_hdrs m \<and> dom (map_of m) = dom (map_of (cli_pending_blkhdr c)) - dom (map_of (pending_blks s))
    \<and> distinct (map block_id bs)
    \<and> set (map block_id bs) = dom (map_of (cli_pending_blkhdr c)) \<inter> dom (map_of (pending_blks s))
    \<and> (\<forall>b \<in> set bs. \<exists>b' \<in> set (heap s). b = b'\<lparr>tss_sig := None\<rparr>)"
proof -
  let ?m = "cli_pending_blkhdr c" and ?D = "dom (map_of (pending_blks s))"
  let ?hs = "map snd (ord ?m)" and ?req = "map (\<lambda>(k, h). BlockHeader_to_bytes L h) (ord ?m)"
  have ok: "chm_ok ?m" using hdrs by (simp add: keyed_hdrs_def)
  note dist = traversed_ids(1) [OF hdrs ord] and dom = traversed_ids(2) [OF hdrs ord]
  let ?as = "List.map_filter (\<lambda>h. map_of (pending_blks s) (hdr_id h)) ?hs"
  let ?bs = "map (\<lambda>a. heap s ! a) ?as" and ?got = "map (\<lambda>a. (heap s ! a)\<lparr>tss_sig := None\<rparr>) ?as"
  have addr: "a < length (heap s)" if "a \<in> set ?as" for a
    using that server_wf_pending [OF wf] by (auto simp: map_filter_def)
  have "map (\<lambda>a. block_id (heap s ! a)) ?as = filter (\<lambda>k. k \<in> ?D) (map hdr_id ?hs)"
    by (rule map_filter_ids) (use server_wf_pending [OF wf] in \<open>auto simp: domIff\<close>)
  then have got_ids: "map block_id ?got = filter (\<lambda>k. k \<in> ?D) (map hdr_id ?hs)" by (simp add: comp_def)
  then have set_ids: "set (map block_id ?got) = dom (map_of ?m) \<inter> ?D"
    unfolding got_ids set_filter dom by blast
  have req: "?req = map (BlockHeader_to_bytes L) ?hs" by (simp add: case_prod_beta)
  have ans: "served L s ?req = map (Block_to_bytes L) ?bs"
    unfolding req served_def GetBlocks_run [OF wf L, of ?hs] by simp
  have bs: "set ?bs \<subseteq> set (heap s)" using addr by (auto intro!: nth_mem)
  then have "\<forall>b \<in> set ?bs. sendable B b" using send by blast
  note dec = block_wire.decode_each_written [OF L this, of got_block]
  let ?c1 = "c\<lparr>cli_requests := cli_requests c @ [(i, GetBlocksRequest ?req)]\<rparr>"
  have "TcClient_GetBlocks B L ord (served L s) i c = decode_each (Block_from_bytes B L) got_block (served L s ?req) ?c1"
    using i by (simp add: TcClient_GetBlocks_def call_stub_def Let_def)
  also have "\<dots> = foreach got_block ?got ?c1" unfolding ans dec by (simp add: comp_def)
  also have "\<dots> = (None, c\<lparr>cli_pending_blks := cli_pending_blks c @ ?got,
      cli_pending_blkhdr := fold chm_erase (map block_id ?got) ?m,
      cli_requests := cli_requests c @ [(i, GetBlocksRequest ?req)]\<rparr>)"
    unfolding got_loop by simp
  finally have run: "TcClient_GetBlocks B L ord (served L s) i c = \<dots>" .
  have left: "map_of (fold chm_erase (map block_id ?got) ?m) = map_of ?m |` (- set (map block_id ?got))"
    using ok by (intro chm.fold_erase_lookup)
  have "keyed_hdrs (fold chm_erase (map block_id ?got) ?m)"
    using chm.fold_erase_invar [OF ok] hdrs unfolding keyed_hdrs_def left by (auto simp: restrict_map_def split: if_splits)
  moreover have "dom (map_of (fold chm_erase (map block_id ?got) ?m)) = dom (map_of ?m) - ?D"
    unfolding left dom_restrict set_ids by blast
  moreover have "distinct (map block_id ?got)" unfolding got_ids using dist by (rule distinct_filter)
  moreover have "\<forall>b \<in> set ?got. \<exists>b' \<in> set (heap s). b = b'\<lparr>tss_sig := None\<rparr>" using bs by force
  ultimately show ?thesis
    using run set_ids
    by (intro exI [of _ ?got] exI [of _ "fold chm_erase (map block_id ?got) ?m"] exI [of _ ?req]) blast
qed

text \<open>A round of the pull thread: every block that one of the two servers offered is queued once.\<close>

lemma pull_stub:
  assumes "flexlib_spec L" and "i < 2"
  shows "TcClient_PullPendingBlocks L (map (BlockHeader_to_bytes L) hs) i c =
    (None, c\<lparr>cli_requests := cli_requests c @ [(i, PullPendingBlocksRequest (ucast (cli_id c)))],
       cli_pending_blkhdr := fold (\<lambda>h. chm_insert (hdr_id h) h) hs (cli_pending_blkhdr c)\<rparr>)"
proof -
  have "fold (\<lambda>hdr_bytes. let h = BlockHeader_from_bytes L hdr_bytes in chm_insert (hdr_id h) h)
      (map (BlockHeader_to_bytes L) hs) m = fold (\<lambda>h. chm_insert (hdr_id h) h) hs m" for m
    by (simp add: fold_map comp_def BlockHeader_roundtrip_eq [OF assms(1)])
  with assms(2) show ?thesis by (simp add: TcClient_PullPendingBlocks_def call_stub_def)
qed

lemma pull_round_run:
  assumes L: "flexlib_spec L" and wf: "server_wf s0" "server_wf s1"
    and send: "\<forall>b \<in> set (heap s0) \<union> set (heap s1). sendable B b" and ord: "visits_all ord"
    and empty: "cli_pending_blkhdr c = []"
    and pend: "hdr_id ` set hs0 \<subseteq> dom (map_of (pending_blks s0))" "hdr_id ` set hs1 \<subseteq> dom (map_of (pending_blks s1))"
  shows "\<exists>bs reqs. client_pull_round B L ord (map (BlockHeader_to_bytes L) hs0) (map (BlockHeader_to_bytes L) hs1)
      (served L s0) (served L s1) c = (None, c\<lparr>cli_pending_blks := cli_pending_blks c @ bs, cli_requests := cli_requests c @ reqs\<rparr>)
    \<and> length reqs = 4 \<and> distinct (map block_id bs) \<and> set (map block_id bs) = hdr_id ` set hs0 \<union> hdr_id ` set hs1
    \<and> (\<forall>b \<in> set bs. \<exists>b' \<in> set (heap s0) \<union> set (heap s1). b = b'\<lparr>tss_sig := None\<rparr>)"
proof -
  let ?ins = "\<lambda>hs. fold (\<lambda>h. chm_insert (hdr_id h) h) hs"
  let ?pull = "PullPendingBlocksRequest (ucast (cli_id c))"
  let ?D0 = "dom (map_of (pending_blks s0))" and ?D1 = "dom (map_of (pending_blks s1))"
  let ?ids = "hdr_id ` set hs0 \<union> hdr_id ` set hs1"
  let ?m = "?ins hs1 (?ins hs0 [])"
  have m: "keyed_hdrs ?m" "dom (map_of ?m) = ?ids" by (simp_all add: pull_headers)
  let ?c2 = "c\<lparr>cli_requests := cli_requests c @ [(0, ?pull), (1, ?pull)], cli_pending_blkhdr := ?m\<rparr>"
  have pulls: "TcClient_PullPendingBlocks L (map (BlockHeader_to_bytes L) hs1) 1
      (snd (TcClient_PullPendingBlocks L (map (BlockHeader_to_bytes L) hs0) 0 c)) = (None, ?c2)"
    by (simp add: pull_stub [OF L] empty)
  have "keyed_hdrs (cli_pending_blkhdr ?c2)" using m(1) by simp
  from GetBlocks_client [OF L wf(1) _ this ord, where i = 0 and B = B] send obtain bs0 m0 req0 where
    g0: "TcClient_GetBlocks B L ord (served L s0) 0 ?c2 = (None, ?c2\<lparr>cli_pending_blks := cli_pending_blks ?c2 @ bs0,
      cli_pending_blkhdr := m0, cli_requests := cli_requests ?c2 @ [(0, GetBlocksRequest req0)]\<rparr>)"
    and m0: "keyed_hdrs m0" "dom (map_of m0) = ?ids - ?D0"
    and b0: "distinct (map block_id bs0)" "set (map block_id bs0) = ?ids \<inter> ?D0"
      "\<forall>b \<in> set bs0. \<exists>b' \<in> set (heap s0). b = b'\<lparr>tss_sig := None\<rparr>"
    using m(2) by auto
  let ?c3 = "c\<lparr>cli_pending_blks := cli_pending_blks c @ bs0, cli_pending_blkhdr := m0,
    cli_requests := cli_requests c @ [(0, ?pull), (1, ?pull), (0, GetBlocksRequest req0)]\<rparr>"
  have "keyed_hdrs (cli_pending_blkhdr ?c3)" using m0(1) by simp
  from GetBlocks_client [OF L wf(2) _ this ord, where i = 1 and B = B] send obtain bs1 m1 req1 where
    g1: "TcClient_GetBlocks B L ord (served L s1) 1 ?c3 = (None, ?c3\<lparr>cli_pending_blks := cli_pending_blks ?c3 @ bs1,
      cli_pending_blkhdr := m1, cli_requests := cli_requests ?c3 @ [(1, GetBlocksRequest req1)]\<rparr>)"
    and m1: "dom (map_of m1) = ?ids - ?D0 - ?D1"
    and b1: "distinct (map block_id bs1)" "set (map block_id bs1) = (?ids - ?D0) \<inter> ?D1"
      "\<forall>b \<in> set bs1. \<exists>b' \<in> set (heap s1). b = b'\<lparr>tss_sig := None\<rparr>"
    using m0(2) by auto
  have "?ids - ?D0 - ?D1 = {}" using pend by blast
  then have "dom (map_of m1) = {}" unfolding m1 .
  then have "m1 = []" by (simp only: dom_eq_empty_conv map_of_eq_empty_iff)
  let ?reqs = "[(0, ?pull), (1, ?pull), (0, GetBlocksRequest req0), (1, GetBlocksRequest req1)]"
  have "client_pull_round B L ord (map (BlockHeader_to_bytes L) hs0) (map (BlockHeader_to_bytes L) hs1)
      (served L s0) (served L s1) c =
      (None, c\<lparr>cli_pending_blks := cli_pending_blks c @ (bs0 @ bs1), cli_requests := cli_requests c @ ?reqs\<rparr>)"
    using pulls g0 g1 \<open>m1 = []\<close> empty by (simp add: client_pull_round_def pull_stub [OF L])
  moreover have "distinct (map block_id (bs0 @ bs1))" using b0(1,2) b1(1,2) by auto
  moreover have "set (map block_id (bs0 @ bs1)) = ?ids" using b0(2) b1(2) pend by auto
  moreover have "\<forall>b \<in> set (bs0 @ bs1). \<exists>b' \<in> set (heap s0) \<union> set (heap s1). b = b'\<lparr>tss_sig := None\<rparr>"
    using b0(3) b1(3) by auto
  ultimately show ?thesis by (intro exI [of _ "bs0 @ bs1"] exI [of _ ?reqs]) simp
qed

text \<open>
  What registration relies on: a key made from a share holds that share and can be read back
  from its string form.
\<close>

definition key_spec :: "keylib \<Rightarrow> signlib \<Rightarrow> u64 \<Rightarrow> Fr \<Rightarrow> bool" where
  "key_spec K S n x \<longleftrightarrow> (\<forall>sk. kl_mk_sk K x n n = Inr sk \<longrightarrow>
     sk_share sk = x \<and> sl_sk_of_string S (kl_sk_string K sk) n n = Inr sk)"

text \<open>The blocks that a pull shows to a client, and the blocks that a client can check.\<close>

abbreviation unseen :: "server \<Rightarrow> ClientProfile \<Rightarrow> u64 set" where
  "unseen s cp \<equiv> {k \<in> dom (map_of (pending_blks s)). k \<in> pb_sync_labels s \<and> map_of (cl_seen_blocks cp) k = None}"

definition checkable :: "('ss, 'o, 'd) votelib \<Rightarrow> Block \<Rightarrow> bool" where
  "checkable V b \<longleftrightarrow> sendable (vl_bls V) b \<and> length (tx_vec b) \<le> 2000"

lemma checkable_votable: "checkable V b \<Longrightarrow> votable V (b\<lparr>tss_sig := None\<rparr>)"
  by (simp add: checkable_def votable_def sendable_def block_shares_ok_def Block_ok_def)

lemma pull_for_client:
  assumes "flexlib_spec L" and "server_wf s" and "visits_all ord" and "map_of (clients s) (ucast i) = Some cp"
    and "\<forall>b \<in> set (heap s). checkable V b"
  shows "\<exists>s' hs. PullPendingBlocks L ord clk i s = (None, (s', map (BlockHeader_to_bytes L) hs))
    \<and> server_wf s' \<and> (\<forall>b \<in> set (heap s'). checkable V b)
    \<and> hdr_id ` set hs = unseen s cp \<and> hdr_id ` set hs \<subseteq> dom (map_of (pending_blks s'))"
proof -
  let ?ps = "offered s cp (ord (pending_blks s))" and ?hs = "map (\<lambda>(k, a). header (heap s ! a)) (offered s cp (ord (pending_blks s)))"
  obtain s' where run: "PullPendingBlocks L ord clk i s =
      (None, (s', map (\<lambda>(k, a). BlockHeader_to_bytes L (header (heap s ! a))) ?ps))"
    and s': "server_wf s'" "pending_blks s' = pending_blks s"
    using PullPendingBlocks_run [OF assms(2-4), of L clk] by (elim exE conjE)
  note offer = offered_facts [OF assms(2,3), where s' = s and cp = cp]
  have "hdr_id (case p of (k, a) \<Rightarrow> header (heap s ! a)) = fst p" if "p \<in> set ?ps" for p
    using that offer(1) [of "fst p" "snd p"] server_wf_pending [OF assms(2), of "fst p" "snd p"] by (simp add: case_prod_beta)
  then have ids: "hdr_id ` set ?hs = fst ` set ?ps" by (simp add: image_image cong: image_cong)
  have "\<forall>b \<in> set (heap (fst (snd (PullPendingBlocks L ord clk i s)))). checkable V b"
    by (rule pull_heap_all [OF _ assms(5)]) (simp add: checkable_def sendable_def block_shares_ok_def Block_ok_def)
  then have "\<forall>b \<in> set (heap s'). checkable V b" unfolding run by simp
  moreover have "map (\<lambda>(k, a). BlockHeader_to_bytes L (header (heap s ! a))) ?ps = map (BlockHeader_to_bytes L) ?hs"
    by (simp add: case_prod_beta)
  moreover have "hdr_id ` set ?hs \<subseteq> dom (map_of (pending_blks s'))" unfolding ids offer(2) s'(2) by blast
  ultimately show ?thesis
    using run s'(1) ids offer(2) by (intro exI [of _ s'] exI [of _ ?hs]) simp
qed

text \<open>
  A client that has registered has its buffers and its key share.
  \<open>holds_block V k i c\<close>: the client numbered \<open>i\<close> has queued block \<open>k\<close>, for which it has not voted.
\<close>

definition client_ready :: "('ss, 'o, 'd) votelib \<Rightarrow> 'd client \<Rightarrow> bool" where
  "client_ready V c \<longleftrightarrow> buffers_ok c \<and> int (unat (cli_id c)) \<le> INT_MAX \<and>
     (case cli_tss_key c of None \<Rightarrow> False | Some key \<Rightarrow> signs V (fst key) (cli_id c))"

definition holds_block :: "('ss, 'o, 'd) votelib \<Rightarrow> u64 \<Rightarrow> u32 \<Rightarrow> 'd client \<Rightarrow> bool" where
  "holds_block V k i c \<longleftrightarrow> client_ready V c \<and> cli_id c = ucast i \<and>
     (case cli_pending_blks c of [b] \<Rightarrow> votable V b \<and> block_id b = k \<and> map_of (votes b) (ucast i) = None | _ \<Rightarrow> False)"

lemma ready_votes:
  assumes "client_ready V c" and "\<forall>b \<in> set (cli_pending_blks c). votable V b"
  shows "\<exists>c' vbs key. TcClient_VoteBlocks V L c = (None, c') \<and> cli_pending_blks c' = [] \<and> client_ready V c'
    \<and> cli_pending_blkhdr c' = cli_pending_blkhdr c
    \<and> cli_tss_key c = Some key \<and> list_all2 (voted_copy V (fst key) (cli_id c)) (cli_pending_blks c) vbs
    \<and> cli_requests c' = cli_requests c @ vote_requests L (cli_id c) vbs"
proof -
  obtain key where key: "cli_tss_key c = Some key" "signs V (fst key) (cli_id c)"
    and b: "buffers_ok c" "int (unat (cli_id c)) \<le> INT_MAX"
    using assms(1) by (auto simp: client_ready_def split: option.splits)
  from VoteBlocks_loop [OF b(1) key(2,1) b(2) assms(2), of L] key b(2) show ?thesis
    by (fastforce simp: client_ready_def)
qed

lemma client_ballot:
  assumes "holds_block V k i c"
  shows "\<exists>c' v vb. TcClient_VoteBlocks V L c = (None, c') \<and> cli_pending_blks c' = []
    \<and> cli_requests c' = cli_requests c @ [(0, VoteBlocksRequest i [Block_to_bytes L vb]), (1, VoteBlocksRequest i [Block_to_bytes L vb])]
    \<and> ballot (vl_bls V) k i v vb \<and> vote_ok (vl_bls V) v \<and> vote_block_id v = k \<and> vote_voter_id v = ucast i
    \<and> vote_sig_share v \<noteq> None \<and> int (unat i) \<le> INT_MAX"
proof -
  obtain b where c: "cli_id c = ucast i" "client_ready V c" and q: "cli_pending_blks c = [b]"
    and b: "votable V b" "block_id b = k" "map_of (votes b) (ucast i) = None"
    using assms by (auto simp: holds_block_def split: list.splits)
  have "\<forall>x \<in> set (cli_pending_blks c). votable V x" using q b(1) by simp
  from ready_votes [OF c(2) this, of L] obtain c' vbs key where c': "TcClient_VoteBlocks V L c = (None, c')"
    "cli_pending_blks c' = []" "cli_tss_key c = Some key" "list_all2 (voted_copy V (fst key) (cli_id c)) [b] vbs"
    "cli_requests c' = cli_requests c @ vote_requests L (cli_id c) vbs"
    unfolding q by (elim exE conjE)
  obtain vb where vb: "vbs = [vb]" "voted_copy V (fst key) (ucast i) b vb" using c'(4) c(1) by (auto simp: list_all2_Cons1)
  have same: "ucast (ucast i :: u64) = i"
    by (simp add: unsigned_ucast_eq take_bit_word_eq_self)
  obtain v where v: "ballot (vl_bls V) k i v vb" "vote_ok (vl_bls V) v" "signed_vote V (fst key) (ucast i) b v"
    using vb(2) b(2,3) by (auto simp: voted_copy_def same)
  moreover have "vote_block_id v = k \<and> vote_voter_id v = ucast i \<and> vote_sig_share v \<noteq> None"
    using v(3) b(2) by (auto simp: signed_vote_def)
  moreover have "int (unat i) \<le> INT_MAX" using c by (simp add: client_ready_def unat_client_id)
  ultimately show ?thesis using c' by (intro exI [of _ c'] exI [of _ v] exI [of _ vb]) (simp add: vb(1) c(1) same)
qed

subsection \<open>A sample client\<close>

definition ref_sign :: signlib where
  "ref_sign =
     \<lparr>sl_sk_of_string = (\<lambda>bs t n. if bs = [] then Inl LibError else Inr \<lparr>sk_share = unat (hd bs), sk_t = t, sk_n = n\<rparr>),
      sl_sign = (\<lambda>sk h i. Inr \<lparr>ss_point = replicate 96 7, ss_hint = ''h'', ss_signer_index = i, ss_t = sk_t sk, ss_n = sk_n sk\<rparr>)\<rparr>"

definition ref_db :: "(string \<rightharpoonup> string) rocksdb" where
  "ref_db = \<lparr>rdb_get = (\<lambda>d k old. case d k of None \<Rightarrow> old | Some v \<Rightarrow> v), rdb_put = (\<lambda>k v d. d(k \<mapsto> v))\<rparr>"

definition ref_vote :: "(u64 \<times> BLSSigShare list, fval, string \<rightharpoonup> string) votelib" where
  "ref_vote = \<lparr>vl_bls = ref_bls, vl_sigstr = ref_sigstr, vl_msgpack = ref_msgpack, vl_sha = (\<lambda>x. take 32 x),
     vl_sign = ref_sign, vl_db = ref_db\<rparr>"

definition sample_cc :: client_conf where
  "sample_cc = \<lparr>cc_client_id = 1, cc_client_count = 2, cc_account_count = 3, cc_clear_rocksdb = ''false'',
     cc_grpc_server_count = 2, cc_grpc_server_port = 2510, cc_grpc_server_ip = ''localhost''\<rparr>"

definition started_client :: "(string \<rightharpoonup> string) client" where
  "started_client = snd (TcClient_init ref_db sample_cc [9] True Map.empty)"

definition keyed_client :: "(string \<rightharpoonup> string) client" where
  "keyed_client = started_client\<lparr>cli_tss_key := Some (cl_tss_key sample_client)\<rparr>"

lemma init_client:
  "cc_clear_rocksdb cc \<noteq> ''true'' \<Longrightarrow> \<exists>c. TcClient_init D cc pkey True db = (None, c) \<and> buffers_ok c \<and> cli_db c = db
     \<and> cli_id c = cc_client_id cc \<and> cli_pending_blks c = [] \<and> cli_pending_blkhdr c = [] \<and> cli_requests c = []"
  by (simp add: TcClient_init_def buffers_ok_def)

lemma keyed_client_ready: "client_ready ref_vote keyed_client"
  by (simp add: client_ready_def keyed_client_def started_client_def TcClient_init_def sample_cc_def buffers_ok_def
      sample_client_def signs_def ref_vote_def ref_sign_def share_ok_def ref_bls_def INT_MAX_def)

subsection \<open>Properties\<close>

text \<open>
  The primary server and the shadow server that a client chooses exist: their numbers are
  between 1 and the number of servers, the shadow is the successor of the primary in the
  ring, and the two differ unless there is one server only.
\<close>

theorem client_servers_valid:
  assumes "cc_grpc_server_count cc \<noteq> 0" and "cc_grpc_server_count cc \<noteq> - 1"
  shows "\<exists>p q. server_select cc = Inr p \<and> shadow_server_select cc = Inr q
    \<and> p \<in> {1..cc_grpc_server_count cc} \<and> q \<in> {1..cc_grpc_server_count cc}
    \<and> q = next_server (cc_grpc_server_count cc) p \<and> (p = q \<longleftrightarrow> cc_grpc_server_count cc = 1)"
proof -
  let ?n = "cc_grpc_server_count cc" and ?i = "ucast (cc_client_id cc) - 1 :: u32"
  define p where "p = ?i mod ?n + 1"
  have p: "1 \<le> p" "p \<le> ?n" unfolding p_def by (rule mod_Suc_range [OF assms(1)])+
  note q = next_server_range [OF p assms(2)]
  have sel: "server_select cc = Inr p" using assms(1) by (simp add: server_select_def p_def)
  have two: "?i mod ?n + 2 = p + 1" by (simp add: p_def)
  have "shadow_server_select cc = Inr (if p + 1 > ?n then 1 else p + 1)"
    using assms(1) unfolding shadow_server_select_def Let_def two by simp
  then have "shadow_server_select cc = Inr (next_server ?n p)" unfolding q(3) .
  moreover have "p = next_server ?n p \<longleftrightarrow> ?n = 1" unfolding q(4) [symmetric] by (rule eq_commute)
  ultimately show ?thesis
    using sel p q(1,2) by (intro exI [of _ p] exI [of _ "next_server ?n p"]) (simp only: atLeastAtMost_iff simp_thms)
qed

theorem client_servers_valid_witness:
  "\<exists>p q. server_select sample_cc = Inr p \<and> shadow_server_select sample_cc = Inr q \<and> p \<in> {1..2} \<and> q \<in> {1..2} \<and> p \<noteq> q"
  using client_servers_valid [of sample_cc] by (auto simp: sample_cc_def)

text \<open>
  C32: registration hands the client its key pair. When the server's profile holds the keys
  made at start-up from the DKG share, the client's answer to the response of \<open>Register\<close> is to
  store the same secret and public share. When the call fails the response is empty,
  reading the key raises, and the client is left without a key.
\<close>

theorem client_registered:
  assumes "mk_client K (cc_client_count cc) shares j = Inr cp0" and "key_spec K S (cc_client_count cc) (shares ! j)"
    and "map_of (clients s) (ucast (ucast (cli_id c) :: u32)) = Some cp" and "cl_tss_key cp = cl_tss_key cp0"
    and "kl_mk_pubkey K (cli_ecc_pkey c) = Inr pkey" and "i < 2"
    and "sl_sk_of_string S [] (cc_client_count cc) (cc_client_count cc) = Inl e"
  shows "\<exists>rr s' c'. Register K (ucast (cli_id c)) (cli_ecc_pkey c) s = (Inr rr, s')
    \<and> TcClient_Register K S cc (rr_tss_sk rr) i c = (None, c') \<and> cli_tss_key c' = Some (cl_tss_key cp)
    \<and> cli_requests c' = cli_requests c @ [(i, RegisterRequest (ucast (cli_id c)) (cli_ecc_pkey c))]
    \<and> fst (TcClient_Register K S cc [] i c) = Some e \<and> cli_tss_key (snd (TcClient_Register K S cc [] i c)) = cli_tss_key c"
proof -
  let ?n = "cc_client_count cc"
  obtain sk pk where k: "kl_mk_sk K (shares ! j) ?n ?n = Inr sk" "kl_mk_pk K (shares ! j) ?n ?n = Inr pk"
    "cl_tss_key cp0 = (sk, pk)"
    using assms(1) by (auto simp: mk_client_def bindr_def split: if_splits sum.splits)
  then have "sk_share sk = shares ! j" "sl_sk_of_string S (kl_sk_string K sk) ?n ?n = Inr sk"
    using assms(2) by (simp_all add: key_spec_def)
  with k assms(3-7) show ?thesis
    by (simp add: Register_def TcClient_Register_def call_stub_def Let_def)
qed

theorem client_registered_witness:
  "\<exists>rr s' c'. Register sample_keys 1 [9] vote_server = (Inr rr, s')
     \<and> TcClient_Register sample_keys ref_sign sample_cc (rr_tss_sk rr) 0 started_client = (None, c')
     \<and> cli_tss_key c' = Some (cl_tss_key sample_client)"
proof -
  have 1: "mk_client sample_keys (cc_client_count sample_cc) [5] 0 = Inr sample_client"
    by (simp add: mk_client_def sample_keys_def sample_cc_def sample_client_def)
  have 2: "key_spec sample_keys ref_sign (cc_client_count sample_cc) ([5] ! 0)"
    by (simp add: key_spec_def sample_keys_def ref_sign_def)
  have c: "cli_id started_client = 1" "cli_ecc_pkey started_client = [9]"
    by (simp_all add: started_client_def TcClient_init_def sample_cc_def)
  have 3: "map_of (clients vote_server) (ucast (ucast (cli_id started_client) :: u32)) = Some sample_client"
    by (simp add: vote_server_def c)
  have 4: "kl_mk_pubkey sample_keys (cli_ecc_pkey started_client) = Inr [9]" by (simp add: sample_keys_def c)
  have 5: "sl_sk_of_string ref_sign [] (cc_client_count sample_cc) (cc_client_count sample_cc) = Inl LibError"
    by (simp add: ref_sign_def)
  have "(0 :: nat) < 2" by simp
  from client_registered [OF 1 2 3 refl 4 this 5] show ?thesis by (simp add: c) blast
qed

text \<open>
  C33: \<open>VoteBlocks\<close> of the client ends with an empty queue, and both servers are sent one
  ballot for every block that was queued, in order: the block without its transactions,
  with the client's vote, which signs the hash of the block as received.
\<close>

theorem client_votes_all:
  assumes "client_ready V c" and "\<forall>b \<in> set (cli_pending_blks c). votable V b"
  shows "\<exists>c' vbs key. TcClient_VoteBlocks V L c = (None, c') \<and> cli_pending_blks c' = [] \<and> client_ready V c'
    \<and> cli_tss_key c = Some key \<and> list_all2 (voted_copy V (fst key) (cli_id c)) (cli_pending_blks c) vbs
    \<and> cli_requests c' = cli_requests c @ vote_requests L (cli_id c) vbs"
  using ready_votes [OF assms, of L] by (elim exE conjE) (intro exI conjI)

theorem client_votes_all_witness:
  "\<exists>c' vb v. TcClient_VoteBlocks ref_vote ref_flex (keyed_client\<lparr>cli_pending_blks := [mk_Block 7 0 0]\<rparr>) = (None, c')
     \<and> cli_pending_blks c' = [] \<and> ballot ref_bls 7 1 v vb
     \<and> cli_requests c' = [(0, VoteBlocksRequest 1 [Block_to_bytes ref_flex vb]), (1, VoteBlocksRequest 1 [Block_to_bytes ref_flex vb])]"
proof -
  let ?c = "keyed_client\<lparr>cli_pending_blks := [mk_Block 7 0 0]\<rparr>"
  have "client_ready ref_vote ?c" using keyed_client_ready by (auto simp: client_ready_def buffers_ok_def split: option.splits)
  moreover have "\<forall>b \<in> set (cli_pending_blks ?c). votable ref_vote b"
    by (simp add: votable_def sendable_def block_shares_ok_def Block_ok_def entity_defs)
  ultimately obtain c' vbs key where
    c': "TcClient_VoteBlocks ref_vote ref_flex ?c = (None, c')" "cli_pending_blks c' = []"
    "list_all2 (voted_copy ref_vote (fst key) (cli_id ?c)) [mk_Block 7 0 0] vbs"
    "cli_requests c' = cli_requests ?c @ vote_requests ref_flex (cli_id ?c) vbs"
    using client_votes_all [of ref_vote ?c ref_flex] by auto
  have c: "cli_id ?c = 1" "cli_requests ?c = []" "vl_bls ref_vote = ref_bls" "block_id (mk_Block 7 0 0) = 7"
    by (simp_all add: keyed_client_def started_client_def TcClient_init_def sample_cc_def ref_vote_def entity_defs)
  obtain vb where "vbs = [vb]" using c'(3) by (auto simp: list_all2_Cons1)
  with c' c show ?thesis by (auto simp: voted_copy_def)
qed

text \<open>
  C34: what the check of transactions does. A client that has been started reads and writes
  the entry of the empty key only, whatever the accounts of the transactions are, since the
  strings that should hold the account numbers have size zero; a block of more than 2000
  transactions raises \<open>std::out_of_range\<close>.
\<close>

theorem check_tx_empty_key:
  assumes "cc_clear_rocksdb cc \<noteq> ''true''"
  shows "\<exists>c. TcClient_init D cc pkey True db = (None, c)
    \<and> (2000 < length txs \<longrightarrow> check_tx D txs c = (Some OutOfRange, c))
    \<and> (length txs \<le> 2000 \<longrightarrow> (\<exists>c' vs. check_tx D txs c = (None, c') \<and> buffers_ok c'
        \<and> cli_db c' = fold (rdb_put D []) vs db \<and> length vs = 2 * length txs))"
proof -
  obtain c where c: "TcClient_init D cc pkey True db = (None, c)" "buffers_ok c" "cli_db c = db"
    using init_client [OF assms, of D pkey db] by (elim exE conjE)
  show ?thesis using c(1) check_tx_run [OF c(2), of txs D] c(3) by (intro exI [of _ c]) blast
qed

theorem check_tx_empty_key_witness:
  "\<exists>c c'. TcClient_init ref_db sample_cc [9] True [''1'' \<mapsto> ''10''] = (None, c)
     \<and> check_tx ref_db [mk_Transaction 1 1 2 0 5] c = (None, c')
     \<and> cli_db c' ''1'' = Some ''10'' \<and> cli_db c' ''2'' = None \<and> cli_db c' [] \<noteq> None"
proof -
  have "cc_clear_rocksdb sample_cc \<noteq> ''true''" by (simp add: sample_cc_def)
  from check_tx_empty_key [OF this, of ref_db "[9]" "[''1'' \<mapsto> ''10'']" "[mk_Transaction 1 1 2 0 5]"]
  obtain c c' vs where c: "TcClient_init ref_db sample_cc [9] True [''1'' \<mapsto> ''10''] = (None, c)"
    "check_tx ref_db [mk_Transaction 1 1 2 0 5] c = (None, c')"
    "cli_db c' = fold (rdb_put ref_db []) vs [''1'' \<mapsto> ''10'']" "length vs = 2" by auto
  obtain v w where "vs = [v, w]" using c(4) by (cases vs rule: remdups_adj.cases) auto
  with c show ?thesis by (auto simp: ref_db_def)
qed

text \<open>
  C35: one round of a client with its two servers. The client pulls headers from both, gets the
  blocks and votes; then both servers are sent exactly one ballot for each block that
  one of them had pending, signalled and not yet shown to this client, and nothing
  is left in the client's queues.
\<close>

theorem client_round_votes:
  assumes "flexlib_spec L" and "client_ready V c" and "cli_pending_blks c = []" and "cli_pending_blkhdr c = []"
    and "server_wf s0" and "map_of (clients s0) (ucast (ucast (cli_id c) :: u32)) = Some p0" and "\<forall>b \<in> set (heap s0). checkable V b"
    and "server_wf s1" and "map_of (clients s1) (ucast (ucast (cli_id c) :: u32)) = Some p1" and "\<forall>b \<in> set (heap s1). checkable V b"
    and "visits_all ord" and "visits_all ord0" and "visits_all ord1"
  shows "\<exists>s0' h0 s1' h1 c1 c2 reqs vbs.
      PullPendingBlocks L ord0 clk0 (ucast (cli_id c)) s0 = (None, (s0', h0))
    \<and> PullPendingBlocks L ord1 clk1 (ucast (cli_id c)) s1 = (None, (s1', h1))
    \<and> client_pull_round (vl_bls V) L ord h0 h1 (served L s0') (served L s1') c = (None, c1)
    \<and> client_vote_round V L c1 = (None, c2) \<and> cli_pending_blks c2 = [] \<and> cli_pending_blkhdr c2 = []
    \<and> cli_requests c2 = cli_requests c @ reqs @ vote_requests L (cli_id c) vbs \<and> length reqs = 4
    \<and> distinct (map block_id vbs) \<and> set (map block_id vbs) = unseen s0 p0 \<union> unseen s1 p1
    \<and> (\<forall>vb \<in> set vbs. \<exists>v. ballot (vl_bls V) (block_id vb) (ucast (cli_id c)) v vb)"
proof -
  obtain s0' hs0 where 0: "PullPendingBlocks L ord0 clk0 (ucast (cli_id c)) s0 = (None, (s0', map (BlockHeader_to_bytes L) hs0))"
    "server_wf s0'" "\<forall>b \<in> set (heap s0'). checkable V b" "hdr_id ` set hs0 = unseen s0 p0"
    "hdr_id ` set hs0 \<subseteq> dom (map_of (pending_blks s0'))"
    using pull_for_client [OF assms(1,5,12,6,7), of clk0] by (elim exE conjE)
  obtain s1' hs1 where 1: "PullPendingBlocks L ord1 clk1 (ucast (cli_id c)) s1 = (None, (s1', map (BlockHeader_to_bytes L) hs1))"
    "server_wf s1'" "\<forall>b \<in> set (heap s1'). checkable V b" "hdr_id ` set hs1 = unseen s1 p1"
    "hdr_id ` set hs1 \<subseteq> dom (map_of (pending_blks s1'))"
    using pull_for_client [OF assms(1,8,13,9,10), of clk1] by (elim exE conjE)
  have "\<forall>b \<in> set (heap s0') \<union> set (heap s1'). sendable (vl_bls V) b" using 0(3) 1(3) by (auto simp: checkable_def)
  from pull_round_run [OF assms(1) 0(2) 1(2) this assms(11,4) 0(5) 1(5)] obtain bs reqs where
    run: "client_pull_round (vl_bls V) L ord (map (BlockHeader_to_bytes L) hs0) (map (BlockHeader_to_bytes L) hs1)
      (served L s0') (served L s1') c = (None, c\<lparr>cli_pending_blks := cli_pending_blks c @ bs, cli_requests := cli_requests c @ reqs\<rparr>)"
    and bs: "length reqs = 4" "distinct (map block_id bs)" "set (map block_id bs) = unseen s0 p0 \<union> unseen s1 p1"
      "\<forall>b \<in> set bs. \<exists>b' \<in> set (heap s0') \<union> set (heap s1'). b = b'\<lparr>tss_sig := None\<rparr>"
    unfolding 0(4) 1(4) by (elim exE conjE)
  let ?c1 = "c\<lparr>cli_pending_blks := bs, cli_requests := cli_requests c @ reqs\<rparr>"
  have ready: "client_ready V ?c1" using assms(2) by (auto simp: client_ready_def buffers_ok_def split: option.splits)
  have vot: "\<forall>b \<in> set (cli_pending_blks ?c1). votable V b"
  proof
    fix b assume "b \<in> set (cli_pending_blks ?c1)"
    then obtain b' where "b' \<in> set (heap s0') \<union> set (heap s1')" "b = b'\<lparr>tss_sig := None\<rparr>" using bs(4) by auto
    with 0(3) 1(3) show "votable V b" by (auto intro: checkable_votable)
  qed
  obtain c2 vbs key where c2: "TcClient_VoteBlocks V L ?c1 = (None, c2)" "cli_pending_blks c2 = []"
    "cli_pending_blkhdr c2 = cli_pending_blkhdr ?c1" "cli_tss_key ?c1 = Some key"
    "list_all2 (voted_copy V (fst key) (cli_id ?c1)) (cli_pending_blks ?c1) vbs"
    "cli_requests c2 = cli_requests ?c1 @ vote_requests L (cli_id ?c1) vbs"
    using ready_votes [OF ready vot, of L] by (elim exE conjE)
  have vbs: "list_all2 (voted_copy V (fst key) (cli_id c)) bs vbs" using c2(5) by simp
  then have ids: "map block_id vbs = map block_id bs"
    by (induction rule: list_all2_induct) (simp_all add: voted_copy_def)
  have "\<exists>v. ballot (vl_bls V) (block_id vb) (ucast (cli_id c)) v vb" if "vb \<in> set vbs" for vb
    using that vbs by (auto simp: list_all2_conv_all_nth in_set_conv_nth voted_copy_def) metis
  then show ?thesis
    using 0(1) 1(1) run c2 bs(1-3) assms(3,4) ids
    by (intro exI [of _ s0'] exI [of _ "map (BlockHeader_to_bytes L) hs0"] exI [of _ s1']
        exI [of _ "map (BlockHeader_to_bytes L) hs1"] exI [of _ ?c1] exI [of _ c2] exI [of _ reqs] exI [of _ vbs])
      (simp add: client_vote_round_def)
qed

theorem client_round_votes_witness:
  "\<exists>s0' h0 s1' h1 c1 c2 vb v. PullPendingBlocks ref_flex id (\<lambda>k. 5) 1 vote_server = (None, (s0', h0))
     \<and> PullPendingBlocks ref_flex rev (\<lambda>k. 6) 1 vote_server = (None, (s1', h1))
     \<and> client_pull_round ref_bls ref_flex id h0 h1 (served ref_flex s0') (served ref_flex s1') keyed_client = (None, c1)
     \<and> client_vote_round ref_vote ref_flex c1 = (None, c2) \<and> length (cli_requests c2) = 6 \<and> ballot ref_bls 7 1 v vb
     \<and> (0, vote_request ref_flex 1 vb) \<in> set (cli_requests c2) \<and> (1, vote_request ref_flex 1 vb) \<in> set (cli_requests c2)"
proof -
  have c: "cli_id keyed_client = 1" "cli_pending_blks keyed_client = []" "cli_pending_blkhdr keyed_client = []"
    "cli_requests keyed_client = []" "vl_bls ref_vote = ref_bls"
    by (simp_all add: keyed_client_def started_client_def TcClient_init_def sample_cc_def ref_vote_def)
  have cl: "map_of (clients vote_server) (ucast (ucast (cli_id keyed_client) :: u32)) = Some sample_client"
    by (simp add: vote_server_def c)
  have heap: "\<forall>b \<in> set (heap vote_server). checkable ref_vote b"
    by (simp add: vote_server_def checkable_def sendable_def block_shares_ok_def Block_ok_def entity_defs)
  have seven: "unseen vote_server sample_client = {7}" by (auto simp: vote_server_def sample_client_def)
  obtain s0' h0 s1' h1 c1 c2 reqs vbs where
    r: "PullPendingBlocks ref_flex id (\<lambda>k. 5) 1 vote_server = (None, (s0', h0))"
      "PullPendingBlocks ref_flex rev (\<lambda>k. 6) 1 vote_server = (None, (s1', h1))"
      "client_pull_round ref_bls ref_flex id h0 h1 (served ref_flex s0') (served ref_flex s1') keyed_client = (None, c1)"
      "client_vote_round ref_vote ref_flex c1 = (None, c2)"
    and req: "cli_requests c2 = reqs @ vote_requests ref_flex 1 vbs" "length reqs = 4"
    and vbs: "distinct (map block_id vbs)" "set (map block_id vbs) = {7}"
      "\<forall>vb \<in> set vbs. \<exists>v. ballot ref_bls (block_id vb) 1 v vb"
    using client_round_votes [OF ref_flex_spec keyed_client_ready c(2,3) vote_server_wf cl heap vote_server_wf cl heap
        visits_all_id visits_all_id visits_all_rev, of "\<lambda>k. 5" "\<lambda>k. 6"]
    unfolding c seven by (auto simp: c)
  have "length vbs = 1" using vbs(1,2) by (metis distinct_card length_map card.empty card_insert_disjoint finite.emptyI empty_iff One_nat_def)
  then obtain vb where "vbs = [vb]" by (cases vbs) auto
  with r req vbs show ?thesis by auto
qed

end
