(* ===== verification/TC_System.thy ===== *)
theory TC_System
  imports TC_Attest TC_Client
begin

text \<open>
  The whole system: the threads of all servers and the clients \<open>1\<close> to \<open>n\<close>, every client running the
  code of \<open>TC_Client\<close>. The servers take only ballots that one of these clients has sent to them; all other
  calls and the timers are as in \<open>TC_Threads\<close>. What a client receives is what a server has answered:
  \<open>sys_keys\<close> and \<open>sys_blocks\<close> record the answers of \<open>Register\<close> and \<open>GetBlocks\<close>, of which a
  client may receive any, at any later time. The threads of a client are interleaved block by block.

  A vote is \<open>genuine\<close> when the client it names has signed, with the share that its first server made for it, a
  copy of a packed block. In every state of the system all votes are genuine;
  what follows for committed blocks is the subject of \<open>TC_Liveness\<close>.
\<close>

subsection \<open>State and steps\<close>

record 'd system =
  sys_m :: machine
  sys_clients :: "u64 \<Rightarrow> 'd client"
  sys_keys :: "(u64 \<times> u32 \<times> bytes) list"
  sys_blocks :: "(u64 \<times> bytes) list"

text \<open>The number of the server behind a stub of a client.\<close>

definition stub_server :: "client_conf \<Rightarrow> nat \<Rightarrow> u64 option" where
  "stub_server cc stub =
     (case (if stub = 0 then server_select cc else shadow_server_select cc) of Inl e \<Rightarrow> None | Inr i \<Rightarrow> Some (ucast i))"

abbreviation client_conf_of :: "client_conf \<Rightarrow> u64 \<Rightarrow> client_conf" where
  "client_conf_of cc j \<equiv> conf_with_id (ucast j) cc"

definition sys_initial ::
  "('ss, 'o, 'd) votelib \<Rightarrow> keylib \<Rightarrow> conf \<Rightarrow> client_conf \<Rightarrow> (u64 \<Rightarrow> bytes) \<Rightarrow> (u64 \<Rightarrow> 'd) \<Rightarrow> 'd system" where
  "sys_initial V K C cc pkeys dbs =
     \<lparr>sys_m = \<lparr>m_net = initial K C, threads = []\<rparr>,
      sys_clients = (\<lambda>j. snd (TcClient_init (vl_db V) (client_conf_of cc j) (pkeys j) True (dbs j))),
      sys_keys = [], sys_blocks = []\<rparr>"

abbreviation client_ids :: "conf \<Rightarrow> u64 set" where
  "client_ids C \<equiv> {1..cf_client_count C}"

abbreviation sys_node :: "'d system \<Rightarrow> u64 \<Rightarrow> server" where
  "sys_node S i \<equiv> nodes (m_net (sys_m S)) i"

abbreviation start_thread :: "u64 \<Rightarrow> action list \<Rightarrow> 'd system \<Rightarrow> 'd system" where
  "start_thread i as S \<equiv> S\<lparr>sys_m := (sys_m S)\<lparr>threads := threads (sys_m S) @ [(i, as)]\<rparr>\<rparr>"

abbreviation set_client :: "u64 \<Rightarrow> 'd client \<Rightarrow> 'd system \<Rightarrow> 'd system" where
  "set_client j c S \<equiv> S\<lparr>sys_clients := (sys_clients S)(j := c)\<rparr>"

inductive sys_step ::
  "('ss, 'o, 'd) votelib \<Rightarrow> 'r flexlib \<Rightarrow> keylib \<Rightarrow> conf \<Rightarrow> client_conf \<Rightarrow> 'd system \<Rightarrow> 'd system \<Rightarrow> bool"
  for V :: "('ss, 'o, 'd) votelib" and L :: "'r flexlib" and K :: keylib and C :: conf and cc :: client_conf where
  thread: "mstep (vl_bls V) L K C (sys_m S) M \<Longrightarrow> length (threads M) \<le> length (threads (sys_m S)) \<Longrightarrow>
    sys_step V L K C cc S (S\<lparr>sys_m := M\<rparr>)"
| background: "spawns C (m_net (sys_m S)) i as \<Longrightarrow> \<forall>c bs. Client (VoteItem c bs) \<notin> set as \<Longrightarrow>
    sys_step V L K C cc S (start_thread i as S)"
| ballots: "j \<in> client_ids C \<Longrightarrow> (stub, VoteBlocksRequest c voted) \<in> set (cli_requests (sys_clients S j)) \<Longrightarrow>
    stub_server (client_conf_of cc j) stub = Some i \<Longrightarrow>
    sys_step V L K C cc S (start_thread i (map (Client \<circ> VoteItem c) voted) S)"
| register: "Register K c pkey (sys_node S i) = (Inr r, s') \<Longrightarrow>
    sys_step V L K C cc S (S\<lparr>sys_m := (sys_m S)\<lparr>m_net := set_node i s' (m_net (sys_m S))\<rparr>,
      sys_keys := sys_keys S @ [(i, c, rr_tss_sk r)]\<rparr>)"
| get: "GetBlocks L hdrs (sys_node S i) = Inr pbs \<Longrightarrow>
    sys_step V L K C cc S (S\<lparr>sys_blocks := sys_blocks S @ map (Pair i) pbs\<rparr>)"
| join: "j \<in> client_ids C \<Longrightarrow> stub_server (client_conf_of cc j) 0 = Some i \<Longrightarrow> (i, ucast j, sk) \<in> set (sys_keys S) \<Longrightarrow>
    sys_step V L K C cc S (set_client j (snd (TcClient_start K (vl_sign V) (client_conf_of cc j) sk (sys_clients S j))) S)"
| heartbeat: "j \<in> client_ids C \<Longrightarrow>
    sys_step V L K C cc S (set_client j (snd (client_heartbeat_round (sys_clients S j))) S)"
| pull: "j \<in> client_ids C \<Longrightarrow>
    sys_step V L K C cc S (set_client j (snd (TcClient_PullPendingBlocks L hdrs stub (sys_clients S j))) S)"
| fetch: "j \<in> client_ids C \<Longrightarrow> stub_server (client_conf_of cc j) stub = Some i \<Longrightarrow>
    \<forall>req. set (answer req) \<subseteq> {pb. (i, pb) \<in> set (sys_blocks S)} \<Longrightarrow>
    sys_step V L K C cc S (set_client j (snd (TcClient_GetBlocks (vl_bls V) L ord answer stub (sys_clients S j))) S)"
| vote: "j \<in> client_ids C \<Longrightarrow> cli_pending_blks (sys_clients S j) = b # q \<Longrightarrow>
    sys_step V L K C cc S (set_client j (snd (vote_block V L b ((sys_clients S j)\<lparr>cli_pending_blks := q\<rparr>))) S)"

abbreviation sys_steps where
  "sys_steps V L K C cc \<equiv> (sys_step V L K C cc)\<^sup>*\<^sup>*"

inductive sys_reachable ::
  "('ss, 'o, 'd) votelib \<Rightarrow> 'r flexlib \<Rightarrow> keylib \<Rightarrow> conf \<Rightarrow> client_conf \<Rightarrow> 'd system \<Rightarrow> bool"
  for V :: "('ss, 'o, 'd) votelib" and L :: "'r flexlib" and K :: keylib and C :: conf and cc :: client_conf where
  start: "sys_reachable V L K C cc (sys_initial V K C cc pkeys dbs)"
| step: "sys_reachable V L K C cc S \<Longrightarrow> sys_step V L K C cc S S' \<Longrightarrow> sys_reachable V L K C cc S'"

subsection \<open>Genuine votes\<close>

text \<open>The secret share that the first server of the client \<open>j\<close> made for it at start-up, as the client reads it.\<close>

definition issued :: "('ss, 'o, 'd) votelib \<Rightarrow> keylib \<Rightarrow> conf \<Rightarrow> client_conf \<Rightarrow> u64 \<Rightarrow> BLSPrivateKeyShare \<Rightarrow> bool" where
  "issued V K C cc j sk \<longleftrightarrow>
     (\<exists>i key. stub_server (client_conf_of cc j) 0 = Some i \<and> share_of (nodes (initial K C) i) j = Some key \<and>
        sl_sk_of_string (vl_sign V) (kl_sk_string K (fst key)) (cc_client_count cc) (cc_client_count cc) = Inr sk)"

definition genuine ::
  "('ss, 'o, 'd) votelib \<Rightarrow> keylib \<Rightarrow> conf \<Rightarrow> client_conf \<Rightarrow> (u64 \<times> u64 \<times> u64 \<times> Transaction list) set \<Rightarrow> voting" where
  "genuine V K C cc P k j v \<longleftrightarrow>
     j \<in> client_ids C \<and> vote_ok (vl_bls V) v \<and>
     (\<exists>b sk. core b \<in> P \<and> block_id b = k \<and> issued V K C cc j sk \<and> signed_vote V sk j b v)"

interpretation genuine: attestation "genuine V K C cc P" "vl_bls V" for V K C cc P
  by unfold_locales (auto simp: genuine_def signed_vote_def)

lemma genuine_mono: "P \<subseteq> Q \<Longrightarrow> \<forall>k j v. genuine V K C cc P k j v \<longrightarrow> genuine V K C cc Q k j v"
  by (fastforce simp: genuine_def)

text \<open>
  \<open>proper\<close>: a block with the contents of a packed block and genuine votes only.
\<close>

definition proper ::
  "('ss, 'o, 'd) votelib \<Rightarrow> keylib \<Rightarrow> conf \<Rightarrow> client_conf \<Rightarrow> (u64 \<times> u64 \<times> u64 \<times> Transaction list) set \<Rightarrow> Block \<Rightarrow> bool" where
  "proper V K C cc P b \<longleftrightarrow> core b \<in> P \<and> block_shares_ok (vl_bls V) b \<and> attested (genuine V K C cc P) b"

definition client_inv ::
  "('ss, 'o, 'd) votelib \<Rightarrow> 'r flexlib \<Rightarrow> keylib \<Rightarrow> conf \<Rightarrow> client_conf \<Rightarrow> (u64 \<times> u64 \<times> u64 \<times> Transaction list) set \<Rightarrow>
     u64 \<Rightarrow> 'd client \<Rightarrow> bool" where
  "client_inv V L K C cc P j c \<longleftrightarrow>
     cli_id c = j \<and> (\<forall>key. cli_tss_key c = Some key \<longrightarrow> issued V K C cc j (fst key)) \<and>
     (\<forall>b \<in> set (cli_pending_blks c). proper V K C cc P b) \<and>
     (\<forall>stub d voted. (stub, VoteBlocksRequest d voted) \<in> set (cli_requests c) \<longrightarrow>
        (\<forall>x \<in> set voted. attested_ballot (genuine V K C cc P) (vl_bls V) L d x))"

abbreviation sys_cores :: "'d system \<Rightarrow> (u64 \<times> u64 \<times> u64 \<times> Transaction list) set" where
  "sys_cores S \<equiv> core ` set (packed (m_net (sys_m S)))"

definition made_for :: "keylib \<Rightarrow> conf \<Rightarrow> u64 \<Rightarrow> u32 \<Rightarrow> bytes \<Rightarrow> bool" where
  "made_for K C i c str \<longleftrightarrow>
     (\<exists>key. share_of (nodes (initial K C) i) (ucast c) = Some key \<and> str = kl_sk_string K (fst key))"

definition sys_inv :: "('ss, 'o, 'd) votelib \<Rightarrow> 'r flexlib \<Rightarrow> keylib \<Rightarrow> conf \<Rightarrow> client_conf \<Rightarrow> 'd system \<Rightarrow> bool" where
  "sys_inv V L K C cc S \<longleftrightarrow>
     interleaved (vl_bls V) L K C (sys_m S) \<and>
     attested_machine (genuine V K C cc (sys_cores S)) (vl_bls V) L (sys_m S) \<and>
     (\<forall>j \<in> client_ids C. client_inv V L K C cc (sys_cores S) j (sys_clients S j)) \<and>
     (\<forall>(i, c, str) \<in> set (sys_keys S). made_for K C i c str) \<and>
     (\<forall>(i, pb) \<in> set (sys_blocks S). \<exists>b. pb = Block_to_bytes L b \<and> proper V K C cc (sys_cores S) b)"

lemma proper_mono:
  assumes "P \<subseteq> Q" and "proper V K C cc P b"
  shows "proper V K C cc Q b"
  using assms(2) attested_mono(1) [OF genuine_mono [OF assms(1)], of V K C cc b] subsetD [OF assms(1)]
  by (simp add: proper_def)

lemma client_inv_mono:
  assumes "P \<subseteq> Q" and "client_inv V L K C cc P j c"
  shows "client_inv V L K C cc Q j c"
proof -
  have "attested_ballot (genuine V K C cc Q) (vl_bls V) L d x"
    if "attested_ballot (genuine V K C cc P) (vl_bls V) L d x" for d x
    using genuine_mono [OF assms(1)] that by (rule attested_mono(5))
  then show ?thesis
    using assms(2) proper_mono [OF assms(1), of V K C cc] unfolding client_inv_def by blast
qed

subsection \<open>The clients\<close>

lemma call_stub_frame:
  "cli_id (snd (call_stub i req c)) = cli_id c" "cli_tss_key (snd (call_stub i req c)) = cli_tss_key c"
  "cli_pending_blks (snd (call_stub i req c)) = cli_pending_blks c"
  "set (cli_requests (snd (call_stub i req c))) \<subseteq> insert (i, req) (set (cli_requests c))"
  by (simp_all add: call_stub_def) auto

lemma check_tx_frame:
  "cli_id (snd (check_tx D txs c)) = cli_id c \<and> cli_tss_key (snd (check_tx D txs c)) = cli_tss_key c \<and>
   cli_pending_blks (snd (check_tx D txs c)) = cli_pending_blks c \<and> cli_requests (snd (check_tx D txs c)) = cli_requests c"
proof -
  let ?I = "\<lambda>c'. cli_id c' = cli_id c \<and> cli_tss_key c' = cli_tss_key c \<and> cli_pending_blks c' = cli_pending_blks c \<and>
    cli_requests c' = cli_requests c"
  have "?I (snd (foreach format_accounts ps c))" for ps
    by (rule foreach_invariant [where I = ?I]) (simp_all add: format_accounts_def Let_def split: prod.split)
  moreover have "?I (fold (touch_accounts D) is c')" if "?I c'" for "is" c'
    using that by (induction "is" arbitrary: c') (simp_all add: touch_accounts_def Let_def)
  ultimately show ?thesis
    by (auto simp: check_tx_def split: prod.split option.split) (metis snd_conv)+
qed

text \<open>A call whose request is not a ballot.\<close>

lemma client_inv_call:
  assumes "client_inv V L K C cc P j c" and "\<nexists>d voted. req = VoteBlocksRequest d voted"
  shows "client_inv V L K C cc P j (snd (call_stub i req c))"
  using assms call_stub_frame [of i req c] unfolding client_inv_def by (simp add: subset_iff) blast

lemma client_inv_frame:
  assumes "client_inv V L K C cc P j c" and "cli_id c' = cli_id c" and "cli_tss_key c' = cli_tss_key c"
    and "set (cli_pending_blks c') \<subseteq> set (cli_pending_blks c)" and "cli_requests c' = cli_requests c"
  shows "client_inv V L K C cc P j c'"
  using assms by (auto simp: client_inv_def)

lemma client_inv_heartbeat:
  "client_inv V L K C cc P j c \<Longrightarrow> client_inv V L K C cc P j (snd (client_heartbeat_round c))"
  unfolding client_heartbeat_round_def TcClient_Heartbeat_def by (rule client_inv_call) simp_all

lemma client_inv_pull:
  assumes "client_inv V L K C cc P j c"
  shows "client_inv V L K C cc P j (snd (TcClient_PullPendingBlocks L' hdrs stub c))"
proof -
  let ?c1 = "snd (call_stub stub (PullPendingBlocksRequest (ucast (cli_id c))) c)"
  have "client_inv V L K C cc P j ?c1" by (rule client_inv_call [OF assms]) simp
  from client_inv_frame [OF this] show ?thesis
    unfolding TcClient_PullPendingBlocks_def by (auto split: prod.split option.split)
qed

lemma client_inv_start:
  assumes inv: "client_inv V L K C cc P j c" and key: "stub_server (client_conf_of cc j) 0 = Some i"
    "share_of (nodes (initial K C) i) j = Some key" "str = kl_sk_string K (fst key)"
  shows "client_inv V L K C cc P j (snd (TcClient_start K (vl_sign V) (client_conf_of cc j) str c))"
proof -
  let ?n = "cc_client_count cc" and ?call = "call_stub 0 (RegisterRequest (ucast (cli_id c)) (cli_ecc_pkey c)) c"
  have n: "cc_client_count (client_conf_of cc j) = ?n" by (simp add: conf_with_id_def)
  have c1: "client_inv V L K C cc P j (snd ?call)" by (rule client_inv_call [OF inv]) simp
  have "client_inv V L K C cc P j ((snd ?call)\<lparr>cli_tss_key := Some (sk, pk)\<rparr>)"
    if "sl_sk_of_string (vl_sign V) str ?n ?n = Inr sk" for sk pk
  proof -
    have "issued V K C cc j sk" using key that unfolding issued_def by blast
    with c1 show ?thesis by (simp add: client_inv_def)
  qed
  with c1 show ?thesis
    unfolding TcClient_start_def TcClient_Register_def Let_def n
    by (auto simp: bindr_Inr_iff split: prod.split option.split sum.split)
qed

lemma client_inv_fetch:
  assumes spec: "flexlib_spec L" and inv: "client_inv V L K C cc P j c"
    and ans: "\<And>req x. x \<in> set (answer req) \<Longrightarrow> \<exists>b. x = Block_to_bytes L b \<and> proper V K C cc P b"
  shows "client_inv V L K C cc P j (snd (TcClient_GetBlocks (vl_bls V) L ord answer stub c))"
proof -
  let ?req = "map (\<lambda>(k, h). BlockHeader_to_bytes L h) (ord (cli_pending_blkhdr c))"
  have c1: "client_inv V L K C cc P j (snd (call_stub stub (GetBlocksRequest ?req) c))"
    by (rule client_inv_call [OF inv]) simp
  have "client_inv V L K C cc P j (snd (decode_each (Block_from_bytes (vl_bls V) L) got_block (answer ?req) c2))"
    if "client_inv V L K C cc P j c2" for c2
  proof (rule decode_each_invariant [where I = "client_inv V L K C cc P j", OF that])
    fix x b' c3
    assume x: "x \<in> set (answer ?req)" "Block_from_bytes (vl_bls V) L x = Inr b'" and c3: "client_inv V L K C cc P j c3"
    obtain b where b: "x = Block_to_bytes L b" "proper V K C cc P b" using ans [OF x(1)] by blast
    then have "b' = b\<lparr>tss_sig := None\<rparr>"
      using x(2) Block_roundtrip_cases [OF spec, of "vl_bls V" b] by (auto simp: proper_def split: if_splits)
    then have "proper V K C cc P b'" using b(2) by (simp add: proper_def)
    with c3 show "client_inv V L K C cc P j (snd (got_block b' c3))"
      by (auto simp: got_block_def client_inv_def push_def)
  qed
  with c1 show ?thesis
    unfolding TcClient_GetBlocks_def Let_def by (auto split: prod.split option.split)
qed

text \<open>What libBLS promises of signing: a share it makes can be written and read again.\<close>

definition sign_spec :: "('ss, 'o, 'd) votelib \<Rightarrow> bool" where
  "sign_spec V \<longleftrightarrow> (\<forall>sk h i sh. sl_sign (vl_sign V) sk h i = Inr sh \<longrightarrow> share_ok (vl_bls V) sh)"

lemma sign_block_proper:
  assumes "sign_spec V" and "proper V K C cc P b" and "j \<in> client_ids C" and "client_inv V L K C cc P j c"
    and sign: "sign_block V b c = Inr vb"
  shows "block_shares_ok (vl_bls V) vb \<and> attested (genuine V K C cc P) vb"
proof -
  have id: "cli_id c = j" using assms(4) by (simp add: client_inv_def)
  obtain h key sh where h: "get_sha256 (vl_bls V) (vl_sigstr V) (vl_msgpack V) (vl_sha V) b = Inr h"
    and key: "cli_tss_key c = Some key" and sh: "sl_sign (vl_sign V) (fst key) h j = Inr sh"
    and vb: "vb = Block_add_vote j \<lparr>vote_block_id = block_id b, vote_voter_id = j, vote_sig_share = Some sh\<rparr> (b\<lparr>tx_vec := []\<rparr>)"
    using sign unfolding sign_block_def id by (auto simp: bindr_Inr_iff split: option.splits)
  let ?v = "\<lparr>vote_block_id = block_id b, vote_voter_id = j, vote_sig_share = Some sh\<rparr>"
  have vok: "vote_ok (vl_bls V) ?v" using assms(1) sh by (simp add: vote_ok_def sign_spec_def)
  have "issued V K C cc j (fst key)" using assms(4) key by (simp add: client_inv_def)
  moreover have "signed_vote V (fst key) j b ?v" using h sh by (simp add: signed_vote_def)
  ultimately have gen: "genuine V K C cc P (block_id b) j ?v"
    using assms(2,3) vok unfolding genuine_def proper_def by blast
  have "block_shares_ok (vl_bls V) (b\<lparr>tx_vec := []\<rparr>)" "attested (genuine V K C cc P) (b\<lparr>tx_vec := []\<rparr>)"
    using assms(2) by (simp_all add: proper_def block_shares_ok_def Block_ok_def attested_def)
  then show ?thesis
    using gen vok unfolding vb by (intro conjI block_shares_ok_add_vote attested_add_vote) simp_all
qed

lemma client_inv_vote:
  assumes spec: "flexlib_spec L" "sign_spec V" and j: "j \<in> client_ids C" and inv: "client_inv V L K C cc P j c"
    and b: "cli_pending_blks c = b # q"
  shows "client_inv V L K C cc P j (snd (vote_block V L b (c\<lparr>cli_pending_blks := q\<rparr>)))"
proof -
  let ?A = "genuine V K C cc P"
  have pb: "proper V K C cc P b" using inv b by (simp add: client_inv_def)
  obtain r c1 where c1: "check_tx (vl_db V) (tx_vec b) (c\<lparr>cli_pending_blks := q\<rparr>) = (r, c1)" by fastforce
  have "client_inv V L K C cc P j (c\<lparr>cli_pending_blks := q\<rparr>)" by (rule client_inv_frame [OF inv]) (auto simp: b)
  then have inv1: "client_inv V L K C cc P j c1"
    by (rule client_inv_frame) (use check_tx_frame [of "vl_db V" "tx_vec b" "c\<lparr>cli_pending_blks := q\<rparr>"] c1 in auto)
  have "client_inv V L K C cc P j
      (snd (foreach (\<lambda>i. call_stub i (VoteBlocksRequest (ucast (cli_id c1)) [Block_to_bytes L vb])) [0, 1] c1))"
    if "sign_block V b c1 = Inr vb" for vb
  proof (rule foreach_invariant [where I = "client_inv V L K C cc P j", OF inv1])
    have "attested_bytes ?A (vl_bls V) L (Block_to_bytes L vb)"
      using sign_block_proper [OF spec(2) pb j inv1 that] by (intro attested_written [OF spec(1)]) simp_all
    then have "attested_ballot ?A (vl_bls V) L d (Block_to_bytes L vb)" for d
      by (fastforce simp: attested_ballot_def attested_bytes_def attested_def dest: map_of_SomeD)
    then show "client_inv V L K C cc P j (snd (call_stub i (VoteBlocksRequest (ucast (cli_id c1)) [Block_to_bytes L vb]) c2))"
      if "client_inv V L K C cc P j c2" for i c2
      using that call_stub_frame [of i "VoteBlocksRequest (ucast (cli_id c1)) [Block_to_bytes L vb]" c2]
      by (fastforce simp: client_inv_def)
  qed
  with inv1 show ?thesis
    by (auto simp: vote_block_def c1 simp del: foreach.simps split: option.split sum.split)
qed

subsection \<open>The invariant of the system\<close>

text \<open>Client numbers are 32 bits wide on the wire.\<close>

lemma client_id_fits:
  assumes "unat (cf_client_count C) < 2 ^ 32" and "j \<in> client_ids C"
  shows "ucast (ucast j :: u32) = j" and "cc_client_id (client_conf_of cc j) = j"
proof -
  have "unat j \<le> unat (cf_client_count C)" and "j \<noteq> 0" using assms(2) by (auto simp: word_le_nat_alt)
  then have "unat j < 2 ^ 32" using assms(1) by linarith
  then have "unat (ucast j :: u32) = unat j" by (simp add: unsigned_ucast_eq take_bit_nat_eq_self)
  then show "ucast (ucast j :: u32) = j" by (simp add: word_unat_eq_iff unat_client_id)
  then show "cc_client_id (client_conf_of cc j) = j" using \<open>j \<noteq> 0\<close> by (simp add: conf_with_id_def)
qed

lemma sys_inv_initial:
  assumes "unat (cf_client_count C) < 2 ^ 32"
  shows "sys_inv V L K C cc (sys_initial V K C cc pkeys dbs)"
proof -
  have "client_inv V L K C cc P j (snd (TcClient_init (vl_db V) (client_conf_of cc j) (pkeys j) True (dbs j)))"
    if "j \<in> client_ids C" for P j
    using client_id_fits(2) [OF assms that, of cc] by (simp add: TcClient_init_def client_inv_def Let_def)
  then show ?thesis
    by (simp add: sys_inv_def sys_initial_def interleaved.start attested_initial)
qed

lemma GetBlocks_member:
  assumes "GetBlocks L hdrs s = Inr pbs" and "pb \<in> set pbs"
  shows "\<exists>a < length (heap s). pb = Block_to_bytes L (heap s ! a)"
proof -
  obtain xs where xs: "mapr (get_block_one L s) hdrs = Inr xs" "pbs = concat xs"
    using assms(1) by (auto simp: GetBlocks_def bindr_Inr_iff)
  have "\<forall>x \<in> set xs. \<forall>pb \<in> set x. \<exists>a < length (heap s). pb = Block_to_bytes L (heap s ! a)"
    using xs(1)
  proof (induction hdrs arbitrary: xs)
    case (Cons h hdrs)
    then show ?case
      by (auto simp: bindr_Inr_iff get_block_one_def deref_def split: option.splits if_splits) blast
  qed simp
  with assms(2) xs(2) show ?thesis by auto
qed

lemma Register_share:
  assumes "Register K c pkey s = (Inr r, s')"
  shows "\<exists>key. share_of s (ucast c) = Some key \<and> rr_tss_sk r = kl_sk_string K (fst key)"
proof -
  obtain cp where "map_of (clients s) (ucast c) = Some cp" "rr_tss_sk r = kl_sk_string K (fst (cl_tss_key cp))"
    using assms by (auto simp: Register_def split: sum.splits option.splits)
  then show ?thesis by (intro exI [of _ "cl_tss_key cp"]) (simp add: share_of_def)
qed

text \<open>A step of the machine inside the system.\<close>

lemma sys_inv_machine:
  assumes spec: "bls_ctor_spec (vl_bls V)" "flexlib_spec L" and inv: "sys_inv V L K C cc S"
    and step: "mstep (vl_bls V) L K C (sys_m S) M"
    and start: "\<And>i as. threads M = threads (sys_m S) @ [(i, as)] \<Longrightarrow>
      \<forall>a \<in> set as. attested_action (genuine V K C cc (sys_cores S)) (vl_bls V) L a"
  shows "sys_inv V L K C cc (S\<lparr>sys_m := M\<rparr>)"
proof -
  let ?P = "sys_cores S" and ?Q = "core ` set (packed (m_net M))"
  have run: "interleaved (vl_bls V) L K C (sys_m S)" and att: "attested_machine (genuine V K C cc ?P) (vl_bls V) L (sys_m S)"
    using inv by (simp_all add: sys_inv_def)
  have PQ: "?P \<subseteq> ?Q" using mstep_after(2) [OF step] by auto
  have "attested_machine (genuine V K C cc ?P) (vl_bls V) L M"
    by (rule genuine.mstep_attested [OF spec(2) net_inv_interleaved [OF spec run] att step start])
  then have "attested_machine (genuine V K C cc ?Q) (vl_bls V) L M"
    by (rule attested_machine_mono [OF genuine_mono [OF PQ]])
  moreover have "client_inv V L K C cc ?Q j (sys_clients S j)" if "j \<in> client_ids C" for j
    by (rule client_inv_mono [OF PQ]) (use inv that in \<open>simp add: sys_inv_def\<close>)
  moreover have "\<exists>b. pb = Block_to_bytes L b \<and> proper V K C cc ?Q b" if "(i, pb) \<in> set (sys_blocks S)" for i pb
    using proper_mono [OF PQ] inv that unfolding sys_inv_def by fastforce
  ultimately show ?thesis
    using interleaved.step [OF run step] inv by (auto simp: sys_inv_def)
qed

lemma sys_inv_client:
  assumes "sys_inv V L K C cc S" and "j \<in> client_ids C \<Longrightarrow> client_inv V L K C cc (sys_cores S) j c"
  shows "sys_inv V L K C cc (set_client j c S)"
  using assms by (auto simp: sys_inv_def)

text \<open>\<open>Register\<close> is a thread of one action.\<close>

lemma sys_inv_register:
  assumes spec: "bls_ctor_spec (vl_bls V)" "flexlib_spec L" and inv: "sys_inv V L K C cc S"
    and reg: "Register K c pkey (sys_node S i) = (Inr r, s')"
  shows "sys_inv V L K C cc (S\<lparr>sys_m := (sys_m S)\<lparr>m_net := set_node i s' (m_net (sys_m S))\<rparr>\<rparr>)"
proof -
  let ?a = "Client (RegisterClient c pkey)" and ?M = "sys_m S"
  let ?M1 = "?M\<lparr>threads := threads ?M @ [(i, [?a])]\<rparr>"
  let ?M2 = "\<lparr>m_net = moved ?a i s' (m_net ?M1), threads = threads ?M @ [(i, [])]\<rparr>"
  have run: "run B L K C ?a (nodes (m_net ?M1) i) = (Inr [], s')" for B :: "'a blslib"
    by (simp add: run_register_def reg)
  have "sys_inv V L K C cc (S\<lparr>sys_m := ?M1\<rparr>)"
    by (rule sys_inv_machine [OF spec inv mstep.spawn [OF spawns.register]]) simp
  moreover have "mstep (vl_bls V) L K C ?M1 ?M2"
    using mstep.exec [where M = ?M1 and xs = "threads ?M" and i = i and a = ?a and ys = "[]" and cs = "[]" and s' = s'
      and B = "vl_bls V" and L = L and K = K and C = C] run by simp
  ultimately have "sys_inv V L K C cc (S\<lparr>sys_m := ?M2\<rparr>)"
    using sys_inv_machine [OF spec, where S = "S\<lparr>sys_m := ?M1\<rparr>" and M = ?M2] by simp
  moreover have "mstep (vl_bls V) L K C ?M2 (?M2\<lparr>threads := threads ?M @ []\<rparr>)"
    by (rule mstep.exit) simp
  ultimately have "sys_inv V L K C cc (S\<lparr>sys_m := ?M2\<lparr>threads := threads ?M\<rparr>\<rparr>)"
    using sys_inv_machine [OF spec, where S = "S\<lparr>sys_m := ?M2\<rparr>" and M = "?M2\<lparr>threads := threads ?M\<rparr>"] by simp
  then show ?thesis by (simp add: moved_def machine_eta)
qed

lemma sys_inv_step:
  assumes spec: "bls_ctor_spec (vl_bls V)" "flexlib_spec L" "sign_spec V" and small: "unat (cf_client_count C) < 2 ^ 32"
    and step: "sys_step V L K C cc S S'" and inv: "sys_inv V L K C cc S"
  shows "sys_inv V L K C cc S'"
proof -
  let ?A = "genuine V K C cc (sys_cores S)" and ?B = "vl_bls V"
  note machine = sys_inv_machine [OF spec(1,2) inv]
  have run: "interleaved ?B L K C (sys_m S)" and att: "attested_machine ?A ?B L (sys_m S)"
    and cl: "\<And>j. j \<in> client_ids C \<Longrightarrow> client_inv V L K C cc (sys_cores S) j (sys_clients S j)"
    using inv by (simp_all add: sys_inv_def)
  from step show ?thesis
  proof cases
    case (thread M)
    show ?thesis unfolding thread(1) by (rule machine [OF thread(2)]) (use thread(3) in simp)
  next
    case (background i as)
    show ?thesis
      unfolding background(1)
    proof (rule machine [OF mstep.spawn [OF background(2)]], simp, intro ballI)
      fix a assume "a \<in> set as"
      then show "attested_action ?A ?B L a"
        by (rule genuine.spawn_attested [OF att background(2)]) (use background(3) \<open>a \<in> set as\<close> in blast)
    qed
  next
    case (ballots j stub c voted i)
    have "\<forall>x \<in> set voted. attested_ballot ?A ?B L c x"
      using cl [OF ballots(2)] ballots(3) unfolding client_inv_def by blast
    then show ?thesis
      unfolding ballots(1) by (intro machine [OF mstep.spawn [OF spawns.vote]]) auto
  next
    case (register c pkey i r s')
    obtain key where key: "share_of (sys_node S i) (ucast c) = Some key" "rr_tss_sk r = kl_sk_string K (fst key)"
      using Register_share [OF register(2)] by blast
    have "share_of (nodes (initial K C) i) = share_of (sys_node S i)"
      using interleaved_after [OF run, of i] by (simp add: after_def)
    then have "made_for K C i c (rr_tss_sk r)" using key unfolding made_for_def by metis
    then show ?thesis
      using sys_inv_register [OF spec(1,2) inv register(2)] unfolding register(1) sys_inv_def by simp
  next
    case (get hdrs i pbs)
    have "\<exists>b. pb = Block_to_bytes L b \<and> proper V K C cc (sys_cores S) b" if pb: "pb \<in> set pbs" for pb
    proof -
      obtain a where a: "a < length (heap (sys_node S i))" "pb = Block_to_bytes L (heap (sys_node S i) ! a)"
        using GetBlocks_member [OF get(2) pb] by blast
      have "server_inv ?B L (cf_client_count C) (sys_cores S) (next_number C (m_net (sys_m S)) i) (sys_node S i)"
        by (rule net_inv_node [OF net_inv_interleaved [OF spec(1,2) run]])
      then have "core (heap (sys_node S i) ! a) \<in> sys_cores S \<and> block_shares_ok ?B (heap (sys_node S i) ! a)"
        using a(1) nth_mem unfolding server_inv_def by blast
      moreover have "attested ?A (heap (sys_node S i) ! a)"
        using att a(1) by (intro attested_server_nth [of _ ?B L]) (simp_all add: attested_machine_def)
      ultimately show ?thesis using a(2) unfolding proper_def by blast
    qed
    then show ?thesis using inv unfolding get(1) sys_inv_def by auto
  next
    case (join j i sk)
    obtain key where "share_of (nodes (initial K C) i) (ucast (ucast j :: u32)) = Some key" "sk = kl_sk_string K (fst key)"
      using inv join(4) unfolding sys_inv_def made_for_def by blast
    then show ?thesis
      unfolding join(1) client_id_fits(1) [OF small join(2)]
      by (intro sys_inv_client [OF inv] client_inv_start [OF cl [OF join(2)] join(3)])
  next
    case (heartbeat j)
    show ?thesis unfolding heartbeat(1) by (intro sys_inv_client [OF inv] client_inv_heartbeat cl)
  next
    case (pull j hdrs stub)
    show ?thesis unfolding pull(1) by (intro sys_inv_client [OF inv] client_inv_pull cl)
  next
    case (fetch j stub i answer ord)
    show ?thesis
      unfolding fetch(1)
    proof (intro sys_inv_client [OF inv] client_inv_fetch [OF spec(2)] cl)
      fix req x assume "x \<in> set (answer req)"
      then have "(i, x) \<in> set (sys_blocks S)" using fetch(4) by blast
      then show "\<exists>b. x = Block_to_bytes L b \<and> proper V K C cc (sys_cores S) b" using inv unfolding sys_inv_def by fastforce
    qed
  next
    case (vote j b q)
    show ?thesis
      unfolding vote(1) by (intro sys_inv_client [OF inv] client_inv_vote [OF spec(2,3) vote(2)] cl vote(2,3))
  qed
qed

lemma sys_inv_reachable:
  assumes spec: "bls_ctor_spec (vl_bls V)" "flexlib_spec L" "sign_spec V" and small: "unat (cf_client_count C) < 2 ^ 32"
    and "sys_reachable V L K C cc S"
  shows "sys_inv V L K C cc S"
  using assms(5)
proof induction
  case (start pkeys dbs)
  show ?case by (rule sys_inv_initial [OF small])
next
  case (step S S')
  show ?case by (rule sys_inv_step [OF spec small step(2) step.IH])
qed

lemma card_client_ids: "finite (client_ids C)" "card (client_ids C) = unat (cf_client_count C)"
  using distinct_card [OF distinct_server_ids, of "cf_client_count C"]
  by (simp_all add: set_server_ids length_server_ids)

subsection \<open>Runs of the system\<close>

lemma tsteps_sys:
  "tsteps (vl_bls V) L K C M M' \<Longrightarrow> sys_steps V L K C cc (S\<lparr>sys_m := M\<rparr>) (S\<lparr>sys_m := M'\<rparr>)"
proof (induction rule: rtranclp_induct)
  case (step M1 M2)
  have "sys_step V L K C cc (S\<lparr>sys_m := M1\<rparr>) ((S\<lparr>sys_m := M1\<rparr>)\<lparr>sys_m := M2\<rparr>)"
    using step(2) by (intro sys_step.thread) (simp_all add: tstep_def)
  with step.IH show ?case by simp
qed simp

text \<open>A thread that starts and runs to its end at once.\<close>

lemma sys_spawned:
  assumes "sys_step V L K C cc S (start_thread i as S)" and "spawns C (m_net (sys_m S)) i as"
    and "runs (vl_bls V) L K C as (sys_node S i) r" and "\<forall>a \<in> set as. plain a"
  shows "sys_steps V L K C cc S (S\<lparr>sys_m := (sys_m S)\<lparr>m_net := set_node i (snd r) (m_net (sys_m S))\<rparr>\<rparr>)"
  using tsteps_sys [OF spawn_runs(2) [OF assms(2-4)], of cc S] assms(1) by (meson converse_rtranclp_into_rtranclp)

lemma sys_background:
  assumes "spawns C (m_net (sys_m S)) i as" and "runs (vl_bls V) L K C as (sys_node S i) r"
    and "\<forall>a \<in> set as. plain a \<and> (\<nexists>c bs. a = Client (VoteItem c bs))"
  shows "sys_steps V L K C cc S (S\<lparr>sys_m := (sys_m S)\<lparr>m_net := set_node i (snd r) (m_net (sys_m S))\<rparr>\<rparr>)"
  using assms by (intro sys_spawned [OF sys_step.background]) blast+

text \<open>The clients \<open>js\<close>, each with the block \<open>k\<close> in its queue, vote.\<close>

lemma clients_vote:
  assumes "distinct js" and "\<forall>j \<in> set js. j \<in> client_ids C \<and> holds_block V k (ucast j) (sys_clients S j)"
  shows "\<exists>S'. sys_steps V L K C cc S S' \<and> sys_m S' = sys_m S \<and> (\<forall>j. j \<notin> set js \<longrightarrow> sys_clients S' j = sys_clients S j) \<and>
    (\<forall>j \<in> set js. \<exists>v vb. ballot (vl_bls V) k (ucast j) v vb \<and> vote_ok (vl_bls V) v \<and> vote_sig_share v \<noteq> None \<and>
       (\<forall>stub < 2. (stub, VoteBlocksRequest (ucast j) [Block_to_bytes L vb]) \<in> set (cli_requests (sys_clients S' j))))"
  using assms
proof (induction js arbitrary: S)
  case Nil
  show ?case by (intro exI [of _ S]) simp
next
  case (Cons j js)
  let ?c = "sys_clients S j"
  have j: "j \<in> client_ids C" "holds_block V k (ucast j) ?c" using Cons.prems(2) by simp_all
  obtain b where q: "cli_pending_blks ?c = [b]" using j(2) by (auto simp: holds_block_def split: list.splits)
  obtain c' v vb where c': "TcClient_VoteBlocks V L ?c = (None, c')" "cli_requests c' = cli_requests ?c @
      [(0, VoteBlocksRequest (ucast j) [Block_to_bytes L vb]), (1, VoteBlocksRequest (ucast j) [Block_to_bytes L vb])]"
    and v: "ballot (vl_bls V) k (ucast j) v vb" "vote_ok (vl_bls V) v" "vote_sig_share v \<noteq> None"
    using client_ballot [OF j(2), of L] by (elim exE conjE)
  obtain c1 where c1: "vote_block V L b (?c\<lparr>cli_pending_blks := []\<rparr>) = (None, c1)"
    using c'(1) q by (subst (asm) TcClient_VoteBlocks.simps) (auto split: prod.splits option.splits)
  have "cli_pending_blks c1 = []" using vote_block_queue [of V L b "?c\<lparr>cli_pending_blks := []\<rparr>"] c1 by simp
  then have "c1 = c'" using c'(1) q c1 by (simp add: TcClient_VoteBlocks.simps [of V L ?c] TcClient_VoteBlocks.simps [of V L c1])
  then have step: "sys_step V L K C cc S (set_client j c' S)"
    using sys_step.vote [OF j(1) q, of V L K cc] c1 by simp
  let ?S1 = "set_client j c' S"
  have "\<forall>i \<in> set js. i \<in> client_ids C \<and> holds_block V k (ucast i) (sys_clients ?S1 i)" using Cons.prems by auto
  from Cons.IH [OF _ this] Cons.prems(1) obtain S' where S': "sys_steps V L K C cc ?S1 S'" "sys_m S' = sys_m S"
    "\<forall>i. i \<notin> set js \<longrightarrow> sys_clients S' i = sys_clients ?S1 i"
    "\<forall>i \<in> set js. \<exists>v vb. ballot (vl_bls V) k (ucast i) v vb \<and> vote_ok (vl_bls V) v \<and> vote_sig_share v \<noteq> None \<and>
       (\<forall>stub < 2. (stub, VoteBlocksRequest (ucast i) [Block_to_bytes L vb]) \<in> set (cli_requests (sys_clients S' i)))"
    by auto
  have "\<forall>stub < 2. (stub, VoteBlocksRequest (ucast j) [Block_to_bytes L vb]) \<in> set (cli_requests (sys_clients S' j))"
    using S'(3) Cons.prems(1) c'(2) by (auto simp: less_2_cases_iff)
  then show ?case
    using S' v converse_rtranclp_into_rtranclp [OF step S'(1)] by (intro exI [of _ S']) auto
qed

text \<open>A client registers with its first server and gets a block that is pending there.\<close>

lemma Register_known:
  assumes "share_of s (ucast c) = Some key" and "kl_mk_pubkey K pk = Inr p"
  shows "\<exists>r cs. Register K c pk s = (Inr r, s\<lparr>clients := cs\<rparr>) \<and> rr_tss_sk r = kl_sk_string K (fst key)"
  using assms by (auto simp: Register_def share_of_def)

definition fresh_client :: "u64 \<Rightarrow> 'd client \<Rightarrow> bool" where
  "fresh_client j c \<longleftrightarrow> cli_id c = j \<and> buffers_ok c \<and> cli_pending_blks c = [] \<and> int (unat j) \<le> INT_MAX"

lemma client_gets_block:
  assumes spec: "flexlib_spec L" and j: "j \<in> client_ids C" "stub_server (client_conf_of cc j) 0 = Some i"
    and fresh: "fresh_client j (sys_clients S j)" and share: "share_of (sys_node S i) j = Some key"
    and lib: "kl_mk_pubkey K pk = Inr p"
      "sl_sk_of_string (vl_sign V) (kl_sk_string K (fst key)) (cc_client_count cc) (cc_client_count cc) = Inr sk"
      "kl_mk_pk K (sk_share sk) (cc_client_count cc) (cc_client_count cc) = Inr pks" "signs V sk j"
    and b: "map_of (pending_blks (sys_node S i)) k = Some a" "deref (sys_node S i) a = Inr b" "block_id b = k"
      "votable V b" "map_of (votes b) j = None"
  shows "\<exists>S' cs. sys_steps V L K C cc S S' \<and> holds_block V k (ucast j) (sys_clients S' j)
    \<and> sys_m S' = (sys_m S)\<lparr>m_net := set_node i ((sys_node S i)\<lparr>clients := cs\<rparr>) (m_net (sys_m S))\<rparr>
    \<and> (\<forall>j'. j' \<noteq> j \<longrightarrow> sys_clients S' j' = sys_clients S j')"
proof -
  let ?c = "sys_clients S j" and ?s = "sys_node S i" and ?n = "cc_client_count cc" and ?bs = "Block_to_bytes L b"
  have id: "ucast (ucast j :: u32) = j" "cli_id ?c = j" using fresh small_id [of j] by (simp_all add: fresh_client_def)
  obtain r cs where r: "Register K (ucast j) pk ?s = (Inr r, ?s\<lparr>clients := cs\<rparr>)" "rr_tss_sk r = kl_sk_string K (fst key)"
    using Register_known [of ?s "ucast j" key K pk p] share lib(1) id(1) by auto
  let ?M = "(sys_m S)\<lparr>m_net := set_node i (?s\<lparr>clients := cs\<rparr>) (m_net (sys_m S))\<rparr>"
  let ?S1 = "S\<lparr>sys_m := ?M, sys_keys := sys_keys S @ [(i, ucast j, kl_sk_string K (fst key))]\<rparr>"
  have 1: "sys_step V L K C cc S ?S1" using sys_step.register [where V = V and L = L and C = C and cc = cc, OF r(1)] r(2) by simp
  have "BlockHeader_from_bytes L (BlockHeader_to_bytes L (header b)) = header b" by (rule BlockHeader_roundtrip_eq [OF spec])
  then have "GetBlocks L [BlockHeader_to_bytes L (header b)] (sys_node ?S1 i) = Inr [?bs]"
    using b(1-3) by (simp add: GetBlocks_def get_block_one_def deref_def split: if_splits)
  from sys_step.get [where V = V and K = K and C = C and cc = cc, OF this]
  have 2: "sys_step V L K C cc ?S1 (?S1\<lparr>sys_blocks := sys_blocks S @ [(i, ?bs)]\<rparr>)" by simp
  let ?S2 = "?S1\<lparr>sys_blocks := sys_blocks S @ [(i, ?bs)]\<rparr>"
  let ?c1 = "?c\<lparr>cli_requests := cli_requests ?c @ [(0, RegisterRequest (ucast j) (cli_ecc_pkey ?c))], cli_tss_key := Some (sk, pks)\<rparr>"
  have "TcClient_start K (vl_sign V) (client_conf_of cc j) (kl_sk_string K (fst key)) ?c = (None, ?c1)"
    using lib id(2) by (simp add: TcClient_start_def TcClient_Register_def call_stub_def conf_with_id_def)
  then have 3: "sys_step V L K C cc ?S2 (set_client j ?c1 ?S2)"
    using sys_step.join [where S = ?S2 and V = V and L = L and K = K and sk = "kl_sk_string K (fst key)", OF j] by simp
  let ?S3 = "set_client j ?c1 ?S2" and ?ans = "\<lambda>req :: bytes list. [?bs]"
  let ?c2 = "snd (TcClient_GetBlocks (vl_bls V) L (\<lambda>ps. ps) ?ans 0 ?c1)"
  have "sys_step V L K C cc ?S3 (set_client j (snd (TcClient_GetBlocks (vl_bls V) L (\<lambda>ps. ps) ?ans 0 (sys_clients ?S3 j))) ?S3)"
    by (rule sys_step.fetch [OF j]) simp
  then have 4: "sys_step V L K C cc ?S3 (set_client j ?c2 ?S3)" by simp
  have "Block_from_bytes (vl_bls V) L ?bs = Inr b"
    using Block_roundtrip_cases [OF spec, of "vl_bls V" b] b(4) by (simp add: votable_def sendable_def)
  then have c2: "cli_pending_blks ?c2 = [b]" "cli_id ?c2 = j" "cli_tss_key ?c2 = Some (sk, pks)" "buffers_ok ?c2"
    using fresh by (simp_all add: TcClient_GetBlocks_def call_stub_def decode_each_def got_block_def push_def fresh_client_def buffers_ok_def)
  then have "holds_block V k (ucast j) ?c2"
    using b(3-5) lib(4) fresh id(1) by (simp add: holds_block_def client_ready_def fresh_client_def)
  moreover have "sys_steps V L K C cc S (set_client j ?c2 ?S3)"
    using 1 2 3 4 by (meson converse_rtranclp_into_rtranclp rtranclp.rtrancl_refl)
  ultimately show ?thesis by (intro exI [of _ "set_client j ?c2 ?S3"] exI [of _ cs]) simp
qed

end
