(* ===== verification/TC_Liveness.thy ===== *)
theory TC_Liveness
  imports TC_System
begin

text \<open>
  Unanimity and progress of the whole system. The servers count a vote one at a time, whether it comes from a
  client or from a peer; \<open>counted C k X s\<close> says how far the counting has come. A vote that a client hands to
  any server reaches every server responsible for the block through the relay queues, so that a block for
  which all clients vote is merged there; the broadcast then commits it wherever it is pending.
\<close>

subsection \<open>Counting at one server\<close>

text \<open>
  \<open>queued\<close>: a block of that number waits for merging. \<open>counted C k X s\<close>: it does, or it is pending
  with votes of all voters in \<open>X\<close> and, once one of them has been counted here, still without a quorum. \<open>held\<close>: the
  server has a block of that number in some state.
\<close>

definition queued :: "u64 \<Rightarrow> server \<Rightarrow> bool" where
  "queued k s \<longleftrightarrow> (\<exists>a \<in> set (pb_merge_queue s). block_id (heap s ! a) = k)"

definition counted :: "conf \<Rightarrow> u64 \<Rightarrow> u64 set \<Rightarrow> server \<Rightarrow> bool" where
  "counted C k X s \<longleftrightarrow> queued k s \<or>
     (\<exists>a. map_of (pending_blks s) k = Some a \<and> X \<subseteq> dom (map_of (votes (heap s ! a))) \<and>
        (X \<noteq> {} \<longrightarrow> \<not> is_vote_enough (cf_client_count C) (heap s ! a)))"

definition held_number :: "u64 \<Rightarrow> server \<Rightarrow> bool" where
  "held_number k s \<longleftrightarrow> queued k s \<or> map_of (pending_blks s) k \<noteq> None \<or> map_of (committed_blks s) k \<noteq> None"

lemma counted_mono: "counted C k X s \<Longrightarrow> Y \<subseteq> X \<Longrightarrow> counted C k Y s"
  by (auto simp: counted_def)

lemma counted_relay_votes [simp]:
  "counted C k X (s\<lparr>relay_votes := q\<rparr>) = counted C k X s" "held_number k (s\<lparr>relay_votes := q\<rparr>) = held_number k s"
  by (simp_all add: counted_def queued_def held_number_def)

lemma counted_count_vote:
  assumes wf: "server_wf s" and c: "counted C k X s"
  shows "counted C k (if k' = k then insert j X else X) (snd (count_vote C j v k' s))"
proof (cases "map_of (pending_blks s) k'")
  case None
  then show ?thesis using c by (auto simp: count_vote_absent counted_def)
next
  case (Some a')
  note blk' = server_wf_pending [OF wf Some]
  let ?b = "Block_add_vote j v (heap s ! a')"
  let ?s1 = "write_block a' ?b s"
  have step: "snd (count_vote C j v k' s) = (if is_vote_enough (cf_client_count C) ?b then moved_to_merge a' k' ?s1 else ?s1)"
    using count_vote_pending [OF wf Some, of C j v] by (simp add: Let_def)
  have h1: "heap ?s1 = (heap s)[a' := ?b]" "pending_blks ?s1 = pending_blks s" "pb_merge_queue ?s1 = pb_merge_queue s"
    by (simp_all add: write_block_def)
  have chm: "chm_ok (pending_blks s)" using wf by (simp add: server_wf_def)
  have ids: "block_id ((heap s)[a' := ?b] ! x) = block_id (heap s ! x)" for x
    using blk' by (cases "x = a'") (simp_all add: Block_add_vote_def)
  have q: "queued k (snd (count_vote C j v k' s))" if "queued k s"
    using that unfolding step by (auto simp: queued_def h1 ids push_def)
  show ?thesis
  proof (cases "queued k s")
    case True
    then show ?thesis using q by (simp add: counted_def)
  next
    case False
    then obtain a where a: "map_of (pending_blks s) k = Some a" "X \<subseteq> dom (map_of (votes (heap s ! a)))"
      "X \<noteq> {} \<longrightarrow> \<not> is_vote_enough (cf_client_count C) (heap s ! a)"
      using c by (auto simp: counted_def)
    show ?thesis
    proof (cases "k' = k")
      case True
      then have aa: "a' = a" using Some a(1) by simp
      have "insert j X \<subseteq> dom (map_of (votes ?b))"
        using a(2) blk' by (auto simp: aa Block_add_vote_lookup)
      moreover have "queued k (moved_to_merge a' k' ?s1)"
        using blk' True by (auto simp: queued_def h1 push_def aa Block_add_vote_def)
      ultimately show ?thesis
        using a(1) blk' True unfolding step by (simp add: counted_def write_block_def aa)
    next
      case other: False
      have ne: "a' \<noteq> a" using blk' server_wf_pending [OF wf a(1)] other by auto
      then show ?thesis
        using a other chm unfolding step by (simp add: counted_def h1 chm.lookup_erase)
    qed
  qed
qed

text \<open>Counting never loses a block.\<close>

lemma held_count_vote:
  assumes wf: "server_wf s" and "held_number k s"
  shows "held_number k (snd (count_vote C j v k' s))"
proof -
  have com: "committed_blks (snd (count_vote C j v k' s)) = committed_blks s"
    by (simp add: count_vote_def Let_def write_block_def split: option.split sum.split)
  show ?thesis
  proof (cases "map_of (committed_blks s) k")
    case None
    then have "counted C k {} s" using assms(2) by (auto simp: held_number_def counted_def)
    from counted_count_vote [OF wf this, of k' j v] show ?thesis by (auto simp: held_number_def counted_def)
  qed (simp add: held_number_def com)
qed

lemma counted_relay:
  assumes "server_wf s" and "k \<notin> dead_block s" and "counted C k X s"
  shows "\<exists>s'. foreach (relay_vote_one C) vs s = (None, s') \<and> dead_block s' = dead_block s \<and>
    (held_number k' s \<longrightarrow> held_number k' s') \<and>
    counted C k (X \<union> vote_voter_id ` {v \<in> set vs. vote_block_id v = k}) s'"
  using assms
proof (induction vs arbitrary: s X)
  case (Cons v vs)
  let ?X = "if vote_block_id v = k then insert (vote_voter_id v) X else X"
  obtain s1 where one: "relay_vote_one C v s = (None, s1)" and wf1: "server_wf s1"
    using relay_vote_one_ok [OF Cons.prems(1), of C v] by (cases "relay_vote_one C v s") simp
  then have s1: "s1 = snd (relay_vote_one C v s)" by simp
  have "counted C k ?X s1"
    using Cons.prems counted_count_vote [OF Cons.prems(1,3), of "vote_block_id v" "vote_voter_id v" v]
    by (auto simp: s1 relay_vote_one_wf)
  moreover have "dead_block s1 = dead_block s" "held_number k' s \<longrightarrow> held_number k' s1"
    using Cons.prems(1) by (auto simp: s1 relay_vote_one_wf count_vote_frame intro: held_count_vote)
  ultimately obtain s' where s': "foreach (relay_vote_one C) vs s1 = (None, s')" "dead_block s' = dead_block s"
    "held_number k' s \<longrightarrow> held_number k' s'"
    "counted C k (?X \<union> vote_voter_id ` {v \<in> set vs. vote_block_id v = k}) s'"
    using Cons.IH [of s1 ?X] wf1 Cons.prems(2) by auto
  moreover have "?X \<union> vote_voter_id ` {v \<in> set vs. vote_block_id v = k} =
      X \<union> vote_voter_id ` {v' \<in> set (v # vs). vote_block_id v' = k}" by auto
  ultimately show ?case using one by (intro exI [of _ s']) (simp del: list.set)
qed simp

lemma counted_all:
  assumes "server_wf s" and "counted C k (client_ids C) s" and "cf_client_count C \<noteq> 0"
  shows "queued k s"
proof (rule ccontr)
  assume "\<not> queued k s"
  then obtain a where a: "map_of (pending_blks s) k = Some a" "client_ids C \<subseteq> dom (map_of (votes (heap s ! a)))"
    "client_ids C \<noteq> {} \<longrightarrow> \<not> is_vote_enough (cf_client_count C) (heap s ! a)"
    using assms(2) by (auto simp: counted_def)
  have "cf_client_count C \<in> client_ids C" using assms(3) by (simp add: word_le_nat_alt unat_gt_0 Suc_le_eq)
  then have few: "\<not> is_vote_enough (cf_client_count C) (heap s ! a)" using a(3) by blast
  have "card (client_ids C) \<le> card (dom (map_of (votes (heap s ! a))))" by (rule card_mono [OF _ a(2)]) (simp add: finite_dom_map_of)
  also have "\<dots> \<le> length (votes (heap s ! a))" by (metis card_length dom_map_of_conv_image_fst length_map list.set_map)
  finally show False using few by (simp add: card_client_ids is_vote_enough_def)
qed

subsection \<open>One vote on its way\<close>

lemma responsible_range:
  assumes "cf_server_count C \<noteq> 0" and "cf_server_count C \<noteq> - 1" and "i \<in> responsible C k"
  shows "i \<in> {1..cf_server_count C}"
proof -
  let ?b = "mk_Block k 0 0"
  obtain ts where ts: "get_server_id ?b (cf_server_count C) = Inr ts" using get_server_id_eq [OF assms(1,2)] by blast
  have "block_id ?b = k" by (simp add: entity_defs)
  then have "set ts = responsible C k" using set_get_server_id(1) [OF assms(1,2) ts] by (simp only:)
  then have "i \<in> set ts" using assms(3) by (simp only:)
  then show ?thesis using get_server_id_subset [OF assms(1,2) ts] by blast
qed

lemma sys_steps_reachable: "sys_steps V L K C cc S S' \<Longrightarrow> sys_reachable V L K C cc S \<Longrightarrow> sys_reachable V L K C cc S'"
  by (induction rule: rtranclp_induct) (blast intro: sys_reachable.step)+

abbreviation set_sys_node :: "u64 \<Rightarrow> server \<Rightarrow> 'd system \<Rightarrow> 'd system" where
  "set_sys_node i s S \<equiv> S\<lparr>sys_m := (sys_m S)\<lparr>m_net := set_node i s (m_net (sys_m S))\<rparr>\<rparr>"

text \<open>The libraries as documented, a configuration within the bounds of the code, and a start-up that succeeded.\<close>

definition well_set_up :: "('ss, 'o, 'd) votelib \<Rightarrow> 'r flexlib \<Rightarrow> keylib \<Rightarrow> conf \<Rightarrow> bool" where
  "well_set_up V L K C \<longleftrightarrow> bls_ctor_spec (vl_bls V) \<and> flexlib_spec L \<and> sign_spec V \<and> start_ok K C \<and>
     cf_server_count C \<noteq> 0 \<and> cf_server_count C \<noteq> - 1 \<and> cf_client_count C \<noteq> 0 \<and> int (unat (cf_client_count C)) \<le> INT_MAX"

lemma well_set_up_small:
  assumes "well_set_up V L K C"
  shows "unat (cf_client_count C) < 2 ^ 32"
proof -
  have "unat (cf_client_count C) \<le> 2147483647"
    using assms unfolding well_set_up_def INT_MAX_def by linarith
  then show ?thesis by simp
qed

lemma sys_facts:
  assumes "well_set_up V L K C" and "sys_reachable V L K C cc S"
  shows "net_inv (vl_bls V) L C (m_net (sys_m S))" and "server_wf (sys_node S i)" and "server_id (sys_node S i) = i"
    and "linked (peers_of C (sys_node S i)) (sys_node S i)"
    and "attested_server (genuine V K C cc (sys_cores S)) (vl_bls V) L (sys_node S i)"
    and "j \<in> client_ids C \<Longrightarrow> client_inv V L K C cc (sys_cores S) j (sys_clients S j)"
proof -
  have ok: "bls_ctor_spec (vl_bls V)" "flexlib_spec L" "sign_spec V" "start_ok K C"
    using assms(1) by (simp_all add: well_set_up_def)
  note inv = sys_inv_reachable [OF ok(1-3) well_set_up_small [OF assms(1)] assms(2)]
  then have run: "interleaved (vl_bls V) L K C (sys_m S)" by (simp add: sys_inv_def)
  show net: "net_inv (vl_bls V) L C (m_net (sys_m S))" by (rule net_inv_interleaved [OF ok(1,2) run])
  show "server_wf (sys_node S i)" by (rule server_inv_wf [OF net_inv_node [OF net]])
  show "server_id (sys_node S i) = i" and "linked (peers_of C (sys_node S i)) (sys_node S i)"
    using interleaved_linked [OF ok(4) run, of i] by simp_all
  show "attested_server (genuine V K C cc (sys_cores S)) (vl_bls V) L (sys_node S i)"
    using inv by (simp add: sys_inv_def attested_machine_def)
  show "client_inv V L K C cc (sys_cores S) j (sys_clients S j)" if "j \<in> client_ids C"
    using inv that by (simp add: sys_inv_def)
qed

text \<open>A ballot for the block \<open>k\<close> that the client \<open>j\<close> has sent through a stub.\<close>

definition has_voted :: "('ss, 'o, 'd) votelib \<Rightarrow> 'r flexlib \<Rightarrow> u64 \<Rightarrow> u64 \<Rightarrow> nat \<Rightarrow> 'd client \<Rightarrow> bool" where
  "has_voted V L k j stub c \<longleftrightarrow> (\<exists>v vb. ballot (vl_bls V) k (ucast j) v vb \<and>
     (stub, VoteBlocksRequest (ucast j) [Block_to_bytes L vb]) \<in> set (cli_requests c))"

lemma ballot_genuine:
  assumes ok: "well_set_up V L K C" and S: "sys_reachable V L K C cc S" and j: "j \<in> client_ids C"
    and vb: "ballot (vl_bls V) k (ucast j) v vb"
      "(stub, VoteBlocksRequest (ucast j) [Block_to_bytes L vb]) \<in> set (cli_requests (sys_clients S j))"
  shows "genuine V K C cc (sys_cores S) k j v"
proof -
  let ?c = "ucast j :: u32"
  have spec: "flexlib_spec L" using ok by (simp add: well_set_up_def)
  have fits: "ucast ?c = j" by (rule client_id_fits(1) [OF well_set_up_small [OF ok] j])
  have "attested_ballot (genuine V K C cc (sys_cores S)) (vl_bls V) L ?c (Block_to_bytes L vb)"
    using sys_facts(6) [OF ok S j] vb(2) by (fastforce simp: client_inv_def)
  moreover have "Block_from_bytes (vl_bls V) L (Block_to_bytes L vb) = Inr (vb\<lparr>tss_sig := None\<rparr>)"
    using Block_roundtrip_cases [OF spec, of "vl_bls V" vb] vb(1) by (simp add: ballot_def sendable_def)
  ultimately show ?thesis using vb(1) by (simp add: attested_ballot_def ballot_def fits)
qed

lemma ballot_arrives:
  assumes ok: "well_set_up V L K C" and S: "sys_reachable V L K C cc S" and j: "j \<in> client_ids C"
    and voted: "has_voted V L k j stub (sys_clients S j)" and p: "stub_server (client_conf_of cc j) stub = Some p"
    and alive: "k \<notin> dead_block (sys_node S p)"
  shows "\<exists>s' v. sys_steps V L K C cc S (set_sys_node p s' S) \<and> dead_block s' = dead_block (sys_node S p)
    \<and> (held_number k' (sys_node S p) \<longrightarrow> held_number k' s') \<and> vote_block_id v = k \<and> vote_voter_id v = j
    \<and> (p \<in> responsible C k \<longrightarrow> counted C k X (sys_node S p) \<longrightarrow> counted C k (insert j X) s')
    \<and> (\<forall>t \<in> responsible C k - {p}. \<exists>q. map_of (relay_votes s') t = Some (q @ [v]))"
proof -
  let ?s = "sys_node S p" and ?B = "vl_bls V" and ?c = "ucast j :: u32" and ?n = "cf_server_count C"
  have spec: "flexlib_spec L" and n: "?n \<noteq> 0" "?n \<noteq> - 1" using ok by (simp_all add: well_set_up_def)
  have fits: "ucast ?c = j" by (rule client_id_fits(1) [OF well_set_up_small [OF ok] j])
  obtain v vb where vb: "ballot ?B k ?c v vb" "(stub, VoteBlocksRequest ?c [Block_to_bytes L vb]) \<in> set (cli_requests (sys_clients S j))"
    using voted by (auto simp: has_voted_def)
  then have b: "sendable ?B vb" "block_id vb = k" "map_of (votes vb) j = Some v" by (simp_all add: ballot_def fits)
  have "genuine V K C cc (sys_cores S) k j v" by (rule ballot_genuine [OF ok S j vb])
  then have names: "vote_block_id v = k" "vote_voter_id v = j" using genuine.names by blast+
  obtain ts where ts: "get_server_id (vb\<lparr>tss_sig := None\<rparr>) ?n = Inr ts" using get_server_id_eq [OF n] by blast
  have resp: "set ts = responsible C k" using set_get_server_id(1) [OF n ts] b(2) by simp
  note here = sys_facts(2-4) [OF ok S, of p]
  have stripped: "block_id (vb\<lparr>tss_sig := None\<rparr>) = k" using b(2) by simp
  obtain qs where run: "vote_one C j (vb\<lparr>tss_sig := None\<rparr>) ?s =
      (if p \<in> set ts then count_vote C j v k (?s\<lparr>relay_votes := qs\<rparr>) else (None, ?s\<lparr>relay_votes := qs\<rparr>))"
    and qs: "\<forall>t. map_of qs t = (if t \<in> set ts - {p} then Some (the (map_of (relay_votes ?s) t) @ [v]) else map_of (relay_votes ?s) t)"
    using vote_one_relays [OF n _ _ linked_peers_ready [OF here(3)] ts, of j v, unfolded stripped here(2)] b(3) alive by auto
  let ?s' = "snd (vote_one C j (vb\<lparr>tss_sig := None\<rparr>) ?s)"
  have vote: "VoteBlocks ?B L C ?c [Block_to_bytes L vb] ?s = vote_one C j (vb\<lparr>tss_sig := None\<rparr>) ?s"
    using VoteBlocks_single [OF spec b(1), of C ?c ?s] fits by simp
  have "runs ?B L K C (map (Client \<circ> VoteItem ?c) [Block_to_bytes L vb]) ?s (vote_one C j (vb\<lparr>tss_sig := None\<rparr>) ?s)"
    using runs_VoteBlocks [of ?B L K C ?c "[Block_to_bytes L vb]" ?s] unfolding vote .
  from sys_spawned [OF sys_step.ballots [OF j vb(2) p] spawns.vote this]
  have steps: "sys_steps V L K C cc S (set_sys_node p ?s' S)" by simp
  have s': "?s' = (if p \<in> set ts then (snd (count_vote C j v k ?s))\<lparr>relay_votes := qs\<rparr> else ?s\<lparr>relay_votes := qs\<rparr>)"
    using run by (simp add: count_vote_frame)
  have "held_number k' ?s' = held_number k' (if p \<in> set ts then snd (count_vote C j v k ?s) else ?s)"
    unfolding s' by simp
  then have "held_number k' ?s \<longrightarrow> held_number k' ?s'" using held_count_vote [OF here(1)] by simp
  moreover have "counted C k (insert j X) ?s'" if "p \<in> responsible C k" "counted C k X ?s"
  proof -
    have "counted C k (insert j X) (snd (count_vote C j v k ?s))"
      using counted_count_vote [OF here(1) that(2), of k j v] by simp
    then show ?thesis unfolding s' using that(1) resp by simp
  qed
  moreover have "dead_block ?s' = dead_block ?s" "relay_votes ?s' = qs" unfolding s' by (simp_all add: count_vote_frame)
  ultimately show ?thesis using steps names qs resp by (intro exI [of _ ?s'] exI [of _ v]) auto
qed

lemma vote_rest:
  assumes "s'\<lparr>relay_votes := [], outbox := []\<rparr> = s\<lparr>relay_votes := [], outbox := []\<rparr>"
  shows "dead_block s' = dead_block s" and "held_number k s' = held_number k s"
proof -
  show "dead_block s' = dead_block s" using arg_cong [OF assms, of dead_block] by simp
  have "heap s' = heap s" "pending_blks s' = pending_blks s" "pb_merge_queue s' = pb_merge_queue s" "committed_blks s' = committed_blks s"
    using arg_cong [OF assms, of heap] arg_cong [OF assms, of pending_blks] arg_cong [OF assms, of pb_merge_queue]
      arg_cong [OF assms, of committed_blks] by simp_all
  then show "held_number k s' = held_number k s" by (simp add: held_number_def queued_def)
qed

lemma votes_go_out:
  assumes ok: "well_set_up V L K C" and S: "sys_reachable V L K C cc S"
    and q: "map_of (relay_votes (sys_node S p)) t = Some q" "q \<noteq> []" and t: "t \<in> {1..cf_server_count C}" "t \<noteq> p"
  shows "\<exists>s'. sys_steps V L K C cc S (set_sys_node p s' S) \<and> dead_block s' = dead_block (sys_node S p)
    \<and> held_number k' s' = held_number k' (sys_node S p)
    \<and> (t, RelayVoteRequest (ucast p) (map (BlockVote_to_bytes L) q)) \<in> set (outbox s')"
proof -
  let ?s = "sys_node S p"
  note here = sys_facts(2-4) [OF ok S, of p]
  obtain s' where run: "send_relay_votes L C ?s = (None, s')"
    and out: "outbox s' = outbox ?s @ concat (map (vote_posts L ?s) (peers_of C ?s))"
    and rest: "s'\<lparr>relay_votes := [], outbox := []\<rparr> = ?s\<lparr>relay_votes := [], outbox := []\<rparr>"
    using vote_sender.send_all [OF ready_all [OF here(1,3)] distinct_peer_ids, of L] by (auto simp: send_relay_votes_def)
  have "t \<in> set (peers_of C ?s)" using t here(2) by (simp add: set_peer_ids)
  moreover have "(t, RelayVoteRequest (ucast p) (map (BlockVote_to_bytes L) q)) \<in> set (vote_posts L ?s t)"
    using q here(2) by (simp add: posts_defs)
  ultimately have "(t, RelayVoteRequest (ucast p) (map (BlockVote_to_bytes L) q)) \<in> set (outbox s')" by (auto simp: out)
  moreover have "sys_steps V L K C cc S (set_sys_node p s' S)"
    using sys_background [where S = S and i = p and C = C and L = L and V = V and K = K and cc = cc, OF spawns.votes_out runs_senders(2)]
      run by auto
  ultimately show ?thesis using vote_rest [OF rest] by blast
qed

lemma relayed_votes_arrive:
  assumes ok: "well_set_up V L K C" and S: "sys_reachable V L K C cc S"
    and out: "(t, RelayVoteRequest x (map (BlockVote_to_bytes L) q)) \<in> set (outbox (sys_node S p))"
    and q: "\<forall>v \<in> set q. vote_ok (vl_bls V) v"
    and alive: "k \<notin> dead_block (sys_node S t)" and c: "counted C k X (sys_node S t)"
  shows "\<exists>s'. sys_steps V L K C cc S (set_sys_node t s' S) \<and> dead_block s' = dead_block (sys_node S t)
    \<and> (held_number k' (sys_node S t) \<longrightarrow> held_number k' s')
    \<and> counted C k (X \<union> vote_voter_id ` {v \<in> set q. vote_block_id v = k}) s'"
proof -
  let ?s = "sys_node S t" and ?req = "RelayVoteRequest x (map (BlockVote_to_bytes L) q)"
  have spec: "flexlib_spec L" using ok by (simp add: well_set_up_def)
  obtain s' where s': "foreach (relay_vote_one C) q ?s = (None, s')" "dead_block s' = dead_block ?s"
    "held_number k' ?s \<longrightarrow> held_number k' s'" "counted C k (X \<union> vote_voter_id ` {v \<in> set q. vote_block_id v = k}) s'"
    using counted_relay [OF sys_facts(2) [OF ok S] alive c] by blast
  have "handle_peer (vl_bls V) L C (\<lambda>j. 0) ?req ?s = (None, s')"
    unfolding handle_peer_def request.case RelayVote_handler_def vote_wire.decode_each_written [OF spec q] using s'(1) by simp
  then have "runs (vl_bls V) L K C (map Peer (peer_actions (\<lambda>j. 0) ?req)) ?s (None, s')"
    using runs_handle_peer [of "vl_bls V" L K C "\<lambda>j. 0" ?req ?s] by simp
  from sys_background [where V = V and L = L and K = K and C = C and cc = cc, OF spawns.deliver [OF out] this]
  have "sys_steps V L K C cc S (set_sys_node t s' S)" by auto
  with s' show ?thesis by blast
qed

text \<open>
  \<open>onward k S S'\<close>: from \<open>S\<close> to \<open>S'\<close> no client has moved, nothing has been packed or declared dead, and no server
  has lost a block with the number \<open>k\<close>.
\<close>

definition onward :: "u64 \<Rightarrow> 'd system \<Rightarrow> 'd system \<Rightarrow> bool" where
  "onward k S S' \<longleftrightarrow> sys_clients S' = sys_clients S \<and> packed (m_net (sys_m S')) = packed (m_net (sys_m S)) \<and>
     (\<forall>t. dead_block (sys_node S' t) = dead_block (sys_node S t) \<and>
        (held_number k (sys_node S t) \<longrightarrow> held_number k (sys_node S' t)))"

lemma onward_set_node:
  "dead_block s' = dead_block (sys_node S i) \<Longrightarrow> (held_number k (sys_node S i) \<longrightarrow> held_number k s') \<Longrightarrow>
   onward k S (set_sys_node i s' S)"
  by (simp add: onward_def)

lemma onward_trans: "onward k S S' \<Longrightarrow> onward k S' S'' \<Longrightarrow> onward k S S''"
  by (simp add: onward_def)

lemma onward_refl [simp]: "onward k S S"
  by (simp add: onward_def)

lemma relay_reaches:
  assumes ok: "well_set_up V L K C" and S: "sys_reachable V L K C cc S"
    and q: "map_of (relay_votes (sys_node S p)) i = Some (q @ [v])" "vote_block_id v = k" "vote_voter_id v = j"
    and i: "i \<in> {1..cf_server_count C}" "i \<noteq> p"
    and c: "k \<notin> dead_block (sys_node S i)" "counted C k X (sys_node S i)"
  shows "\<exists>S'. sys_steps V L K C cc S S' \<and> onward k S S' \<and> counted C k (insert j X) (sys_node S' i)"
proof -
  obtain s1 where s1: "sys_steps V L K C cc S (set_sys_node p s1 S)" "dead_block s1 = dead_block (sys_node S p)"
    "held_number k s1 = held_number k (sys_node S p)"
    "(i, RelayVoteRequest (ucast p) (map (BlockVote_to_bytes L) (q @ [v]))) \<in> set (outbox s1)"
    using votes_go_out [OF ok S q(1) _ i, where k' = k] by auto
  let ?S1 = "set_sys_node p s1 S"
  note R1 = sys_steps_reachable [OF s1(1) S]
  have on: "onward k S ?S1" by (rule onward_set_node) (use s1(2,3) in simp_all)
  have "\<forall>v' \<in> set (q @ [v]). attested_vote (genuine V K C cc (sys_cores S)) v'"
    using sys_facts(5) [OF ok S, of p] q(1) unfolding attested_server_def by blast
  then have vok: "\<forall>v' \<in> set (q @ [v]). vote_ok (vl_bls V) v'" by (auto simp: attested_vote_def genuine_def)
  have "(i, RelayVoteRequest (ucast p) (map (BlockVote_to_bytes L) (q @ [v]))) \<in> set (outbox (sys_node ?S1 p))"
    and "k \<notin> dead_block (sys_node ?S1 i)" and "counted C k X (sys_node ?S1 i)"
    using s1(4) c i(2) by simp_all
  from relayed_votes_arrive [OF ok R1 this(1) vok this(2,3), where k' = k] obtain s2 where s2:
    "sys_steps V L K C cc ?S1 (set_sys_node i s2 ?S1)" "dead_block s2 = dead_block (sys_node ?S1 i)"
    "held_number k (sys_node ?S1 i) \<longrightarrow> held_number k s2"
    "counted C k (X \<union> vote_voter_id ` {v' \<in> set (q @ [v]). vote_block_id v' = k}) s2"
    by (elim exE conjE)
  have "counted C k (insert j X) s2" by (rule counted_mono [OF s2(4)]) (use q(2,3) in auto)
  then show ?thesis
    using rtranclp_trans [OF s1(1) s2(1)] onward_trans [OF on onward_set_node [OF s2(2,3)]]
    by (intro exI [of _ "set_sys_node i s2 ?S1"]) simp
qed

lemma vote_reaches:
  assumes ok: "well_set_up V L K C" and S: "sys_reachable V L K C cc S" and j: "j \<in> client_ids C"
    and voted: "has_voted V L k j stub (sys_clients S j)" and p: "stub_server (client_conf_of cc j) stub = Some p"
    and alive: "k \<notin> dead_block (sys_node S p)" "k \<notin> dead_block (sys_node S i)"
    and i: "i \<in> responsible C k" and c: "counted C k X (sys_node S i)"
  shows "\<exists>S'. sys_steps V L K C cc S S' \<and> onward k S S' \<and> counted C k (insert j X) (sys_node S' i)"
proof -
  obtain s1 v where s1: "sys_steps V L K C cc S (set_sys_node p s1 S)" "dead_block s1 = dead_block (sys_node S p)"
    "held_number k (sys_node S p) \<longrightarrow> held_number k s1" "vote_block_id v = k" "vote_voter_id v = j"
    "p \<in> responsible C k \<longrightarrow> counted C k X (sys_node S p) \<longrightarrow> counted C k (insert j X) s1"
    "\<forall>t \<in> responsible C k - {p}. \<exists>q. map_of (relay_votes s1) t = Some (q @ [v])"
    using ballot_arrives [OF ok S j voted p alive(1), where k' = k and X = X] by (elim exE conjE)
  let ?S1 = "set_sys_node p s1 S"
  have on: "onward k S ?S1" by (rule onward_set_node [OF s1(2,3)])
  show ?thesis
  proof (cases "p = i")
    case True
    then have "counted C k (insert j X) s1" using s1(6) i c by blast
    then show ?thesis using s1(1) on True by (intro exI [of _ ?S1]) simp
  next
    case False
    have "cf_server_count C \<noteq> 0" "cf_server_count C \<noteq> - 1" using ok by (simp_all add: well_set_up_def)
    from responsible_range [OF this i] have range: "i \<in> {1..cf_server_count C}" .
    obtain q where "map_of (relay_votes s1) i = Some (q @ [v])" using s1(7) i False by blast
    then have "map_of (relay_votes (sys_node ?S1 p)) i = Some (q @ [v])" by simp
    from relay_reaches [OF ok sys_steps_reachable [OF s1(1) S] this s1(4,5) range, where X = X] alive(2) c False
    obtain S2 where "sys_steps V L K C cc ?S1 S2" "onward k ?S1 S2" "counted C k (insert j X) (sys_node S2 i)" by auto
    then show ?thesis using rtranclp_trans [OF s1(1)] onward_trans [OF on] by blast
  qed
qed

lemma votes_reach:
  assumes ok: "well_set_up V L K C" and i: "i \<in> responsible C k"
    and "sys_reachable V L K C cc S" and "counted C k X (sys_node S i)" and "k \<notin> dead_block (sys_node S i)"
    and "\<forall>j \<in> set js. j \<in> client_ids C \<and> (\<exists>stub p. has_voted V L k j stub (sys_clients S j) \<and>
      stub_server (client_conf_of cc j) stub = Some p \<and> k \<notin> dead_block (sys_node S p))"
  shows "\<exists>S'. sys_steps V L K C cc S S' \<and> onward k S S' \<and> counted C k (X \<union> set js) (sys_node S' i)"
  using assms(3-)
proof (induction js arbitrary: S X)
  case Nil
  then show ?case by (intro exI [of _ S]) simp
next
  case (Cons j js)
  obtain stub p where j: "j \<in> client_ids C" "has_voted V L k j stub (sys_clients S j)"
    "stub_server (client_conf_of cc j) stub = Some p" "k \<notin> dead_block (sys_node S p)"
    using Cons.prems(4) by auto
  obtain S1 where S1: "sys_steps V L K C cc S S1" "onward k S S1" "counted C k (insert j X) (sys_node S1 i)"
    using vote_reaches [OF ok Cons.prems(1) j Cons.prems(3) i Cons.prems(2)] by blast
  have same: "sys_clients S1 = sys_clients S" "\<And>t. dead_block (sys_node S1 t) = dead_block (sys_node S t)"
    using S1(2) by (simp_all add: onward_def)
  obtain S2 where S2: "sys_steps V L K C cc S1 S2" "onward k S1 S2" "counted C k (insert j X \<union> set js) (sys_node S2 i)"
    using Cons.IH [OF sys_steps_reachable [OF S1(1) Cons.prems(1)] S1(3)] Cons.prems(3,4) by (auto simp: same)
  then show ?case
    using rtranclp_trans [OF S1(1) S2(1)] onward_trans [OF S1(2) S2(2)] by (intro exI [of _ S2]) simp
qed

subsection \<open>Merging and broadcasting\<close>

text \<open>A block with a quorum has the votes of exactly the clients, with their shares.\<close>

lemma quorum_unanimous:
  assumes "bls_ctor_spec (vl_bls V)" and "flexlib_spec L" and "sign_spec V" and "unat (cf_client_count C) < 2 ^ 32"
    and "sys_reachable V L K C cc S" and a: "a < length (heap (sys_node S i))"
    and enough: "unat (cf_client_count C) \<le> card (dom (map_of (votes (heap (sys_node S i) ! a))))"
  shows "dom (map_of (votes (heap (sys_node S i) ! a))) = client_ids C"
    and "map_of (votes (heap (sys_node S i) ! a)) j = Some v \<Longrightarrow>
      genuine V K C cc (sys_cores S) (block_id (heap (sys_node S i) ! a)) j v"
proof -
  let ?b = "heap (sys_node S i) ! a"
  have "attested (genuine V K C cc (sys_cores S)) ?b"
    using sys_inv_reachable [OF assms(1-5)] a
    by (intro attested_server_nth [of _ "vl_bls V" L]) (simp_all add: sys_inv_def attested_machine_def)
  then have gen: "genuine V K C cc (sys_cores S) (block_id ?b) j v" if "map_of (votes ?b) j = Some v" for j v
    using map_of_SomeD [OF that] by (force simp: attested_def)
  then show "map_of (votes ?b) j = Some v \<Longrightarrow> genuine V K C cc (sys_cores S) (block_id ?b) j v" .
  have "dom (map_of (votes ?b)) \<subseteq> client_ids C" using gen by (auto simp: genuine_def)
  moreover have "card (client_ids C) \<le> card (dom (map_of (votes ?b)))" using enough by (simp add: card_client_ids)
  ultimately show "dom (map_of (votes ?b)) = client_ids C" by (intro card_seteq card_client_ids)
qed

lemma decided_votes:
  assumes ok: "well_set_up V L K C" and S: "sys_reachable V L K C cc S" and a: "a \<in> decided (sys_node S i)"
  shows "a < length (heap (sys_node S i))" and "dom (map_of (votes (heap (sys_node S i) ! a))) = client_ids C"
    and "map_of (votes (heap (sys_node S i) ! a)) j = Some v \<Longrightarrow> vote_sig_share v \<noteq> None"
    and "sendable (vl_bls V) (heap (sys_node S i) ! a)"
proof -
  let ?s = "sys_node S i"
  note inv = net_inv_node [OF sys_facts(1) [OF ok S], of i]
  have wf: "server_wf ?s" by (rule server_inv_wf [OF inv])
  show len: "a < length (heap ?s)"
    using a wf by (auto simp: decided_def server_wf_def queues_valid_def keyed_def ran_def)
  have shares: "block_shares_ok (vl_bls V) (heap ?s ! a)" using inv len by (simp add: server_inv_def)
  then have "omap_ok (votes (heap ?s ! a))" by (simp add: block_shares_ok_def Block_ok_def)
  then have "card (dom (map_of (votes (heap ?s ! a)))) = length (votes (heap ?s ! a))"
    using distinct_card omap_ok_distinct by (metis dom_map_of_conv_image_fst length_map list.set_map)
  moreover have "is_vote_enough (cf_client_count C) (heap ?s ! a)" using inv a by (simp add: server_inv_def)
  ultimately have enough: "unat (cf_client_count C) \<le> card (dom (map_of (votes (heap ?s ! a))))" by (simp add: is_vote_enough_def)
  have lib: "bls_ctor_spec (vl_bls V)" "flexlib_spec L" "sign_spec V" "int (unat (cf_client_count C)) \<le> INT_MAX"
    using ok by (simp_all add: well_set_up_def)
  note all = quorum_unanimous [OF lib(1-3) well_set_up_small [OF ok] S len enough]
  show dom: "dom (map_of (votes (heap ?s ! a))) = client_ids C" by (rule all(1))
  show "vote_sig_share v \<noteq> None" if "map_of (votes (heap ?s ! a)) j = Some v"
    using all(2) [OF that] by (auto simp: genuine_def signed_vote_def)
  have "int (unat j) \<le> INT_MAX" if "j \<in> set (map fst (votes (heap ?s ! a)))" for j
  proof -
    have "j \<in> client_ids C" using that dom by (simp add: dom_map_of_conv_image_fst)
    then have "unat j \<le> unat (cf_client_count C)" by (simp add: word_le_nat_alt)
    then show ?thesis using lib(4) by linarith
  qed
  with shares show "sendable (vl_bls V) (heap ?s ! a)" by (simp add: sendable_def)
qed

abbreviation all_clients :: "conf \<Rightarrow> u32 list" where
  "all_clients C \<equiv> map ucast (server_ids (cf_client_count C))"

lemma merges_block:
  assumes ok: "well_set_up V L K C" and S: "sys_reachable V L K C cc S" and lib: "shares_merge (vl_bls V) C (all_clients C)"
    and a: "a \<in> decided (sys_node S i)"
  shows "\<exists>b. Block_merge_votes (vl_bls V) (cf_client_count C) (heap (sys_node S i) ! a) = Inr b"
proof -
  let ?b = "heap (sys_node S i) ! a" and ?n = "cf_client_count C"
  let ?v = "\<lambda>j. the (map_of (votes ?b) j)"
  note votes = decided_votes [OF ok S a]
  have ids: "ucast (ucast j :: u32) = j" if "j \<in> client_ids C" for j
    using that by (rule client_id_fits(1) [OF well_set_up_small [OF ok]])
  then have set: "ucast ` set (all_clients C) = client_ids C" by (force simp: set_server_ids image_image)
  have "\<forall>c \<in> set (all_clients C). vote_sig_share (?v (ucast c)) \<noteq> None"
  proof
    fix c assume "c \<in> set (all_clients C)"
    then have "ucast c \<in> dom (map_of (votes ?b))" using set votes(2) by blast
    then show "vote_sig_share (?v (ucast c)) \<noteq> None" using votes(3) by auto
  qed
  then have "mergeable (vl_bls V) ?n ?v (client_ids C)" using lib set unfolding shares_merge_def by metis
  moreover have "map_of (votes ?b) j = (if j \<in> client_ids C then Some (?v j) else None)" for j
    unfolding votes(2) [symmetric] by auto
  moreover have "Block_ok ?b" using votes(4) by (simp add: sendable_def block_shares_ok_def)
  ultimately show ?thesis unfolding mergeable_def by blast
qed

lemma merge_runs:
  assumes ok: "well_set_up V L K C" and S: "sys_reachable V L K C cc S" and lib: "shares_merge (vl_bls V) C (all_clients C)"
    and k: "queued k (sys_node S i)"
  shows "\<exists>s'. sys_steps V L K C cc S (set_sys_node i s' S) \<and> map_of (committed_blks s') k \<noteq> None
    \<and> (\<forall>t \<in> {1..cf_server_count C} - {i}. \<exists>q. map_of (bcast_commit_blocks s') t = Some q \<and> k \<in> block_id ` (!) (heap s') ` set q)"
proof -
  let ?s = "sys_node S i" and ?B = "vl_bls V"
  note here = sys_facts(2-4) [OF ok S, of i]
  obtain a where a: "a \<in> set (pb_merge_queue ?s)" "block_id (heap ?s ! a) = k" using k by (auto simp: queued_def)
  have "\<forall>a \<in> set (pb_merge_queue ?s). \<exists>b. Block_merge_votes ?B (cf_client_count C) (heap ?s ! a) = Inr b"
    using merges_block [OF ok S lib] by (simp add: decided_def)
  from merge_votes_all [OF here(1) this, of L "\<lambda>i. 0"] obtain s' where s': "merge_votes ?B L C (\<lambda>i. 0) ?s = (None, s')"
    and hp: "heap_le (heap ?s) (heap s')"
    and bc: "\<forall>t q. map_of (bcast_commit_blocks ?s) t = Some q \<longrightarrow> map_of (bcast_commit_blocks s') t = Some (q @ pb_merge_queue ?s)"
    and com: "map_of (committed_blks s') =
        map_of (committed_blks ?s) ++ map_of (rev (map (\<lambda>a. (block_id (heap ?s ! a), a)) (pb_merge_queue ?s)))"
    by (elim exE conjE)
  have "k \<in> fst ` set (rev (map (\<lambda>a. (block_id (heap ?s ! a), a)) (pb_merge_queue ?s)))" using a by force
  then have "map_of (committed_blks s') k \<noteq> None" unfolding com by (auto simp: map_add_None map_of_eq_None_iff)
  moreover have "a < length (heap ?s)" using a(1) here(1) by (simp add: server_wf_def)
  then have "block_id (heap s' ! a) = k" using hp a(2) by (auto simp: heap_le_def evolves_def)
  then have "\<exists>q. map_of (bcast_commit_blocks s') t = Some q \<and> k \<in> block_id ` (!) (heap s') ` set q"
    if t: "t \<in> {1..cf_server_count C} - {i}" for t
  proof -
    obtain q where "map_of (bcast_commit_blocks ?s) t = Some q"
      using bspec [of "set (peers_of C ?s)" _ t] here(2,3) t unfolding linked_def set_peer_ids by blast
    then have "map_of (bcast_commit_blocks s') t = Some (q @ pb_merge_queue ?s)" using bc by blast
    then show ?thesis using a(1) \<open>block_id (heap s' ! a) = k\<close> by auto
  qed
  moreover have "sys_steps V L K C cc S (set_sys_node i s' S)"
    using sys_background [where S = S and i = i and C = C and V = V and L = L and K = K and cc = cc,
      OF spawns.merge runs_merge_votes [where clk = "\<lambda>i. 0"]] s' by simp
  ultimately show ?thesis by blast
qed

lemma commits_go_out:
  assumes ok: "well_set_up V L K C" and S: "sys_reachable V L K C cc S"
  shows "\<exists>s'. sys_steps V L K C cc S (set_sys_node i s' S) \<and> committed_blks s' = committed_blks (sys_node S i)
    \<and> (\<forall>t \<in> {1..cf_server_count C} - {i}. \<forall>q. map_of (bcast_commit_blocks (sys_node S i)) t = Some q \<longrightarrow> q \<noteq> [] \<longrightarrow>
        (t, SPBcastCommitRequest (ucast i) (map (Block_to_bytes L) (map ((!) (heap (sys_node S i))) q)) 0) \<in> set (outbox s'))"
proof -
  let ?s = "sys_node S i"
  note here = sys_facts(2-4) [OF ok S, of i]
  obtain s' where run: "bcast_commits L C (\<lambda>t. 0) ?s = (None, s')"
    and out: "outbox s' = outbox ?s @ concat (map (commit_posts L (\<lambda>t. 0) ?s) (peers_of C ?s))"
    and rest: "s'\<lparr>bcast_commit_blocks := [], outbox := []\<rparr> = ?s\<lparr>bcast_commit_blocks := [], outbox := []\<rparr>"
    using commit_sender.send_all [OF ready_all [OF here(1,3)] distinct_peer_ids, of L "\<lambda>t. 0"] by (auto simp: bcast_commits_def)
  have "(t, SPBcastCommitRequest (ucast i) (map (Block_to_bytes L) (map ((!) (heap ?s)) q)) 0) \<in> set (outbox s')"
    if "t \<in> {1..cf_server_count C} - {i}" "map_of (bcast_commit_blocks ?s) t = Some q" "q \<noteq> []" for t q
  proof -
    have "t \<in> set (peers_of C ?s)" using that here(2) by (simp add: set_peer_ids)
    moreover have "(t, SPBcastCommitRequest (ucast i) (map (Block_to_bytes L) (map ((!) (heap ?s)) q)) 0)
        \<in> set (commit_posts L (\<lambda>t. 0) ?s t)" using that here(2) by (simp add: posts_defs)
    ultimately show ?thesis by (auto simp: out)
  qed
  moreover have "sys_steps V L K C cc S (set_sys_node i s' S)"
    using sys_background [where S = S and i = i and C = C and V = V and L = L and K = K and cc = cc,
      OF spawns.commits_out [where clk = "\<lambda>t. 0"] runs_senders(4)] run by auto
  ultimately show ?thesis using commit_rest(2) [OF rest] by blast
qed

text \<open>A server that has the block in some state commits it when the broadcast arrives, or has done so.\<close>

definition announces :: "'ss blslib \<Rightarrow> 'r flexlib \<Rightarrow> u64 \<Rightarrow> request \<Rightarrow> bool" where
  "announces B L k req \<longleftrightarrow> (\<exists>i bs ts. req = SPBcastCommitRequest i (map (Block_to_bytes L) bs) ts \<and>
     (\<forall>b \<in> set bs. sendable B b) \<and> k \<in> block_id ` set bs)"

lemma commit_arrives:
  assumes ok: "well_set_up V L K C" and S: "sys_reachable V L K C cc S" and lib: "shares_merge (vl_bls V) C (all_clients C)"
    and req: "(t, req) \<in> set (outbox (sys_node S i))" "announces (vl_bls V) L k req"
    and held: "held_number k (sys_node S t)"
  shows "\<exists>s'. sys_steps V L K C cc S (set_sys_node t s' S) \<and> map_of (committed_blks s') k \<noteq> None"
proof (cases "map_of (pending_blks (sys_node S t)) k")
  case (Some a)
  let ?r = "sys_node S t"
  obtain x bs ts where bs: "req = SPBcastCommitRequest x (map (Block_to_bytes L) bs) ts" "\<forall>b \<in> set bs. sendable (vl_bls V) b"
    "k \<in> block_id ` set bs" using req(2) by (auto simp: announces_def)
  let ?bs = "map (\<lambda>b. b\<lparr>tss_sig := None\<rparr>) bs"
  have flex: "flexlib_spec L" using ok by (simp add: well_set_up_def)
  have "\<forall>b \<in> set ?bs. Block_ok b" using bs(2) by (auto simp: sendable_def block_shares_ok_def Block_ok_def)
  from commit_loop [OF sys_facts(2) [OF ok S] this, of L C "\<lambda>j. 0" 0] obtain r' where
    r': "commit_all L C (\<lambda>j. 0) 0 ?bs ?r = (None, r')" "commits ?bs ?r r'" by blast
  have "k \<in> block_id ` set ?bs" using bs(3) by (simp add: image_image)
  then have "took ?bs r' k" using r'(2) Some unfolding commits_def by (auto dest: spec [of _ k])
  moreover have "handle_peer (vl_bls V) L C (\<lambda>j. 0) req ?r = (None, r')"
    using handle_block_post(2) [OF flex bs(2)] r'(1) by (simp add: bs(1))
  then have "runs (vl_bls V) L K C (map Peer (peer_actions (\<lambda>j. 0) req)) ?r (None, r')"
    using runs_handle_peer [of "vl_bls V" L K C "\<lambda>j. 0" req ?r] by simp
  from sys_background [where V = V and L = L and K = K and C = C and cc = cc, OF spawns.deliver [OF req(1)] this]
  have "sys_steps V L K C cc S (set_sys_node t r' S)" by auto
  ultimately show ?thesis by (auto simp: took_def)
next
  case None
  show ?thesis
  proof (cases "map_of (committed_blks (sys_node S t)) k")
    case None
    with \<open>map_of (pending_blks (sys_node S t)) k = None\<close> have "queued k (sys_node S t)"
      using held by (simp add: held_number_def)
    from merge_runs [OF ok S lib this] show ?thesis by blast
  next
    case (Some a)
    have "set_sys_node t (sys_node S t) S = S" by simp
    then have "sys_steps V L K C cc S (set_sys_node t (sys_node S t) S)" by (simp only: rtranclp.rtrancl_refl)
    with Some show ?thesis by blast
  qed
qed

lemma commits_arrive:
  assumes ok: "well_set_up V L K C" and lib: "shares_merge (vl_bls V) C (all_clients C)"
    and "sys_reachable V L K C cc S" and "distinct ts" and "i \<notin> set ts"
    and "\<forall>t \<in> set ts. held_number k (sys_node S t) \<and> (\<exists>req. (t, req) \<in> set (outbox (sys_node S i)) \<and> announces (vl_bls V) L k req)"
  shows "\<exists>S'. sys_steps V L K C cc S S' \<and> packed (m_net (sys_m S')) = packed (m_net (sys_m S))
    \<and> (\<forall>t \<in> set ts. map_of (committed_blks (sys_node S' t)) k \<noteq> None) \<and> (\<forall>t. t \<notin> set ts \<longrightarrow> sys_node S' t = sys_node S t)"
  using assms(3-)
proof (induction ts arbitrary: S)
  case Nil
  then show ?case by (intro exI [of _ S]) simp
next
  case (Cons t ts)
  obtain req where req: "(t, req) \<in> set (outbox (sys_node S i))" "announces (vl_bls V) L k req" "held_number k (sys_node S t)"
    using Cons.prems(4) by auto
  obtain s1 where s1: "sys_steps V L K C cc S (set_sys_node t s1 S)" "map_of (committed_blks s1) k \<noteq> None"
    using commit_arrives [OF ok Cons.prems(1) lib req] by blast
  let ?S1 = "set_sys_node t s1 S"
  have hyp: "\<forall>u \<in> set ts. held_number k (sys_node ?S1 u) \<and> (\<exists>req. (u, req) \<in> set (outbox (sys_node ?S1 i)) \<and> announces (vl_bls V) L k req)"
    using Cons.prems by auto
  have d: "distinct ts" "i \<notin> set ts" using Cons.prems(2,3) by simp_all
  obtain S2 where S2: "sys_steps V L K C cc ?S1 S2" "packed (m_net (sys_m S2)) = packed (m_net (sys_m ?S1))"
    "\<forall>t \<in> set ts. map_of (committed_blks (sys_node S2 t)) k \<noteq> None" "\<forall>t. t \<notin> set ts \<longrightarrow> sys_node S2 t = sys_node ?S1 t"
    using Cons.IH [OF sys_steps_reachable [OF s1(1) Cons.prems(1)] d hyp] by (elim exE conjE)
  have "sys_node S2 t = s1" using S2(4) Cons.prems(2) by simp
  with S2 s1(2) rtranclp_trans [OF s1(1) S2(1)] show ?case by (intro exI [of _ S2]) auto
qed

subsection \<open>From the votes to the commits\<close>

text \<open>A client takes part in the vote on a block: it has voted, or it has the block and is ready to sign.\<close>

definition takes_part :: "('ss, 'o, 'd) votelib \<Rightarrow> 'r flexlib \<Rightarrow> u64 \<Rightarrow> u64 \<Rightarrow> nat \<Rightarrow> 'd client \<Rightarrow> bool" where
  "takes_part V L k j stub c \<longleftrightarrow> has_voted V L k j stub c \<or> stub < 2 \<and> holds_block V k (ucast j) c"

lemma all_vote:
  assumes "\<forall>j \<in> client_ids C. takes_part V L k j (stub j) (sys_clients S j)"
  shows "\<exists>S'. sys_steps V L K C cc S S' \<and> sys_m S' = sys_m S \<and> (\<forall>j \<in> client_ids C. has_voted V L k j (stub j) (sys_clients S' j))"
proof -
  let ?js = "filter (\<lambda>j. \<not> has_voted V L k j (stub j) (sys_clients S j)) (server_ids (cf_client_count C))"
  have js: "distinct ?js" by (simp add: distinct_server_ids)
  have "\<forall>j \<in> set ?js. j \<in> client_ids C \<and> holds_block V k (ucast j) (sys_clients S j)"
    using assms by (auto simp: set_server_ids takes_part_def)
  from clients_vote [OF js this, of L K cc] obtain S' where S': "sys_steps V L K C cc S S'" "sys_m S' = sys_m S"
    "\<forall>j. j \<notin> set ?js \<longrightarrow> sys_clients S' j = sys_clients S j"
    "\<forall>j \<in> set ?js. \<exists>v vb. ballot (vl_bls V) k (ucast j) v vb \<and> vote_ok (vl_bls V) v \<and> vote_sig_share v \<noteq> None \<and>
       (\<forall>stub < 2. (stub, VoteBlocksRequest (ucast j) [Block_to_bytes L vb]) \<in> set (cli_requests (sys_clients S' j)))"
    by (elim exE conjE)
  have "has_voted V L k j (stub j) (sys_clients S' j)" if j: "j \<in> client_ids C" for j
  proof (cases "has_voted V L k j (stub j) (sys_clients S j)")
    case True
    then show ?thesis using S'(3) by simp
  next
    case False
    then have "j \<in> set ?js" and "stub j < 2" using j assms by (auto simp: set_server_ids takes_part_def)
    then show ?thesis using S'(4) unfolding has_voted_def by blast
  qed
  with S'(1,2) show ?thesis by blast
qed

text \<open>The votes of all clients reach a responsible server.\<close>

lemma quorum_reached:
  assumes ok: "well_set_up V L K C" and S: "sys_reachable V L K C cc S"
    and part: "\<forall>j \<in> client_ids C. \<exists>stub p. takes_part V L k j stub (sys_clients S j) \<and>
      stub_server (client_conf_of cc j) stub = Some p \<and> k \<notin> dead_block (sys_node S p)"
    and i: "i \<in> responsible C k" "k \<notin> dead_block (sys_node S i)" "map_of (pending_blks (sys_node S i)) k \<noteq> None"
  shows "\<exists>S'. sys_steps V L K C cc S S' \<and> packed (m_net (sys_m S')) = packed (m_net (sys_m S)) \<and> queued k (sys_node S' i)
    \<and> (\<forall>t. held_number k (sys_node S t) \<longrightarrow> held_number k (sys_node S' t))"
proof -
  obtain stub where stub: "\<forall>j \<in> client_ids C. takes_part V L k j (stub j) (sys_clients S j) \<and>
      (\<exists>p. stub_server (client_conf_of cc j) (stub j) = Some p \<and> k \<notin> dead_block (sys_node S p))"
    using part by metis
  then have "\<forall>j \<in> client_ids C. takes_part V L k j (stub j) (sys_clients S j)" by blast
  from all_vote [OF this, of K cc] obtain S1 where S1: "sys_steps V L K C cc S S1" "sys_m S1 = sys_m S"
    "\<forall>j \<in> client_ids C. has_voted V L k j (stub j) (sys_clients S1 j)" by (elim exE conjE)
  note R1 = sys_steps_reachable [OF S1(1) S]
  have n: "cf_client_count C \<noteq> 0" using ok by (simp add: well_set_up_def)
  have c1: "counted C k {} (sys_node S1 i)" using i(3) S1(2) by (auto simp: counted_def)
  have d1: "k \<notin> dead_block (sys_node S1 i)" using i(2) S1(2) by simp
  have "\<forall>j \<in> set (server_ids (cf_client_count C)). j \<in> client_ids C \<and> (\<exists>stub p. has_voted V L k j stub (sys_clients S1 j) \<and>
      stub_server (client_conf_of cc j) stub = Some p \<and> k \<notin> dead_block (sys_node S1 p))"
    using S1(2,3) stub unfolding set_server_ids by metis
  from votes_reach [OF ok i(1) R1 c1 d1 this] obtain S2 where S2: "sys_steps V L K C cc S1 S2" "onward k S1 S2"
    "counted C k (client_ids C) (sys_node S2 i)" by (auto simp: set_server_ids)
  have "queued k (sys_node S2 i)"
    by (rule counted_all [OF sys_facts(2) [OF ok sys_steps_reachable [OF S2(1) R1]] S2(3) n])
  then show ?thesis using rtranclp_trans [OF S1(1) S2(1)] S2(2) S1(2) by (intro exI [of _ S2]) (simp add: onward_def)
qed

text \<open>A server that has a block to merge commits it and announces it to all peers.\<close>

lemma commit_announced:
  assumes ok: "well_set_up V L K C" and S: "sys_reachable V L K C cc S" and lib: "shares_merge (vl_bls V) C (all_clients C)"
    and k: "queued k (sys_node S i)"
  shows "\<exists>s'. sys_steps V L K C cc S (set_sys_node i s' S) \<and> map_of (committed_blks s') k \<noteq> None
    \<and> (\<forall>t \<in> {1..cf_server_count C} - {i}. \<exists>req. (t, req) \<in> set (outbox s') \<and> announces (vl_bls V) L k req)"
proof -
  let ?n = "cf_server_count C"
  obtain s1 where s1: "sys_steps V L K C cc S (set_sys_node i s1 S)" "map_of (committed_blks s1) k \<noteq> None"
    "\<forall>t \<in> {1..?n} - {i}. \<exists>q. map_of (bcast_commit_blocks s1) t = Some q \<and> k \<in> block_id ` (!) (heap s1) ` set q"
    using merge_runs [OF ok S lib k] by blast
  let ?S1 = "set_sys_node i s1 S"
  note R1 = sys_steps_reachable [OF s1(1) S]
  have node1: "sys_node ?S1 i = s1" by simp
  obtain s2 where s2: "sys_steps V L K C cc ?S1 (set_sys_node i s2 ?S1)" "committed_blks s2 = committed_blks s1"
    and out: "\<forall>t \<in> {1..?n} - {i}. \<forall>q. map_of (bcast_commit_blocks s1) t = Some q \<longrightarrow> q \<noteq> [] \<longrightarrow>
      (t, SPBcastCommitRequest (ucast i) (map (Block_to_bytes L) (map ((!) (heap s1)) q)) 0) \<in> set (outbox s2)"
    using commits_go_out [OF ok R1, of i] unfolding node1 by (elim exE conjE)
  have "\<exists>req. (t, req) \<in> set (outbox s2) \<and> announces (vl_bls V) L k req" if t: "t \<in> {1..?n} - {i}" for t
  proof -
    obtain q where q: "map_of (bcast_commit_blocks s1) t = Some q" "k \<in> block_id ` (!) (heap s1) ` set q"
      using s1(3) t by blast
    have "\<forall>a \<in> set q. a \<in> decided s1" using q(1) by (auto simp: decided_def)
    then have "\<forall>b \<in> set (map ((!) (heap s1)) q). sendable (vl_bls V) b"
      using decided_votes(4) [OF ok R1, where i = i, unfolded node1] by simp
    moreover have "k \<in> block_id ` set (map ((!) (heap s1)) q)" using q(2) by simp
    ultimately have "announces (vl_bls V) L k (SPBcastCommitRequest (ucast i) (map (Block_to_bytes L) (map ((!) (heap s1)) q)) 0)"
      unfolding announces_def by blast
    moreover have "q \<noteq> []" using q(2) by auto
    ultimately show ?thesis using out q(1) t by blast
  qed
  moreover have "sys_steps V L K C cc S (set_sys_node i s2 S)" using rtranclp_trans [OF s1(1) s2(1)] by simp
  ultimately show ?thesis using s1(2) s2(2) by (intro exI [of _ s2]) simp
qed

lemma commits_everywhere:
  assumes ok: "well_set_up V L K C" and S: "sys_reachable V L K C cc S" and lib: "shares_merge (vl_bls V) C (all_clients C)"
    and part: "\<forall>j \<in> client_ids C. \<exists>stub p. takes_part V L k j stub (sys_clients S j) \<and>
      stub_server (client_conf_of cc j) stub = Some p \<and> k \<notin> dead_block (sys_node S p)"
    and i: "i \<in> responsible C k" "k \<notin> dead_block (sys_node S i)" "map_of (pending_blks (sys_node S i)) k \<noteq> None"
  shows "\<exists>S'. sys_steps V L K C cc S S' \<and> packed (m_net (sys_m S')) = packed (m_net (sys_m S))
    \<and> (\<forall>t \<in> {1..cf_server_count C}. map_of (pending_blks (sys_node S t)) k \<noteq> None \<longrightarrow> map_of (committed_blks (sys_node S' t)) k \<noteq> None)"
proof -
  obtain S1 where S1: "sys_steps V L K C cc S S1" "packed (m_net (sys_m S1)) = packed (m_net (sys_m S))" "queued k (sys_node S1 i)"
    "\<forall>t. held_number k (sys_node S t) \<longrightarrow> held_number k (sys_node S1 t)"
    using quorum_reached [OF ok S part i] by (elim exE conjE)
  note R1 = sys_steps_reachable [OF S1(1) S]
  obtain s2 where s2: "sys_steps V L K C cc S1 (set_sys_node i s2 S1)" "map_of (committed_blks s2) k \<noteq> None"
    "\<forall>t \<in> {1..cf_server_count C} - {i}. \<exists>req. (t, req) \<in> set (outbox s2) \<and> announces (vl_bls V) L k req"
    using commit_announced [OF ok R1 lib S1(3)] by (elim exE conjE)
  let ?S2 = "set_sys_node i s2 S1" and ?ts = "filter (\<lambda>t. held_number k (sys_node S1 t)) (peer_ids (cf_server_count C) i)"
  have ts: "distinct ?ts" "i \<notin> set ?ts" by (simp_all add: distinct_peer_ids set_peer_ids)
  have "\<forall>t \<in> set ?ts. held_number k (sys_node ?S2 t) \<and>
      (\<exists>req. (t, req) \<in> set (outbox (sys_node ?S2 i)) \<and> announces (vl_bls V) L k req)"
    using s2(3) by (auto simp: set_peer_ids)
  from commits_arrive [OF ok lib sys_steps_reachable [OF s2(1) R1] ts this]
  obtain S3 where S3: "sys_steps V L K C cc ?S2 S3" "packed (m_net (sys_m S3)) = packed (m_net (sys_m ?S2))"
    "\<forall>t \<in> set ?ts. map_of (committed_blks (sys_node S3 t)) k \<noteq> None" "\<forall>t. t \<notin> set ?ts \<longrightarrow> sys_node S3 t = sys_node ?S2 t"
    by (elim exE conjE)
  have "map_of (committed_blks (sys_node S3 t)) k \<noteq> None"
    if t: "t \<in> {1..cf_server_count C}" "map_of (pending_blks (sys_node S t)) k \<noteq> None" for t
  proof (cases "t = i")
    case True
    then show ?thesis using S3(4) s2(2) by (simp add: set_peer_ids)
  next
    case False
    then have "t \<in> set ?ts" using S1(4) t by (simp add: set_peer_ids held_number_def)
    then show ?thesis using S3(3) by blast
  qed
  moreover have "sys_steps V L K C cc S S3" using S1(1) s2(1) S3(1) by (meson rtranclp_trans)
  ultimately show ?thesis using S3(2) S1(2) by (intro exI [of _ S3]) simp
qed

subsection \<open>A sample run of the system\<close>

text \<open>
  Two servers and two clients. The first block is packed and relayed as in \<open>TC_Network\<close>; then each client
  registers with its first server and gets the block there.
\<close>

definition sample_system :: "(string \<rightharpoonup> string) system" where
  "sample_system = sys_initial ref_vote sample_keys (sample_conf 2) sample_cc (\<lambda>j. [9]) (\<lambda>j. Map.empty)"

abbreviation sample_steps :: "(string \<rightharpoonup> string) system \<Rightarrow> (string \<rightharpoonup> string) system \<Rightarrow> bool" where
  "sample_steps \<equiv> sys_steps ref_vote ref_flex sample_keys (sample_conf 2) sample_cc"

lemma sample_lib: "vl_bls ref_vote = ref_bls" "vl_sign ref_vote = ref_sign" "sign_spec ref_vote" "signs ref_vote sk j"
  by (simp_all add: ref_vote_def sign_spec_def signs_def ref_sign_def share_ok_def ref_bls_def)

lemma sample_relayed:
  "\<exists>S. sample_steps sample_system S \<and> sys_m S = \<lparr>m_net = run_both, threads = []\<rparr> \<and> sys_clients S = sys_clients sample_system"
proof -
  let ?C = "sample_conf 2" and ?K = sample_keys and ?ord = "\<lambda>ps :: (u64 \<times> Transaction) list. ps"
  let ?clk = "\<lambda>i :: nat. 9 :: u64"
  let ?at = "\<lambda>N. sample_system\<lparr>sys_m := \<lparr>m_net = N, threads = []\<rparr>\<rparr>"
  let ?N1 = "(set_node 2 run_packed run_start)\<lparr>packed := [run_block]\<rparr>"
  let ?N2 = "set_node 2 run_relayed ?N1"
  let ?as = "[Timer (PackStart ?ord ?clk sample_rng)]"
  have start: "?at run_start = sample_system"
    by (simp add: sample_system_def sys_initial_def run_start_def)
  have spawn: "spawns ?C (m_net \<lparr>m_net = run_start, threads = []\<rparr>) 2 ?as"
    using spawns.pack [of ?ord ?C run_start ?clk sample_rng] by (simp add: visits_all_def)
  have "packed run_start @ new_blocks (nodes run_start 2) run_packed = [run_block]"
    by (simp add: new_blocks_def run_packed_eq run_started) (simp add: run_start_def initial_def)
  moreover have "tsteps ref_bls ref_flex ?K ?C \<lparr>m_net = run_start, threads = [(2, ?as)]\<rparr>
      \<lparr>m_net = (set_node 2 run_packed run_start)\<lparr>packed := packed run_start @ new_blocks (nodes run_start 2) run_packed\<rparr>, threads = []\<rparr>"
    using spawn_pack(2) [OF spawn, where B = ref_bls and L = ref_flex and K = ?K, OF runs_pack_round] by (simp add: run_packed_def)
  ultimately have "tsteps (vl_bls ref_vote) ref_flex ?K ?C \<lparr>m_net = run_start, threads = [(2, ?as)]\<rparr> \<lparr>m_net = ?N1, threads = []\<rparr>"
    by (simp add: sample_lib)
  from tsteps_sys [OF this, of sample_cc sample_system]
  have "sample_steps (start_thread 2 ?as (?at run_start)) (?at ?N1)" by simp
  moreover have "sys_step ref_vote ref_flex ?K ?C sample_cc (?at run_start) (start_thread 2 ?as (?at run_start))"
    by (rule sys_step.background) (use spawn in simp_all)
  ultimately have 1: "sample_steps (?at run_start) (?at ?N1)" by (simp add: converse_rtranclp_into_rtranclp)
  have bg: "sample_steps (?at N) (?at (set_node i s' N))"
    if "spawns ?C N i as" and "runs ref_bls ref_flex ?K ?C as (nodes N i) (r, s')"
      and "\<forall>a \<in> set as. plain a \<and> (\<nexists>c bs. a = Client (VoteItem c bs))" for N i as r s'
    using sys_background [where S = "?at N" and C = ?C and i = i and as = as and V = ref_vote and L = ref_flex and K = ?K
      and r = "(r, s')" and cc = sample_cc] that by (simp add: sample_lib)
  have "runs ref_bls ref_flex ?K ?C (map Send (block_actions ?C (nodes ?N1 2))) (nodes ?N1 2) (None, run_relayed)"
    using runs_senders(3) [of ref_bls ref_flex ?K ?C "nodes ?N1 2"] run_relay by simp
  from bg [OF spawns.blocks_out this] have 2: "sample_steps (?at ?N1) (?at ?N2)" by auto
  let ?req = "RelayBlockRequest 2 [Block_to_bytes ref_flex run_block]"
  have "handle_peer ref_bls ref_flex ?C (\<lambda>j. 0) ?req r = relay_block_one run_block r" for r
    using handle_block_post(1) [OF ref_flex_spec, of "[run_block]" ref_bls] run_block_sendable
    by (simp add: run_block_stripped foreach_single del: foreach.simps)
  then have rn: "runs ref_bls ref_flex ?K ?C (map Peer (peer_actions (\<lambda>j. 0) ?req)) (nodes ?N2 1)
      (None, snd (relay_block_one run_block (nodes run_start 1)))"
    using runs_handle_peer [of ref_bls ref_flex ?K ?C "\<lambda>j. 0" ?req "nodes ?N2 1"] by (simp add: relay_block_one_effect)
  have out: "(1, ?req) \<in> set (outbox (nodes ?N2 2))" by (simp add: run_relayed_def)
  have "sample_steps (?at ?N2) (?at (set_node 1 (snd (relay_block_one run_block (nodes run_start 1))) ?N2))"
    by (rule bg [OF spawns.deliver [OF out] rn]) auto
  moreover have "set_node 1 (snd (relay_block_one run_block (nodes run_start 1))) ?N2 = run_both" by (simp add: run_both_def)
  ultimately have "sample_steps (?at ?N2) (?at run_both)" by simp
  then have "sample_steps sample_system (?at run_both)"
    using 1 2 unfolding start by (meson rtranclp_trans)
  then show ?thesis by (intro exI [of _ "?at run_both"]) simp
qed

lemma sample_shares:
  assumes "m < 2"
  shows "share_of (nodes run_both i) (of_nat (Suc m)) =
    Some (\<lparr>sk_share = m, sk_t = 2, sk_n = 2\<rparr>, \<lparr>pk_share = m, pk_t = 2, pk_n = 2\<rparr>)"
proof -
  have "share_of (nodes run_both i) = share_of (nodes run_start i)"
    using reachable_after [OF run_both_reachable, of i] by (simp add: after_def run_start_def)
  moreover have "share_of (nodes run_start i) (of_nat (Suc m)) =
      Some (\<lparr>sk_share = m, sk_t = 2, sk_n = 2\<rparr>, \<lparr>pk_share = m, pk_t = 2, pk_n = 2\<rparr>)"
    using assms by (auto simp: less_2_cases_iff run_start_def initial_def start_def init_server_def init_peer_stubs_def
        share_of_def sample_conf_def init_client_profile_def sample_keys_def add_client_def mk_client_def upt_rec
        chm_insert_def new_server_def Let_def)
  ultimately show ?thesis by simp
qed

lemma run_block_votable: "votable ref_vote run_block"
  using run_block_sendable by (simp add: votable_def sample_lib run_block_def entity_defs)

lemma sample_fresh: "j = 1 \<or> j = 2 \<Longrightarrow> fresh_client j (sys_clients sample_system j)"
  by (auto simp: fresh_client_def sample_system_def sys_initial_def TcClient_init_def conf_with_id_def sample_cc_def
      buffers_ok_def INT_MAX_def Let_def)

lemma sample_stubs:
  "stub_server (client_conf_of sample_cc 1) 0 = Some 1" "stub_server (client_conf_of sample_cc 2) 0 = Some 2"
  "stub_server (client_conf_of sample_cc 1) 1 = Some 2"
  by (simp_all add: stub_server_def server_select_def shadow_server_select_def conf_with_id_def sample_cc_def Let_def)

lemma sample_holding:
  "\<exists>S cs1 cs2. sample_steps sample_system S \<and> holds_block ref_vote 2000000 1 (sys_clients S 1) \<and>
     holds_block ref_vote 2000000 2 (sys_clients S 2) \<and> sys_m S = \<lparr>m_net = run_both\<lparr>nodes := (nodes run_both)
       (1 := (nodes run_both 1)\<lparr>clients := cs1\<rparr>, 2 := (nodes run_both 2)\<lparr>clients := cs2\<rparr>)\<rparr>, threads = []\<rparr>"
proof -
  let ?C = "sample_conf 2"
  obtain S0 where S0: "sample_steps sample_system S0" "sys_m S0 = \<lparr>m_net = run_both, threads = []\<rparr>"
    "sys_clients S0 = sys_clients sample_system"
    using sample_relayed by (elim exE conjE)
  have ids: "1 \<in> client_ids ?C" "2 \<in> client_ids ?C" by (simp_all add: sample_conf_def word_le_nat_alt)
  have lib: "kl_mk_pubkey sample_keys [9] = Inr [9]"
    "sl_sk_of_string (vl_sign ref_vote) (kl_sk_string sample_keys (fst key)) (cc_client_count sample_cc) (cc_client_count sample_cc) =
       Inr \<lparr>sk_share = unat (word_of_nat (sk_share (fst key)) :: byte), sk_t = 2, sk_n = 2\<rparr>"
    "kl_mk_pk sample_keys x (cc_client_count sample_cc) (cc_client_count sample_cc) = Inr \<lparr>pk_share = x, pk_t = 2, pk_n = 2\<rparr>" for key x
    by (simp_all add: sample_keys_def sample_lib ref_sign_def sample_cc_def)
  have blk: "map_of (pending_blks (nodes run_both 1)) 2000000 = Some 0" "deref (nodes run_both 1) 0 = Inr run_block"
    "map_of (pending_blks (nodes run_both 2)) 2000000 = Some 0" "deref (nodes run_both 2) 0 = Inr run_block"
    by (simp_all add: run_both_facts run_both_ready deref_def run_relayed_def run_packed_eq)
      (simp add: run_both_def relay_block_one_effect run_linked)
  have none: "map_of (votes run_block) j = None" for j by (simp add: run_block_id)
  have gets: "\<exists>S' cs. sample_steps S S' \<and> holds_block ref_vote 2000000 (ucast j) (sys_clients S' j)
      \<and> sys_m S' = (sys_m S)\<lparr>m_net := set_node i ((sys_node S i)\<lparr>clients := cs\<rparr>) (m_net (sys_m S))\<rparr>
      \<and> (\<forall>j'. j' \<noteq> j \<longrightarrow> sys_clients S' j' = sys_clients S j')"
    if "j \<in> client_ids ?C" "stub_server (client_conf_of sample_cc j) 0 = Some i" "fresh_client j (sys_clients S j)"
      "sys_node S i = nodes run_both i" "share_of (nodes run_both i) j = Some key"
      "map_of (pending_blks (nodes run_both i)) 2000000 = Some 0" "deref (nodes run_both i) 0 = Inr run_block" for S i j key
    by (rule client_gets_block [OF ref_flex_spec that(1-3) _ lib sample_lib(4) _ _ run_block_id(1) run_block_votable none])
      (use that in simp_all)
  obtain S1 cs1 where S1: "sample_steps S0 S1" "holds_block ref_vote 2000000 1 (sys_clients S1 1)"
    "sys_m S1 = \<lparr>m_net = set_node 1 ((nodes run_both 1)\<lparr>clients := cs1\<rparr>) run_both, threads = []\<rparr>"
    "\<forall>j'. j' \<noteq> 1 \<longrightarrow> sys_clients S1 j' = sys_clients S0 j'"
    using gets [OF ids(1) sample_stubs(1), of S0] sample_fresh [of 1] sample_shares [of 0 1] blk S0 by auto
  obtain S2 cs2 where S2: "sample_steps S1 S2" "holds_block ref_vote 2000000 2 (sys_clients S2 2)"
    "sys_m S2 = \<lparr>m_net = set_node 2 ((nodes run_both 2)\<lparr>clients := cs2\<rparr>) (m_net (sys_m S1)), threads = []\<rparr>"
    "\<forall>j'. j' \<noteq> 2 \<longrightarrow> sys_clients S2 j' = sys_clients S1 j'"
    using gets [OF ids(2) sample_stubs(2), of S1] sample_fresh [of 2] sample_shares [of 1 2] blk S0 S1 by auto
  have "sample_steps sample_system S2" using S0(1) S1(1) S2(1) by (meson rtranclp_trans)
  then show ?thesis
    using S1 S2 by (intro exI [of _ S2] exI [of _ cs1] exI [of _ cs2]) simp
qed

lemma sample_reachable: "sample_steps sample_system S \<Longrightarrow> sys_reachable ref_vote ref_flex sample_keys (sample_conf 2) sample_cc S"
  by (erule sys_steps_reachable) (simp add: sample_system_def sys_reachable.start)

lemma sample_counts:
  "cf_client_count (sample_conf 2) = 2" "int (unat (cf_client_count (sample_conf 2))) \<le> INT_MAX" "cf_client_count (sample_conf 2) \<noteq> 0"
  "cf_server_count (sample_conf 2) \<noteq> 0" "cf_server_count (sample_conf 2) \<noteq> - 1"
  by (simp_all add: sample_conf_def INT_MAX_def)

lemma sample_merges: "shares_merge (vl_bls ref_vote) (sample_conf 2) (map ucast (server_ids (cf_client_count (sample_conf 2))))"
  unfolding shares_merge_def sample_lib by (auto intro!: ref_mergeable)

text \<open>The state before the clients vote.\<close>

lemma sample_ready:
  "\<exists>S. sys_reachable ref_vote ref_flex sample_keys (sample_conf 2) sample_cc S \<and> packed (m_net (sys_m S)) = [run_block]
    \<and> (\<forall>j \<in> {1..cf_client_count (sample_conf 2)}. \<exists>stub p. takes_part ref_vote ref_flex 2000000 j stub (sys_clients S j) \<and>
         stub_server (conf_with_id (ucast j) sample_cc) stub = Some p \<and> 2000000 \<notin> dead_block (sys_node S p))
    \<and> 2000000 \<notin> dead_block (sys_node S 2) \<and> map_of (pending_blks (sys_node S 2)) 2000000 = Some 0
    \<and> map_of (pending_blks (sys_node S 1)) 2000000 = Some 0 \<and> heap (sys_node S 2) ! 0 = run_block"
proof -
  obtain S cs1 cs2 where S: "sample_steps sample_system S" "holds_block ref_vote 2000000 1 (sys_clients S 1)"
    "holds_block ref_vote 2000000 2 (sys_clients S 2)" and m: "sys_m S = \<lparr>m_net = run_both\<lparr>nodes := (nodes run_both)
       (1 := (nodes run_both 1)\<lparr>clients := cs1\<rparr>, 2 := (nodes run_both 2)\<lparr>clients := cs2\<rparr>)\<rparr>, threads = []\<rparr>"
    using sample_holding by (elim exE conjE)
  have dead: "2000000 \<notin> dead_block (sys_node S 1)" "2000000 \<notin> dead_block (sys_node S 2)"
    using run_both_ready(1) by (simp_all add: m)
      (simp add: run_both_def relay_block_one_effect run_start_def initial_def start_def init_server_def Let_def
        init_client_profile_def sample_keys_def sample_conf_def add_client_def mk_client_def upt_rec init_peer_stubs_def new_server_def)
  have two: "j = 1 \<or> j = 2" if "j \<in> {1..cf_client_count (sample_conf 2)}" for j
  proof -
    have "1 \<le> unat j" "unat j \<le> 2" using that by (simp_all add: sample_counts word_le_nat_alt)
    then have "unat j = 1 \<or> unat j = 2" by linarith
    then show ?thesis by (auto simp: word_unat_eq_iff)
  qed
  have "\<exists>stub p. takes_part ref_vote ref_flex 2000000 j stub (sys_clients S j) \<and>
         stub_server (conf_with_id (ucast j) sample_cc) stub = Some p \<and> 2000000 \<notin> dead_block (sys_node S p)"
    if "j \<in> {1..cf_client_count (sample_conf 2)}" for j
    using two [OF that]
  proof
    assume "j = 1"
    then show ?thesis using S(2) sample_stubs(1) dead(1) by (intro exI [of _ 0] exI [of _ 1]) (simp add: takes_part_def)
  next
    assume "j = 2"
    then show ?thesis using S(3) sample_stubs(2) dead(2) by (intro exI [of _ 0] exI [of _ 2]) (simp add: takes_part_def)
  qed
  moreover have "heap (nodes run_both 2) ! 0 = run_block" by (simp add: run_both_facts run_relayed_def run_packed_eq)
  ultimately show ?thesis
    using sample_reachable [OF S(1)] run_both_ready(3) run_both_facts(2,3) dead(2)
    by (intro exI [of _ S]) (simp add: m)
qed

lemma sample_set_up: "well_set_up ref_vote ref_flex sample_keys (sample_conf 2)"
  using bls_ctor_ref ref_flex_spec sample_start_ok sample_counts by (simp add: well_set_up_def sample_lib)

lemma sample_committed:
  "\<exists>S a. sys_reachable ref_vote ref_flex sample_keys (sample_conf 2) sample_cc S \<and> packed (m_net (sys_m S)) = [run_block]
     \<and> map_of (committed_blks (sys_node S 2)) 2000000 = Some a"
proof -
  obtain S where S: "sys_reachable ref_vote ref_flex sample_keys (sample_conf 2) sample_cc S"
    "packed (m_net (sys_m S)) = [run_block]"
    "\<forall>j \<in> {1..cf_client_count (sample_conf 2)}. \<exists>stub p. takes_part ref_vote ref_flex 2000000 j stub (sys_clients S j) \<and>
         stub_server (conf_with_id (ucast j) sample_cc) stub = Some p \<and> 2000000 \<notin> dead_block (sys_node S p)"
    "2000000 \<notin> dead_block (sys_node S 2)" "map_of (pending_blks (sys_node S 2)) 2000000 = Some 0"
    using sample_ready by (elim exE conjE)
  have "map_of (pending_blks (sys_node S 2)) 2000000 \<noteq> None" using S(5) by simp
  from commits_everywhere [OF sample_set_up S(1) sample_merges S(3) run_both_ready(2) S(4) this] S(5)
  obtain S' where "sample_steps S S'" "packed (m_net (sys_m S')) = packed (m_net (sys_m S))"
    "map_of (committed_blks (sys_node S' 2)) 2000000 \<noteq> None"
    by (fastforce simp: sample_conf_def word_le_nat_alt)
  then show ?thesis using sys_steps_reachable [OF _ S(1)] S(2) by auto
qed

subsection \<open>Unanimity\<close>

text \<open>
  C3: unanimity. However the threads of the servers and of the clients are interleaved, a committed block carries the votes of exactly the
  clients \<open>1\<close> to \<open>n\<close>, and each of these votes is the signature, with the share that the client's
  first server made for it at start-up, of a copy of this block with the same number, base, proposal time and
  transactions.
\<close>

theorem committed_signed_by_all:
  assumes "bls_ctor_spec (vl_bls V)" and "flexlib_spec L" and "sign_spec V" and "unat (cf_client_count C) < 2 ^ 32"
    and "sys_reachable V L K C cc S" and "length (packed (m_net (sys_m S))) \<le> 2 ^ 64"
    and "map_of (committed_blks (nodes (m_net (sys_m S)) i)) k = Some a"
  shows "dom (map_of (votes (heap (nodes (m_net (sys_m S)) i) ! a))) = {1..cf_client_count C}
    \<and> (\<forall>j v. map_of (votes (heap (nodes (m_net (sys_m S)) i) ! a)) j = Some v \<longrightarrow>
        (\<exists>b sk. core b = core (heap (nodes (m_net (sys_m S)) i) ! a) \<and> issued V K C cc j sk \<and> signed_vote V sk j b v))"
proof -
  let ?s = "sys_node S i"
  have "interleaved (vl_bls V) L K C (sys_m S)" using sys_inv_reachable [OF assms(1-5)] by (simp add: sys_inv_def)
  note inv = net_inv_interleaved [OF assms(1,2) this]
  note quorum = committed_quorum [OF inv assms(7)]
  note all = quorum_unanimous [OF assms(1-5) quorum(1,3)]
  have "\<exists>b sk. core b = core (heap ?s ! a) \<and> issued V K C cc j sk \<and> signed_vote V sk j b v"
    if jv: "map_of (votes (heap ?s ! a)) j = Some v" for j v
  proof -
    obtain b sk where b: "core b \<in> sys_cores S" "block_id b = k" "issued V K C cc j sk" "signed_vote V sk j b v"
      using all(2) [OF jv] quorum(2) by (auto simp: genuine_def)
    have "core b = core (heap ?s ! a)"
      using packed_cores_unique [OF inv assms(6) b(1) quorum(4)] b(2) quorum(2) by simp
    with b show ?thesis by blast
  qed
  with all(1) show ?thesis by blast
qed

theorem committed_signed_by_all_witness:
  "\<exists>S a. sys_reachable ref_vote ref_flex sample_keys (sample_conf 2) sample_cc S
     \<and> map_of (committed_blks (nodes (m_net (sys_m S)) 2)) 2000000 = Some a
     \<and> dom (map_of (votes (heap (nodes (m_net (sys_m S)) 2) ! a))) = {1..2}
     \<and> (\<exists>b sk v. issued ref_vote sample_keys (sample_conf 2) sample_cc 1 sk \<and> signed_vote ref_vote sk 1 b v)"
proof -
  obtain S a where S: "sys_reachable ref_vote ref_flex sample_keys (sample_conf 2) sample_cc S"
    "packed (m_net (sys_m S)) = [run_block]" "map_of (committed_blks (nodes (m_net (sys_m S)) 2)) 2000000 = Some a"
    using sample_committed by (elim exE conjE)
  have n: "unat (cf_client_count (sample_conf 2)) < 2 ^ 32" "length (packed (m_net (sys_m S))) \<le> 2 ^ 64"
    by (simp_all add: sample_counts S(2))
  note all = committed_signed_by_all [OF bls_ctor_ref [folded sample_lib(1)] ref_flex_spec sample_lib(3) n(1) S(1) n(2) S(3)]
  have "dom (map_of (votes (heap (nodes (m_net (sys_m S)) 2) ! a))) = {1..2}" using all by (simp add: sample_counts)
  moreover from this have "(1 :: u64) \<in> dom (map_of (votes (heap (nodes (m_net (sys_m S)) 2) ! a)))"
    by (simp add: word_le_nat_alt)
  then obtain v where "map_of (votes (heap (nodes (m_net (sys_m S)) 2) ! a)) 1 = Some v" by blast
  ultimately show ?thesis using all S(1,3) by blast
qed

subsection \<open>Progress\<close>

text \<open>
  C6: progress of the whole system. In every reachable state, when a block is pending at a server responsible for it
  and every client either has voted for it at one of its two servers or has got it and is ready to sign, the
  system can go on to a state in which every server where the block was pending has committed
  it, with the same contents and the votes of exactly the clients. It does not matter which servers
  the clients are connected to: a server that is not responsible for the block relays their votes.
\<close>

theorem system_commits:
  assumes "bls_ctor_spec (vl_bls V)" and "flexlib_spec L" and "sign_spec V" and "start_ok K C"
    and "cf_server_count C \<noteq> 0" and "cf_server_count C \<noteq> - 1" and "cf_client_count C \<noteq> 0"
    and "int (unat (cf_client_count C)) \<le> INT_MAX"
    and "shares_merge (vl_bls V) C (map ucast (server_ids (cf_client_count C)))"
    and "sys_reachable V L K C cc S" and "length (packed (m_net (sys_m S))) \<le> 2 ^ 64"
    and "\<forall>j \<in> {1..cf_client_count C}. \<exists>stub p. takes_part V L k j stub (sys_clients S j) \<and>
      stub_server (conf_with_id (ucast j) cc) stub = Some p \<and> k \<notin> dead_block (nodes (m_net (sys_m S)) p)"
    and "i \<in> responsible C k" and "k \<notin> dead_block (nodes (m_net (sys_m S)) i)"
    and "map_of (pending_blks (nodes (m_net (sys_m S)) i)) k = Some a"
  shows "\<exists>S'. sys_steps V L K C cc S S' \<and>
    (\<forall>t \<in> {1..cf_server_count C}. map_of (pending_blks (nodes (m_net (sys_m S)) t)) k \<noteq> None \<longrightarrow>
      (\<exists>a'. map_of (committed_blks (nodes (m_net (sys_m S')) t)) k = Some a' \<and>
         core (heap (nodes (m_net (sys_m S')) t) ! a') = core (heap (nodes (m_net (sys_m S)) i) ! a) \<and>
         dom (map_of (votes (heap (nodes (m_net (sys_m S')) t) ! a'))) = {1..cf_client_count C}))"
proof -
  have ok: "well_set_up V L K C" using assms(1-8) by (simp add: well_set_up_def)
  have "map_of (pending_blks (sys_node S i)) k \<noteq> None" using assms(15) by simp
  from commits_everywhere [OF ok assms(10,9,12-14) this] obtain S' where S': "sys_steps V L K C cc S S'"
    "packed (m_net (sys_m S')) = packed (m_net (sys_m S))"
    "\<forall>t \<in> {1..cf_server_count C}. map_of (pending_blks (sys_node S t)) k \<noteq> None \<longrightarrow> map_of (committed_blks (sys_node S' t)) k \<noteq> None"
    by (elim exE conjE)
  note R = sys_steps_reachable [OF S'(1) assms(10)]
  note inv = sys_facts(1) [OF ok assms(10)] and inv' = sys_facts(1) [OF ok R]
  have blk: "core (heap (sys_node S i) ! a) \<in> sys_cores S" "block_id (heap (sys_node S i) ! a) = k"
    using server_wf_pending [OF sys_facts(2) [OF ok assms(10)] assms(15)] net_inv_node [OF inv, of i]
    by (simp_all add: server_inv_def)
  have "core (heap (sys_node S' t) ! a') = core (heap (sys_node S i) ! a) \<and>
      dom (map_of (votes (heap (sys_node S' t) ! a'))) = client_ids C"
    if "map_of (committed_blks (sys_node S' t)) k = Some a'" for t a'
  proof -
    note quorum = committed_quorum [OF inv' that]
    have "core (heap (sys_node S' t) ! a') = core (heap (sys_node S i) ! a)"
      using packed_cores_unique [OF inv' _ quorum(4), of "heap (sys_node S i) ! a"] S'(2) assms(11) blk quorum(2) by simp
    then show ?thesis using quorum_unanimous(1) [OF assms(1-3) well_set_up_small [OF ok] R quorum(1,3)] by simp
  qed
  note all = this
  show ?thesis
  proof (intro exI [of _ S'] conjI ballI impI)
    fix t assume "t \<in> {1..cf_server_count C}" and "map_of (pending_blks (sys_node S t)) k \<noteq> None"
    then obtain a' where a': "map_of (committed_blks (sys_node S' t)) k = Some a'" using S'(3) by blast
    then show "\<exists>a'. map_of (committed_blks (sys_node S' t)) k = Some a' \<and>
         core (heap (sys_node S' t) ! a') = core (heap (sys_node S i) ! a) \<and>
         dom (map_of (votes (heap (sys_node S' t) ! a'))) = client_ids C" using all [OF a'] by (intro exI conjI)  blast+
  qed (rule S'(1))
qed

theorem system_commits_witness:
  "\<exists>S S' a. sys_reachable ref_vote ref_flex sample_keys (sample_conf 2) sample_cc S
     \<and> sys_steps ref_vote ref_flex sample_keys (sample_conf 2) sample_cc S S'
     \<and> map_of (committed_blks (nodes (m_net (sys_m S')) 1)) 2000000 = Some a
     \<and> core (heap (nodes (m_net (sys_m S')) 1) ! a) = core run_block"
proof -
  obtain S where S: "sys_reachable ref_vote ref_flex sample_keys (sample_conf 2) sample_cc S"
    "packed (m_net (sys_m S)) = [run_block]"
    "\<forall>j \<in> {1..cf_client_count (sample_conf 2)}. \<exists>stub p. takes_part ref_vote ref_flex 2000000 j stub (sys_clients S j) \<and>
         stub_server (conf_with_id (ucast j) sample_cc) stub = Some p \<and> 2000000 \<notin> dead_block (sys_node S p)"
    "2000000 \<notin> dead_block (sys_node S 2)" "map_of (pending_blks (sys_node S 2)) 2000000 = Some 0"
    "map_of (pending_blks (sys_node S 1)) 2000000 = Some 0" "heap (sys_node S 2) ! 0 = run_block"
    using sample_ready by (elim exE conjE)
  have n: "length (packed (m_net (sys_m S))) \<le> 2 ^ 64" by (simp add: S(2))
  have one: "(1 :: u64) \<in> {1..cf_server_count (sample_conf 2)}" by (simp add: sample_conf_def word_le_nat_alt)
  have pend: "map_of (pending_blks (sys_node S 1)) 2000000 \<noteq> None" using S(6) by simp
  obtain S' where S': "sample_steps S S'" "\<forall>t \<in> {1..cf_server_count (sample_conf 2)}.
      map_of (pending_blks (sys_node S t)) 2000000 \<noteq> None \<longrightarrow>
      (\<exists>a'. map_of (committed_blks (sys_node S' t)) 2000000 = Some a' \<and>
         core (heap (sys_node S' t) ! a') = core (heap (sys_node S 2) ! 0) \<and>
         dom (map_of (votes (heap (sys_node S' t) ! a'))) = {1..cf_client_count (sample_conf 2)})"
    using system_commits [OF bls_ctor_ref [folded sample_lib(1)] ref_flex_spec sample_lib(3) sample_start_ok sample_counts(4,5,3,2)
      sample_merges S(1) n S(3) run_both_ready(2) S(4,5)] by (elim exE conjE)
  obtain a where "map_of (committed_blks (sys_node S' 1)) 2000000 = Some a" "core (heap (sys_node S' 1) ! a) = core run_block"
    using mp [OF bspec [OF S'(2) one] pend] unfolding S(7) by (elim exE conjE)
  with S(1) S'(1) show ?thesis by (intro exI conjI)
qed

end
