(* ===== verification/TC_Locks.thy ===== *)
theory TC_Locks
  imports TC_Prelude
begin

text \<open>
  The locks of a server: the mutex \<open>pb_sm_1\<close> of \<open>pending_blks\<close>, which readers share, the
  accessors of the entries of \<open>pending_blks\<close>, \<open>committed_blks\<close>, \<open>clients\<close> and of the blocks a client
  has seen, and \<open>db_mutex\<close>. For every handler and timer that takes any of them,
  \<open>lock_trace\<close> lists its acquisitions and releases in the order of the code, the branches
  taken being arguments.

  A state has for each thread the locks it holds and what it still has to do; \<open>Arrive\<close> is the
  moment its call comes in. \<open>lstep\<close> lets any thread take its next lock when no other thread holds it in a conflicting mode. The
  standard does not say whether a waiting writer holds up new readers of a
  \<open>std::shared_mutex\<close>; this is the argument \<open>policy\<close> of \<open>lstep\<close>. With readers
  preferred, as glibc does, no set of calls can deadlock and every run ends. With waiting writers
  preferred, two votes for one block and one pull can deadlock.
\<close>

subsection \<open>Lock traces of the handlers\<close>

datatype lock =
    PbMutex
  | Pb u64
  | Cb u64
  | DbMutex
  | Cl u64
  | Seen u64 u64

datatype mode = Shared | Exclusive

datatype lock_op = Arrive | Acquire lock mode | Release lock

definition vote_locks :: "u64 \<Rightarrow> bool \<Rightarrow> bool \<Rightarrow> lock_op list" where
  "vote_locks k found enough =
     [Acquire PbMutex Shared] @
     (if found
      then [Acquire (Pb k) Exclusive, Release PbMutex] @
           (if enough then [Acquire PbMutex Shared, Release (Pb k), Release PbMutex] else [Release (Pb k)])
      else [Release PbMutex])"

definition store_locks :: "u64 \<Rightarrow> lock_op list" where
  "store_locks k = [Acquire PbMutex Shared, Acquire (Pb k) Exclusive, Release PbMutex, Release (Pb k)]"

definition commit_locks :: "u64 \<Rightarrow> bool \<Rightarrow> bool \<Rightarrow> lock_op list" where
  "commit_locks k found use_rocksdb =
     [Acquire PbMutex Shared] @
     (if found
      then [Acquire (Pb k) Exclusive, Release PbMutex, Acquire (Cb k) Exclusive] @
           (if use_rocksdb then [Acquire DbMutex Exclusive, Release DbMutex] else []) @
           [Acquire PbMutex Shared, Release (Pb k), Release PbMutex, Release (Cb k)]
      else [Release PbMutex])"

definition merge_locks :: "u64 \<Rightarrow> lock_op list" where
  "merge_locks k = [Acquire (Cb k) Exclusive, Acquire DbMutex Exclusive, Release DbMutex, Release (Cb k)]"

definition dead_locks :: "u64 \<Rightarrow> bool \<Rightarrow> lock_op list" where
  "dead_locks k found =
     [Acquire PbMutex Shared] @ (if found then [Acquire (Pb k) Exclusive, Release (Pb k)] else []) @ [Release PbMutex]"

definition copy_locks :: "lock_op list" where
  "copy_locks = [Acquire PbMutex Exclusive, Release PbMutex]"

definition size_locks :: "lock_op list" where
  "size_locks = [Acquire PbMutex Shared, Release PbMutex]"

text \<open>
  \<open>find\<close> of an accessor releases what the accessor held before; \<open>prev\<close> is the entry that the
  accessor of \<open>GetBlocks\<close>, which lives outside the loop, still holds.
\<close>

fun get_locks :: "u64 option \<Rightarrow> (u64 \<times> bool) list \<Rightarrow> lock_op list" where
  "get_locks prev [] = (case prev of None \<Rightarrow> [] | Some k \<Rightarrow> [Release (Pb k)])"
| "get_locks prev ((k, found) # hdrs) =
     [Acquire PbMutex Shared] @ (case prev of None \<Rightarrow> [] | Some k' \<Rightarrow> [Release (Pb k')]) @
     (if found then [Acquire (Pb k) Shared] else []) @ [Release PbMutex] @
     get_locks (if found then Some k else None) hdrs"

fun pull_locks :: "u64 \<Rightarrow> bool \<Rightarrow> (u64 \<times> bool \<times> bool) list \<Rightarrow> lock_op list" where
  "pull_locks client holds [] = (if holds then [Release (Cl client)] else [])"
| "pull_locks client holds ((k, synced, seen) # entries) =
     (if synced
      then (if holds then [Release (Cl client)] else []) @ [Acquire (Cl client) Shared] @
           (if seen then [Acquire (Seen client k) Exclusive, Release (Seen client k)] else [Release (Cl client)]) @
           pull_locks client seen entries
      else pull_locks client holds entries)"

definition register_locks :: "u64 \<Rightarrow> lock_op list" where
  "register_locks client = [Acquire (Cl client) Exclusive, Release (Cl client)]"

datatype lock_user =
    VotesCall "(u64 \<times> bool \<times> bool) list"
  | BlocksCall "u64 list"
  | CommitsCall "(u64 \<times> bool \<times> bool) list"
  | GetCall "(u64 \<times> bool) list"
  | PullCall u64 "(u64 \<times> bool \<times> bool) list"
  | RegisterCall u64
  | MergeRound "u64 list"
  | DeadRound "(u64 \<times> bool) list"
  | PackRound "u64 list"
  | CountRound

fun lock_trace :: "lock_user \<Rightarrow> lock_op list" where
  "lock_trace (VotesCall items) = concat (map (\<lambda>(k, found, enough). vote_locks k found enough) items)"
| "lock_trace (BlocksCall ks) = concat (map store_locks ks)"
| "lock_trace (CommitsCall items) = concat (map (\<lambda>(k, found, db). commit_locks k found db) items)"
| "lock_trace (GetCall hdrs) = get_locks None hdrs"
| "lock_trace (PullCall client entries) = copy_locks @ pull_locks client False entries"
| "lock_trace (RegisterCall client) = register_locks client"
| "lock_trace (MergeRound ks) = concat (map merge_locks ks)"
| "lock_trace (DeadRound items) = copy_locks @ concat (map (\<lambda>(k, found). dead_locks k found) items)"
| "lock_trace (PackRound ks) = size_locks @ concat (map store_locks ks)"
| "lock_trace CountRound = copy_locks"

subsection \<open>Threads that take locks\<close>

type_synonym holding = "(lock \<times> mode) list"
type_synonym lock_state = "(holding \<times> lock_op list) list"

definition start_locks :: "lock_user list \<Rightarrow> lock_state" where
  "start_locks users = map (\<lambda>u. ([], Arrive # lock_trace u)) users"

fun conflict :: "mode \<Rightarrow> mode \<Rightarrow> bool" where
  "conflict Shared Shared = False"
| "conflict m m' = True"

definition available :: "lock \<Rightarrow> mode \<Rightarrow> nat \<Rightarrow> lock_state \<Rightarrow> bool" where
  "available l m i st \<longleftrightarrow>
     (\<forall>j < length st. j \<noteq> i \<longrightarrow> (\<forall>(l', m') \<in> set (fst (st ! j)). l' = l \<longrightarrow> \<not> conflict m m'))"

inductive lstep :: "(lock \<Rightarrow> mode \<Rightarrow> nat \<Rightarrow> lock_state \<Rightarrow> bool) \<Rightarrow> lock_state \<Rightarrow> lock_state \<Rightarrow> bool"
  for policy :: "lock \<Rightarrow> mode \<Rightarrow> nat \<Rightarrow> lock_state \<Rightarrow> bool" where
  arrive: "i < length st \<Longrightarrow> st ! i = (hs, Arrive # ops) \<Longrightarrow> lstep policy st (st[i := (hs, ops)])"
| acquire: "i < length st \<Longrightarrow> st ! i = (hs, Acquire l m # ops) \<Longrightarrow> available l m i st \<Longrightarrow> policy l m i st \<Longrightarrow>
    lstep policy st (st[i := ((l, m) # hs, ops)])"
| release: "i < length st \<Longrightarrow> st ! i = (hs, Release l # ops) \<Longrightarrow>
    lstep policy st (st[i := (filter (\<lambda>h. fst h \<noteq> l) hs, ops)])"

inductive_cases lstep_cases: "lstep policy st st'"

definition prefer_readers :: "lock \<Rightarrow> mode \<Rightarrow> nat \<Rightarrow> lock_state \<Rightarrow> bool" where
  "prefer_readers l m i st = True"

fun waits_for_mutex :: "holding \<times> lock_op list \<Rightarrow> bool" where
  "waits_for_mutex (hs, Acquire PbMutex Exclusive # ops) = True"
| "waits_for_mutex t = False"

definition prefer_writers :: "lock \<Rightarrow> mode \<Rightarrow> nat \<Rightarrow> lock_state \<Rightarrow> bool" where
  "prefer_writers l m i st \<longleftrightarrow>
     \<not> (l = PbMutex \<and> m = Shared \<and> (\<exists>j < length st. j \<noteq> i \<and> waits_for_mutex (st ! j)))"

subsection \<open>The order of the locks\<close>

text \<open>What a thread may hold when it asks for a lock.\<close>

fun may_ask :: "holding \<Rightarrow> lock \<Rightarrow> mode \<Rightarrow> bool" where
  "may_ask hs PbMutex Shared = (\<forall>h \<in> set hs. case fst h of Pb k \<Rightarrow> True | Cb k \<Rightarrow> True | _ \<Rightarrow> False)"
| "may_ask hs PbMutex Exclusive = (hs = [])"
| "may_ask hs (Pb k) m = (\<forall>h \<in> set hs. h = (PbMutex, Shared))"
| "may_ask hs (Cb k) m = (\<forall>h \<in> set hs. case fst h of Pb k' \<Rightarrow> True | _ \<Rightarrow> False)"
| "may_ask hs DbMutex m = (\<forall>h \<in> set hs. case fst h of Pb k' \<Rightarrow> True | Cb k' \<Rightarrow> True | _ \<Rightarrow> False)"
| "may_ask hs (Cl c) m = (hs = [])"
| "may_ask hs (Seen c k) m = (\<forall>h \<in> set hs. case fst h of Cl c' \<Rightarrow> True | _ \<Rightarrow> False)"

fun disciplined :: "holding \<Rightarrow> lock_op list \<Rightarrow> bool" where
  "disciplined hs [] = (hs = [])"
| "disciplined hs (Arrive # ops) = disciplined hs ops"
| "disciplined hs (Acquire l m # ops) = (may_ask hs l m \<and> disciplined ((l, m) # hs) ops)"
| "disciplined hs (Release l # ops) = disciplined (filter (\<lambda>h. fst h \<noteq> l) hs) ops"

fun rank :: "lock \<Rightarrow> mode \<Rightarrow> nat" where
  "rank PbMutex Exclusive = 0"
| "rank (Pb k) m = 1"
| "rank (Cb k) m = 2"
| "rank DbMutex m = 3"
| "rank PbMutex Shared = 3"
| "rank (Cl c) m = 0"
| "rank (Seen c k) m = 1"

lemma rank_bound: "rank l m \<le> 3"
  by (cases "(l, m)" rule: rank.cases) simp_all

text \<open>Who holds a lock that another asks for in vain asks for a lock of higher rank.\<close>

lemma conflict_Shared [simp]: "conflict m Shared \<longleftrightarrow> m = Exclusive"
  by (cases m) simp_all

lemma ask_higher:
  assumes "(l, m') \<in> set hs" and "conflict m m'" and "may_ask hs l2 m2"
  shows "rank l m < rank l2 m2"
  using assms(3,1,2)
proof (cases "(hs, l2, m2)" rule: may_ask.cases)
  case (3 hs k m)
  then show ?thesis using assms by fastforce
qed (cases l; auto dest!: bspec)+

lemma disciplined_append: "disciplined hs ops \<Longrightarrow> disciplined [] ops' \<Longrightarrow> disciplined hs (ops @ ops')"
  by (induction hs ops rule: disciplined.induct) auto

lemma disciplined_concat: "\<forall>ops \<in> set xs. disciplined [] ops \<Longrightarrow> disciplined [] (concat xs)"
  by (induction xs) (auto intro: disciplined_append)

lemma disciplined_get:
  "disciplined (case prev of None \<Rightarrow> [] | Some k \<Rightarrow> [(Pb k, Shared)]) (get_locks prev hdrs)"
  by (induction prev hdrs rule: get_locks.induct) (auto split: option.splits if_splits)

lemma disciplined_pull: "disciplined (if holds then [(Cl c, Shared)] else []) (pull_locks c holds entries)"
  by (induction c holds entries rule: pull_locks.induct) (auto split: if_splits)

lemma disciplined_trace: "disciplined [] (lock_trace u)"
proof (cases u)
  case (GetCall hdrs)
  then show ?thesis using disciplined_get [of None hdrs] by simp
next
  case (PullCall c entries)
  then show ?thesis using disciplined_pull [of False c entries] by (simp add: copy_locks_def)
qed (auto simp: vote_locks_def store_locks_def commit_locks_def merge_locks_def dead_locks_def copy_locks_def
    size_locks_def register_locks_def intro!: disciplined_concat)

subsection \<open>Progress\<close>

definition disciplined_all :: "lock_state \<Rightarrow> bool" where
  "disciplined_all st \<longleftrightarrow> (\<forall>t \<in> set st. disciplined (fst t) (snd t))"

lemma disciplined_start: "disciplined_all (start_locks users)"
  by (simp add: disciplined_all_def start_locks_def disciplined_trace)

lemma disciplined_update:
  "disciplined_all st \<Longrightarrow> disciplined hs ops \<Longrightarrow> disciplined_all (st[i := (hs, ops)])"
  unfolding disciplined_all_def using set_update_subset_insert [of st i "(hs, ops)"] by fastforce

lemma disciplined_nth: "disciplined_all st \<Longrightarrow> i < length st \<Longrightarrow> st ! i = (hs, ops) \<Longrightarrow> disciplined hs ops"
  unfolding disciplined_all_def using nth_mem by fastforce

lemma disciplined_step: "lstep policy st st' \<Longrightarrow> disciplined_all st \<Longrightarrow> disciplined_all st'"
  by (induction rule: lstep.induct) (auto intro!: disciplined_update dest: disciplined_nth)

lemma disciplined_steps: "(lstep policy)\<^sup>*\<^sup>* st st' \<Longrightarrow> disciplined_all st \<Longrightarrow> disciplined_all st'"
  by (induction rule: rtranclp_induct) (auto intro: disciplined_step)

text \<open>
  The number of lock operations still to do. Every step does one of them.
\<close>

definition work :: "lock_state \<Rightarrow> nat" where
  "work st = sum_list (map (length \<circ> snd) st)"

lemma work_update: "i < length st \<Longrightarrow> st ! i = (hs, op # ops) \<Longrightarrow> Suc (work (st[i := (hs', ops)])) = work st"
proof (induction st arbitrary: i)
  case (Cons t st)
  then show ?case by (cases i) (simp_all add: work_def)
qed simp

lemma lstep_work: "lstep policy st st' \<Longrightarrow> Suc (work st') = work st"
  by (induction rule: lstep.induct) (simp_all add: work_update)

lemma lsteps_work: "(lstep policy ^^ n) st st' \<Longrightarrow> work st' + n = work st"
proof (induction n arbitrary: st')
  case (Suc n)
  then obtain st1 where "(lstep policy ^^ n) st st1" and "lstep policy st1 st'" by auto
  then show ?case using Suc.IH lstep_work by fastforce
qed simp

definition blocked :: "lock_state \<Rightarrow> nat \<Rightarrow> lock \<Rightarrow> mode \<Rightarrow> bool" where
  "blocked st i l m \<longleftrightarrow>
     i < length st \<and> (\<exists>hs ops. st ! i = (hs, Acquire l m # ops)) \<and> \<not> available l m i st"

lemma stuck_blocked:
  assumes "\<nexists>st'. lstep prefer_readers st st'" and "i < length st" and "snd (st ! i) \<noteq> []"
  shows "\<exists>l m. blocked st i l m"
proof -
  obtain hs op ops where i: "st ! i = (hs, op # ops)"
    using assms(3) by (metis neq_Nil_conv prod.collapse)
  show ?thesis
  proof (cases op)
    case (Acquire l m)
    then have "\<not> available l m i st"
      using assms(1,2) i lstep.acquire [of i st hs l m ops prefer_readers] by (auto simp: prefer_readers_def)
    then show ?thesis using assms(2) i Acquire by (auto simp: blocked_def)
  next
    case Arrive
    then show ?thesis using assms(1,2) i lstep.arrive by blast
  next
    case (Release l)
    then show ?thesis using assms(1,2) i lstep.release by blast
  qed
qed

text \<open>The thread that blocks another is blocked itself, at a lock of higher rank.\<close>

lemma blocker_blocked:
  assumes "disciplined_all st" and "\<nexists>st'. lstep prefer_readers st st'" and "blocked st i l m"
  shows "\<exists>j l2 m2. blocked st j l2 m2 \<and> rank l m < rank l2 m2"
proof -
  obtain j m' where j: "j < length st" and held: "(l, m') \<in> set (fst (st ! j))" and "conflict m m'"
    using assms(3) by (auto simp: blocked_def available_def)
  obtain hs ops where st_j: "st ! j = (hs, ops)" by fastforce
  have disc: "disciplined hs ops" by (rule disciplined_nth [OF assms(1) j st_j])
  have "ops \<noteq> []" using disc held st_j by auto
  then obtain l2 m2 where b: "blocked st j l2 m2"
    using stuck_blocked [OF assms(2) j] st_j by auto
  then have "may_ask hs l2 m2" using disc st_j by (auto simp: blocked_def)
  then have "rank l m < rank l2 m2" using held \<open>conflict m m'\<close> st_j by (auto intro: ask_higher)
  then show ?thesis using b by blast
qed

lemma not_blocked:
  assumes "disciplined_all st" and "\<nexists>st'. lstep prefer_readers st st'"
  shows "\<not> blocked st i l m"
proof -
  have "\<not> blocked st i l m" if "3 - rank l m = n" for n i l m
    using that
  proof (induction n arbitrary: i l m rule: less_induct)
    case (less n)
    show ?case
    proof
      assume "blocked st i l m"
      then obtain j l2 m2 where "blocked st j l2 m2" and higher: "rank l m < rank l2 m2"
        using blocker_blocked [OF assms] by blast
      moreover have "3 - rank l2 m2 < n" using higher less.prems rank_bound [of l2 m2] by linarith
      ultimately show False using less.IH by blast
    qed
  qed
  then show ?thesis by blast
qed

definition all_done :: "lock_state \<Rightarrow> bool" where
  "all_done st \<longleftrightarrow> (\<forall>t \<in> set st. t = ([], []))"

lemma stuck_all_done:
  assumes "disciplined_all st" and "\<nexists>st'. lstep prefer_readers st st'"
  shows "all_done st"
proof -
  have "st ! i = ([], [])" if "i < length st" for i
  proof -
    have "snd (st ! i) = []"
      using stuck_blocked [OF assms(2) that] not_blocked [OF assms] by blast
    then show ?thesis
      using disciplined_nth [OF assms(1) that, of "fst (st ! i)" "snd (st ! i)"] by (simp add: prod_eq_iff)
  qed
  then show ?thesis by (auto simp: all_done_def in_set_conv_nth)
qed

text \<open>
  C12: Whatever calls and timer rounds run on a server at the same time, with readers preferred at
  \<open>pb_sm_1\<close> they never deadlock: in every state they can reach, either all of them have ended and
  released every lock or some thread can take its next step, and no run has more steps than
  the calls have arrivals and lock operations.
\<close>

theorem locks_no_deadlock:
  assumes "(lstep prefer_readers ^^ n) (start_locks users) st"
  shows "(all_done st \<or> (\<exists>st'. lstep prefer_readers st st')) \<and>
    work st + n = sum_list (map (Suc \<circ> length \<circ> lock_trace) users)"
proof
  have "disciplined_all st"
    using disciplined_steps [OF relpowp_imp_rtranclp [OF assms] disciplined_start] .
  then show "all_done st \<or> (\<exists>st'. lstep prefer_readers st st')" using stuck_all_done by blast
  have "work (start_locks users) = sum_list (map (Suc \<circ> length \<circ> lock_trace) users)"
    by (simp add: work_def start_locks_def comp_def)
  then show "work st + n = sum_list (map (Suc \<circ> length \<circ> lock_trace) users)"
    using lsteps_work [OF assms] by simp
qed

theorem locks_no_deadlock_witness:
  "(all_done (start_locks [VotesCall [(1, True, True)], DeadRound [(1, True)], CommitsCall [(1, True, True)]]) \<or>
    (\<exists>st'. lstep prefer_readers (start_locks [VotesCall [(1, True, True)], DeadRound [(1, True)], CommitsCall [(1, True, True)]]) st')) \<and>
   work (start_locks [VotesCall [(1, True, True)], DeadRound [(1, True)], CommitsCall [(1, True, True)]]) + 0 =
   sum_list (map (Suc \<circ> length \<circ> lock_trace) [VotesCall [(1, True, True)], DeadRound [(1, True)], CommitsCall [(1, True, True)]])"
  by (rule locks_no_deadlock) simp

subsection \<open>Waiting writers\<close>

text \<open>
  One vote completes the quorum of a block and keeps its entry; a second vote for the same block
  has the mutex and waits for the entry; a pull waits for the mutex. The first vote then asks for the
  mutex again, to erase the block.
\<close>

definition crossing :: "lock_user list" where
  "crossing = [VotesCall [(7, True, True)], VotesCall [(7, True, True)], PullCall 1 []]"

definition crossed :: lock_state where
  "crossed =
     [([(Pb 7, Exclusive)], [Acquire PbMutex Shared, Release (Pb 7), Release PbMutex]),
      ([(PbMutex, Shared)], [Acquire (Pb 7) Exclusive, Release PbMutex, Acquire PbMutex Shared, Release (Pb 7), Release PbMutex]),
      ([], [Acquire PbMutex Exclusive, Release PbMutex])]"

fun lock_next :: "nat \<Rightarrow> lock_state \<Rightarrow> lock_state option" where
  "lock_next i st =
     (if i < length st
      then (case st ! i of
              (hs, Arrive # ops) \<Rightarrow> Some (st[i := (hs, ops)])
            | (hs, Acquire l m # ops) \<Rightarrow>
                if available l m i st \<and> prefer_writers l m i st then Some (st[i := ((l, m) # hs, ops)]) else None
            | (hs, Release l # ops) \<Rightarrow> Some (st[i := (filter (\<lambda>h. fst h \<noteq> l) hs, ops)])
            | (hs, []) \<Rightarrow> None)
      else None)"

fun lock_schedule :: "nat list \<Rightarrow> lock_state \<Rightarrow> lock_state option" where
  "lock_schedule [] st = Some st"
| "lock_schedule (i # is) st = Option.bind (lock_next i st) (lock_schedule is)"

lemma lock_next_step: "lock_next i st = Some st' \<Longrightarrow> lstep prefer_writers st st'"
  by (auto split: if_splits prod.splits list.splits lock_op.splits intro: lstep.intros)

lemma lock_schedule_steps: "lock_schedule is st = Some st' \<Longrightarrow> (lstep prefer_writers)\<^sup>*\<^sup>* st st'"
  by (induction "is" st rule: lock_schedule.induct)
    (auto simp del: lock_next.simps simp: bind_eq_Some_conv intro: converse_rtranclp_into_rtranclp lock_next_step)

lemma crossed_reached: "(lstep prefer_writers)\<^sup>*\<^sup>* (start_locks crossing) crossed"
  by (rule lock_schedule_steps [of "[0, 0, 0, 0, 1, 1, 2]"]) code_simp

lemma crossed_stuck: "\<not> lstep prefer_writers crossed st"
proof
  assume "lstep prefer_writers crossed st"
  then show False
  proof cases
    case (acquire i hs l m ops)
    then have "\<not> (available l m i crossed \<and> prefer_writers l m i crossed)"
      by (auto simp: crossed_def less_Suc_eq available_def prefer_writers_def all_conj_distrib ex_disj_distrib conj_disj_distribR)
    then show False using acquire by simp
  qed (auto simp: crossed_def less_Suc_eq)
qed

text \<open>
  C13: With waiting writers preferred at \<open>pb_sm_1\<close>, two votes for one block and a pull can reach a state
  in which none of the three can go on although none has ended: \<open>VoteBlocks\<close> keeps the entry of the
  block locked while it asks for the mutex a second time, to erase it.
\<close>

theorem writer_preference_deadlock:
  "\<exists>st. (lstep prefer_writers)\<^sup>*\<^sup>* (start_locks [VotesCall [(7, True, True)], VotesCall [(7, True, True)], PullCall 1 []]) st \<and>
     \<not> (\<exists>st'. lstep prefer_writers st st') \<and>
     st \<noteq> [] \<and> list_all (\<lambda>t. snd t \<noteq> []) st"
proof (intro exI conjI)
  show "(lstep prefer_writers)\<^sup>*\<^sup>* (start_locks [VotesCall [(7, True, True)], VotesCall [(7, True, True)], PullCall 1 []]) crossed"
    using crossed_reached by (simp add: crossing_def)
  show "\<not> (\<exists>st'. lstep prefer_writers crossed st')" using crossed_stuck by blast
qed (simp_all add: crossed_def)

end
