(* ===== verification/TC_Main.thy ===== *)
theory TC_Main
  imports TC_System
begin

text \<open>
  The two \<open>main\<close> functions, of \<open>src/server/tc-server.cpp\<close> and \<open>src/client/tc-client.cpp\<close>: the command line, the
  configuration file, the number given with \<open>--id\<close> and what is started with them. The argument parser (argparse)
  and the JSON library (nlohmann) are parameters, \<open>arglib\<close> and \<open>jsonlib\<close>; \<open>argparse_spec\<close> and
  \<open>json_spec\<close> state what is documented of them. A value of a command line argument is a \<open>std::any\<close>, which can
  be read only at the type it was stored with.

  The properties tie the programs to the models of the other theories: servers and clients
  started with their numbers on common configuration files are the nodes and the clients of the initial state of the
  system, and without \<open>--id\<close> neither program starts.
\<close>

subsection \<open>Libraries\<close>

datatype any = AnyInt int | AnyU32 u32 | AnyString string

fun any_cast_u32 :: "any \<Rightarrow> u32 res" where
  "any_cast_u32 (AnyU32 w) = Inr w"
| "any_cast_u32 v = Inl BadAnyCast"

fun any_cast_string :: "any \<Rightarrow> string res" where
  "any_cast_string (AnyString s) = Inr s"
| "any_cast_string v = Inl BadAnyCast"

text \<open>A declared argument: its name, how its text is read, and its default value.\<close>

type_synonym argument = "string \<times> (string \<Rightarrow> any res) \<times> any"

record arglib =
  ap_scan_u32 :: "string \<Rightarrow> u32 res"
  ap_parse :: "argument list \<Rightarrow> string list \<Rightarrow> (string \<rightharpoonup> any) res"

text \<open>The accessors stand for the reading of one key, \<open>conf_data[key]\<close> converted to the type.\<close>

record 'j jsonlib =
  js_parse :: "string \<Rightarrow> 'j res"
  js_u64 :: "'j \<Rightarrow> string \<Rightarrow> u64 res"
  js_u32 :: "'j \<Rightarrow> string \<Rightarrow> u32 res"
  js_bool :: "'j \<Rightarrow> string \<Rightarrow> bool res"
  js_string :: "'j \<Rightarrow> string \<Rightarrow> string res"
  js_strings :: "'j \<Rightarrow> string \<Rightarrow> string list res"
  js_set :: "string \<Rightarrow> u64 \<Rightarrow> 'j \<Rightarrow> 'j res"

text \<open>
  Argparse: an option that is given is read by its scanner, any other declared one keeps its default, and unsigned numbers are
  read in decimal.
\<close>

definition command_line :: "string \<Rightarrow> (string \<times> string) list \<Rightarrow> string list" where
  "command_line prog ps = prog # concat (map (\<lambda>(opt, str). [opt, str]) ps)"

definition argparse_spec :: "arglib \<Rightarrow> bool" where
  "argparse_spec P \<longleftrightarrow>
     (\<forall>w. ap_scan_u32 P (to_string (ucast w)) = Inr w) \<and>
     (\<forall>ds prog ps vals. distinct (map fst ps) \<longrightarrow>
        (\<forall>(opt, str) \<in> set ps. \<exists>scan dflt. map_of ds opt = Some (scan, dflt) \<and> scan str = Inr (vals opt)) \<longrightarrow>
        (\<exists>m. ap_parse P ds (command_line prog ps) = Inr m \<and>
           (\<forall>opt scan dflt. map_of ds opt = Some (scan, dflt) \<longrightarrow>
              m opt = Some (if opt \<in> fst ` set ps then vals opt else dflt))))"

text \<open>
  JSON: a number stored under a key of an object can be read back, at 32 bits truncated; other keys keep their values.
\<close>

definition json_spec :: "'j jsonlib \<Rightarrow> bool" where
  "json_spec J \<longleftrightarrow>
     (\<forall>j key v. (\<exists>key' s. js_string J j key' = Inr s) \<longrightarrow> (\<exists>j'. js_set J key v j = Inr j')) \<and>
     (\<forall>j j' key v. js_set J key v j = Inr j' \<longrightarrow>
        js_u64 J j' key = Inr v \<and> js_u32 J j' key = Inr (ucast v) \<and>
        (\<forall>key'. key' \<noteq> key \<longrightarrow> js_u64 J j' key' = js_u64 J j key' \<and> js_u32 J j' key' = js_u32 J j key' \<and>
           js_bool J j' key' = js_bool J j key' \<and> js_string J j' key' = js_string J j key' \<and>
           js_strings J j' key' = js_strings J j key'))"

subsection \<open>Arguments and configuration\<close>

text \<open>Both programs declare the same two arguments. The default of \<open>--id\<close> is an \<open>int\<close>.\<close>

definition declared_arguments :: "arglib \<Rightarrow> argument list" where
  "declared_arguments P =
     [(''--cf'', \<lambda>str. Inr (AnyString str), AnyString ''''),
      (''--id'', \<lambda>str. bindr (ap_scan_u32 P str) (\<lambda>w. Inr (AnyU32 w)), AnyInt 1)]"

definition parser_get :: "(any \<Rightarrow> 'a res) \<Rightarrow> (string \<rightharpoonup> any) \<Rightarrow> string \<Rightarrow> 'a res" where
  "parser_get conv args name = (case args name of None \<Rightarrow> Inl InvalidArgument | Some v \<Rightarrow> conv v)"

text \<open>
  From the command line to \<open>conf_data\<close>: the file is read and parsed, a nonzero number from \<open>--id\<close> is stored under
  \<open>key\<close>, and the keys for logging and profiling are read. \<open>files\<close> gives the contents of a file, empty when it
  cannot be opened.
\<close>

definition main_conf :: "arglib \<Rightarrow> 'j jsonlib \<Rightarrow> (string \<Rightarrow> string) \<Rightarrow> string \<Rightarrow> string list \<Rightarrow> 'j res" where
  "main_conf P J files key argv =
     bindr (ap_parse P (declared_arguments P) argv) (\<lambda>args.
     bindr (parser_get any_cast_string args ''--cf'') (\<lambda>conf_file_path.
     bindr (js_parse J (files conf_file_path)) (\<lambda>conf_data.
     bindr (parser_get any_cast_u32 args ''--id'') (\<lambda>conf_id.
     bindr (if ucast conf_id \<noteq> (0 :: u64) then js_set J key (ucast conf_id) conf_data else Inr conf_data) (\<lambda>conf_data.
     bindr (js_string J conf_data ''log-level'') (\<lambda>_.
     bindr (js_bool J conf_data ''profiler-enable'') (\<lambda>_.
     bindr (js_bool J conf_data ''profiler-listen'') (\<lambda>_. Inr conf_data))))))))"

text \<open>
  The configuration of a server. The code reads each key where it needs it; here all are read at once, so that
  a missing key is a failure at start-up, while the code ends when the thread that needs the key reads it.
\<close>

definition read_conf :: "'j jsonlib \<Rightarrow> 'j \<Rightarrow> conf res" where
  "read_conf J j =
     bindr (js_u64 J j ''server-id'') (\<lambda>server_id.
     bindr (js_u64 J j ''client-count'') (\<lambda>client_count.
     bindr (js_u64 J j ''server-count'') (\<lambda>server_count.
     bindr (js_strings J j ''peer-addr'') (\<lambda>peer_addr.
     bindr (js_u64 J j ''generate-tx-rate'') (\<lambda>rate.
     bindr (js_u64 J j ''tx-per-block'') (\<lambda>per_block.
     bindr (js_u64 J j ''pb-pool-limit'') (\<lambda>limit.
     bindr (js_u64 J j ''block-die-threshold'') (\<lambda>die.
     bindr (js_u64 J j ''account-count'') (\<lambda>accounts.
     bindr (js_bool J j ''use-rocksdb'') (\<lambda>use_rocksdb.
       Inr \<lparr>cf_server_id = server_id, cf_server_count = server_count, cf_client_count = client_count,
            cf_account_count = accounts, cf_pb_pool_limit = limit, cf_generate_tx_rate = rate,
            cf_tx_per_block = per_block, cf_block_die_threshold = die, cf_use_rocksdb = use_rocksdb,
            cf_peer_addr = peer_addr\<rparr>))))))))))"

definition server_main ::
  "arglib \<Rightarrow> 'j jsonlib \<Rightarrow> keylib \<Rightarrow> (string \<Rightarrow> string) \<Rightarrow> bool \<Rightarrow> string list \<Rightarrow> server outcome res" where
  "server_main P J K files db_open_ok argv =
     bindr (main_conf P J files ''server-id'' argv) (\<lambda>conf_data.
     bindr (read_conf J conf_data) (\<lambda>C. Inr (start K C db_open_ok new_server)))"

text \<open>The configuration of a client object, read by \<open>init\<close> and \<open>Register\<close>; the keys of the servers are read in \<open>main\<close>.\<close>

definition read_client_conf :: "'j jsonlib \<Rightarrow> 'j \<Rightarrow> client_conf res" where
  "read_client_conf J j =
     bindr (js_u32 J j ''grpc-server-count'') (\<lambda>n.
     bindr (js_u32 J j ''grpc-server-port'') (\<lambda>port.
     bindr (js_string J j ''grpc-server-ip'') (\<lambda>ip.
     bindr (js_u64 J j ''client-id'') (\<lambda>client_id.
     bindr (js_string J j ''clear-rocksdb'') (\<lambda>clear.
     bindr (js_u64 J j ''account-count'') (\<lambda>accounts.
     bindr (js_u64 J j ''client-count'') (\<lambda>client_count.
       Inr \<lparr>cc_client_id = client_id, cc_client_count = client_count, cc_account_count = accounts,
            cc_clear_rocksdb = clear, cc_grpc_server_count = n, cc_grpc_server_port = port,
            cc_grpc_server_ip = ip\<rparr>)))))))"

text \<open>\<open>main\<close> of the client up to the construction of the client object: the addresses of its two channels and the object.\<close>

definition client_main ::
  "arglib \<Rightarrow> 'j jsonlib \<Rightarrow> 'd rocksdb \<Rightarrow> (string \<Rightarrow> string) \<Rightarrow> bytes \<Rightarrow> bool \<Rightarrow> 'd \<Rightarrow> string list \<Rightarrow>
     (string \<times> string \<times> 'd client outcome) res" where
  "client_main P J D files pkey db_open_ok db argv =
     bindr (main_conf P J files ''client-id'' argv) (\<lambda>conf_data.
     bindr (js_u32 J conf_data ''client-id'') (\<lambda>client_id.
     bindr (js_u32 J conf_data ''grpc-server-count'') (\<lambda>n.
       if n = 0 then Inl DivByZero
       else
         bindr (js_u32 J conf_data ''grpc-server-port'') (\<lambda>port.
         bindr (js_string J conf_data ''grpc-server-ip'') (\<lambda>ip.
           let client_index = client_id - 1;
               server_select = client_index mod n + 1;
               shadow = client_index mod n + 2;
               shadow_server_select = (if shadow > n then 1 else shadow);
               address = (\<lambda>select. ip @ '':'' @ to_string (ucast (port + select)))
           in bindr (read_client_conf J conf_data) (\<lambda>cc.
                Inr (address server_select, address shadow_server_select, TcClient_init D cc pkey db_open_ok db)))))))"

subsection \<open>Lemmas\<close>

lemma parse_arguments:
  fixes w :: u32
  assumes "argparse_spec P"
  shows "\<exists>m. ap_parse P (declared_arguments P) (command_line prog [(''--cf'', path), (''--id'', to_string (ucast w))]) = Inr m \<and>
      m ''--cf'' = Some (AnyString path) \<and> m ''--id'' = Some (AnyU32 w)"
    and "\<exists>m. ap_parse P (declared_arguments P) (command_line prog [(''--cf'', path)]) = Inr m \<and>
      m ''--cf'' = Some (AnyString path) \<and> m ''--id'' = Some (AnyInt 1)"
proof -
  have parse: "\<exists>m. ap_parse P ds (command_line prog ps) = Inr m \<and>
      (\<forall>opt scan dflt. map_of ds opt = Some (scan, dflt) \<longrightarrow> m opt = Some (if opt \<in> fst ` set ps then vals opt else dflt))"
    if "distinct (map fst ps)" "\<forall>(opt, str) \<in> set ps. \<exists>scan dflt. map_of ds opt = Some (scan, dflt) \<and> scan str = Inr (vals opt)"
    for ds ps vals
    using assms that unfolding argparse_spec_def by blast
  have scan: "ap_scan_u32 P (to_string (ucast w)) = Inr w" using assms by (simp add: argparse_spec_def)
  let ?ds = "declared_arguments P"
  show "\<exists>m. ap_parse P ?ds (command_line prog [(''--cf'', path), (''--id'', to_string (ucast w))]) = Inr m \<and>
      m ''--cf'' = Some (AnyString path) \<and> m ''--id'' = Some (AnyU32 w)"
    using parse [of "[(''--cf'', path), (''--id'', to_string (ucast w))]" ?ds
        "\<lambda>opt. if opt = ''--cf'' then AnyString path else AnyU32 w"]
    by (auto simp: declared_arguments_def scan)
  show "\<exists>m. ap_parse P ?ds (command_line prog [(''--cf'', path)]) = Inr m \<and>
      m ''--cf'' = Some (AnyString path) \<and> m ''--id'' = Some (AnyInt 1)"
    using parse [of "[(''--cf'', path)]" ?ds "\<lambda>opt. AnyString path"] by (auto simp: declared_arguments_def)
qed

text \<open>The document that the programs use.\<close>

definition loggable :: "'j jsonlib \<Rightarrow> 'j \<Rightarrow> bool" where
  "loggable J j \<longleftrightarrow> (\<exists>s p q. js_string J j ''log-level'' = Inr s \<and> js_bool J j ''profiler-enable'' = Inr p \<and>
     js_bool J j ''profiler-listen'' = Inr q)"

lemma main_conf_id:
  fixes w :: u32
  assumes "argparse_spec P" and "json_spec J" and "js_parse J (files path) = Inr j" and "loggable J j"
    and "key \<notin> {''log-level'', ''profiler-enable'', ''profiler-listen''}"
  shows "\<exists>j'. main_conf P J files key (command_line prog [(''--cf'', path), (''--id'', to_string (ucast w))]) = Inr j' \<and>
    (if w = 0 then j' = j else js_set J key (ucast w) j = Inr j')"
proof -
  obtain m where m: "ap_parse P (declared_arguments P) (command_line prog [(''--cf'', path), (''--id'', to_string (ucast w))]) = Inr m"
    "m ''--cf'' = Some (AnyString path)" "m ''--id'' = Some (AnyU32 w)"
    using parse_arguments(1) [OF assms(1)] by blast
  have zero: "(ucast w :: u64) = 0 \<longleftrightarrow> w = 0" using inj_eq [OF inj_client_id, of w 0] by simp
  have log: "main_conf P J files key (command_line prog [(''--cf'', path), (''--id'', to_string (ucast w))]) = Inr j'"
    if "(if w = 0 then Inr j else js_set J key (ucast w) j) = Inr j'" "loggable J j'" for j'
    using m that assms(3) by (auto simp: main_conf_def parser_get_def loggable_def zero)
  show ?thesis
  proof (cases "w = 0")
    case True
    then show ?thesis using log [of j] assms(4) by simp
  next
    case False
    obtain j' where j': "js_set J key (ucast w) j = Inr j'"
      using assms(2,4) unfolding json_spec_def loggable_def by blast
    have same: "js_string J j' key' = js_string J j key' \<and> js_bool J j' key' = js_bool J j key'" if "key' \<noteq> key" for key'
      using assms(2) j' that unfolding json_spec_def by blast
    then have "loggable J j'" using assms(4,5) by (auto simp: loggable_def)
    then show ?thesis using log [of j'] j' False by simp
  qed
qed

lemma read_conf_set:
  assumes "json_spec J" and "read_conf J j = Inr C" and "js_set J ''server-id'' w j = Inr j'"
  shows "read_conf J j' = Inr (C\<lparr>cf_server_id := w\<rparr>)"
proof -
  have id: "js_u64 J j' ''server-id'' = Inr w" using assms(1,3) unfolding json_spec_def by blast
  have same: "key \<noteq> ''server-id'' \<Longrightarrow> js_u64 J j' key = js_u64 J j key \<and> js_bool J j' key = js_bool J j key \<and>
      js_strings J j' key = js_strings J j key" for key
    using assms(1,3) unfolding json_spec_def by blast
  show ?thesis using assms(2) by (auto simp: read_conf_def id same bindr_Inr_iff)
qed

lemma read_client_conf_servers:
  assumes "read_client_conf J j = Inr cc"
  shows "js_u32 J j ''grpc-server-count'' = Inr (cc_grpc_server_count cc)"
    and "js_u32 J j ''grpc-server-port'' = Inr (cc_grpc_server_port cc)" and "js_string J j ''grpc-server-ip'' = Inr (cc_grpc_server_ip cc)"
  using assms by (auto simp: read_client_conf_def bindr_Inr_iff)

lemma client_main_run:
  assumes "main_conf P J files ''client-id'' argv = Inr j" and "read_client_conf J j = Inr cc"
    and "js_u32 J j ''client-id'' = Inr (ucast (cc_client_id cc))" and "server_select cc = Inr p" and "shadow_server_select cc = Inr q"
  shows "client_main P J D files pkey ok db argv = Inr (server_addr cc p, server_addr cc q, TcClient_init D cc pkey ok db)"
proof -
  have n: "cc_grpc_server_count cc \<noteq> 0" using assms(4) by (auto simp: server_select_def)
  have "p = (ucast (cc_client_id cc) - 1) mod cc_grpc_server_count cc + 1" using assms(4) n by (simp add: server_select_def)
  moreover have "q = (if (ucast (cc_client_id cc) - 1) mod cc_grpc_server_count cc + 2 > cc_grpc_server_count cc then 1
      else (ucast (cc_client_id cc) - 1) mod cc_grpc_server_count cc + 2)"
    using assms(5) n by (simp only: shadow_server_select_def Let_def if_False sum.inject)
  ultimately show ?thesis
    using n by (simp only: client_main_def assms(1-3) read_client_conf_servers [OF assms(2)] bindr_simps Let_def if_False server_addr_def)
qed

lemma start_id: "server_id (snd (start K C True new_server)) = cf_server_id C"
proof -
  let ?s = "new_server\<lparr>server_id := cf_server_id C, blk_seq_generator := cf_server_id C * 1000000\<rparr>"
  obtain r s where s: "init_client_profile K C ?s = (r, s)" by fastforce
  have "chm_ok (clients ?s)" by (simp add: new_server_def)
  from init_client_profile_frame [OF this, of K C] s have "server_id s = cf_server_id C" by auto
  with s show ?thesis by (simp add: start_def init_server_def init_peer_stubs_def Let_def split: option.split)
qed

lemma start_succeeds:
  assumes "start_ok K C"
  shows "fst (start K (C\<lparr>cf_server_id := i\<rparr>) True new_server) = None"
proof -
  let ?s = "new_server\<lparr>server_id := i, blk_seq_generator := i * 1000000\<rparr>"
  have "fst (init_client_profile K (C\<lparr>cf_server_id := i\<rparr>) ?s) = None"
    using assms by (simp add: start_ok_def init_client_profile_def)
  then show ?thesis by (auto simp: start_def init_server_def Let_def split: prod.split option.split)
qed

lemma read_client_conf_set:
  assumes "json_spec J" and "read_client_conf J j = Inr cc" and "js_set J ''client-id'' w j = Inr j'"
  shows "read_client_conf J j' = Inr (cc\<lparr>cc_client_id := w\<rparr>)"
proof -
  have id: "js_u64 J j' ''client-id'' = Inr w" using assms(1,3) unfolding json_spec_def by blast
  have same: "key \<noteq> ''client-id'' \<Longrightarrow> js_u64 J j' key = js_u64 J j key \<and> js_u32 J j' key = js_u32 J j key \<and>
      js_string J j' key = js_string J j key" for key
    using assms(1,3) unfolding json_spec_def by blast
  show ?thesis using assms(2) by (auto simp: read_client_conf_def id same bindr_Inr_iff)
qed

subsection \<open>Concrete libraries\<close>

datatype jval = JNum u64 | JBool bool | JString string | JStrings "string list"

fun assign_options :: "argument list \<Rightarrow> string list \<Rightarrow> (string \<rightharpoonup> any) \<Rightarrow> (string \<rightharpoonup> any) res" where
  "assign_options ds (opt # str # rest) m =
     (case map_of ds opt of
        None \<Rightarrow> Inl InvalidArgument
      | Some (scan, dflt) \<Rightarrow> bindr (scan str) (\<lambda>v. assign_options ds rest (m(opt \<mapsto> v))))"
| "assign_options ds [opt] m = Inl InvalidArgument"
| "assign_options ds [] m = Inr m"

definition ref_args :: arglib where
  "ref_args =
     \<lparr>ap_scan_u32 = (\<lambda>str. if str \<noteq> [] \<and> list_all is_digit str \<and> digits_value str < 2 ^ 32
        then Inr (word_of_nat (digits_value str)) else Inl InvalidArgument),
      ap_parse = (\<lambda>ds argv. assign_options ds (tl argv) (map_of (map (\<lambda>(opt, scan, dflt). (opt, dflt)) ds)))\<rparr>"

definition ref_json :: "(string \<rightharpoonup> jval) \<Rightarrow> (string \<rightharpoonup> jval) jsonlib" where
  "ref_json doc =
     \<lparr>js_parse = (\<lambda>str. if str = ''doc'' then Inr doc else Inl InvalidArgument),
      js_u64 = (\<lambda>j key. case j key of Some (JNum w) \<Rightarrow> Inr w | _ \<Rightarrow> Inl LibError),
      js_u32 = (\<lambda>j key. case j key of Some (JNum w) \<Rightarrow> Inr (ucast w) | _ \<Rightarrow> Inl LibError),
      js_bool = (\<lambda>j key. case j key of Some (JBool b) \<Rightarrow> Inr b | _ \<Rightarrow> Inl LibError),
      js_string = (\<lambda>j key. case j key of Some (JString s) \<Rightarrow> Inr s | _ \<Rightarrow> Inl LibError),
      js_strings = (\<lambda>j key. case j key of Some (JStrings ss) \<Rightarrow> Inr ss | _ \<Rightarrow> Inl LibError),
      js_set = (\<lambda>key w j. Inr (j(key \<mapsto> JNum w)))\<rparr>"

definition sample_files :: "string \<Rightarrow> string" where
  "sample_files path = (if path = ''conf.json'' then ''doc'' else [])"

definition server_doc :: "string \<rightharpoonup> jval" where
  "server_doc = map_of [(''server-id'', JNum 0), (''server-count'', JNum 2), (''client-count'', JNum 2),
     (''account-count'', JNum 100), (''pb-pool-limit'', JNum 8), (''generate-tx-rate'', JNum 3), (''tx-per-block'', JNum 2),
     (''block-die-threshold'', JNum 10000), (''use-rocksdb'', JBool True), (''peer-addr'', JStrings [''a'', ''b'']),
     (''log-level'', JString ''info''), (''profiler-enable'', JBool False), (''profiler-listen'', JBool False)]"

definition client_doc :: "string \<rightharpoonup> jval" where
  "client_doc = map_of [(''client-id'', JNum 1), (''client-count'', JNum 2), (''account-count'', JNum 3),
     (''clear-rocksdb'', JString ''false''), (''grpc-server-count'', JNum 2), (''grpc-server-port'', JNum 2510),
     (''grpc-server-ip'', JString ''localhost''),
     (''log-level'', JString ''info''), (''profiler-enable'', JBool False), (''profiler-listen'', JBool False)]"

lemma assign_options_ok:
  assumes "distinct (map fst ps)"
    and "\<forall>(opt, str) \<in> set ps. \<exists>scan dflt. map_of ds opt = Some (scan, dflt) \<and> scan str = Inr (vals opt)"
  shows "\<exists>m'. assign_options ds (concat (map (\<lambda>(opt, str). [opt, str]) ps)) m = Inr m' \<and>
    (\<forall>opt. m' opt = (if opt \<in> fst ` set ps then Some (vals opt) else m opt))"
  using assms
proof (induction ps arbitrary: m)
  case (Cons p ps)
  obtain opt str where p: "p = (opt, str)" by fastforce
  obtain scan dflt where d: "map_of ds opt = Some (scan, dflt)" "scan str = Inr (vals opt)"
    using Cons.prems(2) by (auto simp: p)
  have dist: "distinct (map fst ps)"
    and rest: "\<forall>(opt, str) \<in> set ps. \<exists>scan dflt. map_of ds opt = Some (scan, dflt) \<and> scan str = Inr (vals opt)"
    using Cons.prems by simp_all
  obtain m' where "assign_options ds (concat (map (\<lambda>(opt, str). [opt, str]) ps)) (m(opt \<mapsto> vals opt)) = Inr m'"
    "\<forall>o'. m' o' = (if o' \<in> fst ` set ps then Some (vals o') else (m(opt \<mapsto> vals opt)) o')"
    using Cons.IH [OF dist rest, of "m(opt \<mapsto> vals opt)"] by (elim exE conjE)
  then show ?case using d by (intro exI [of _ m']) (simp add: p fun_eq_iff)
qed simp

lemma map_of_defaults:
  "map_of (map (\<lambda>(opt, scan, dflt). (opt, dflt)) ds) opt = map_option snd (map_of ds opt)"
  by (induction ds) auto

lemma ref_args_spec: "argparse_spec ref_args"
proof -
  have "ap_scan_u32 ref_args (to_string (ucast w)) = Inr w" for w :: u32
  proof -
    have "unat w < 2 ^ 32" using unsigned_less [of w, where 'a = nat] by simp
    then show ?thesis
      using nat_to_string_digits [of "unat w"]
      by (simp add: ref_args_def to_string_def unat_client_id nat_to_string_nonempty digits_value_nat_to_string list_all_iff)
  qed
  moreover have "\<exists>m. ap_parse ref_args ds (command_line prog ps) = Inr m \<and>
      (\<forall>opt scan dflt. map_of ds opt = Some (scan, dflt) \<longrightarrow> m opt = Some (if opt \<in> fst ` set ps then vals opt else dflt))"
    if hyps: "distinct (map fst ps)" "\<forall>(opt, str) \<in> set ps. \<exists>scan dflt. map_of ds opt = Some (scan, dflt) \<and> scan str = Inr (vals opt)"
    for ds prog ps vals
  proof -
    let ?m = "map_of (map (\<lambda>(opt, scan, dflt). (opt, dflt)) ds)"
    obtain m' where m': "assign_options ds (concat (map (\<lambda>(opt, str). [opt, str]) ps)) ?m = Inr m'"
      "\<forall>opt. m' opt = (if opt \<in> fst ` set ps then Some (vals opt) else ?m opt)"
      using assign_options_ok [OF hyps, of ?m] by (elim exE conjE)
    then show ?thesis by (intro exI [of _ m']) (simp add: ref_args_def command_line_def map_of_defaults)
  qed
  ultimately show ?thesis unfolding argparse_spec_def by blast
qed

lemma ref_json_spec: "json_spec (ref_json doc)"
  by (simp add: json_spec_def ref_json_def)

lemma server_doc_conf:
  "js_parse (ref_json server_doc) (sample_files ''conf.json'') = Inr server_doc" "loggable (ref_json server_doc) server_doc"
  "read_conf (ref_json server_doc) server_doc = Inr (sample_conf 0)"
  by (simp_all add: ref_json_def sample_files_def server_doc_def loggable_def read_conf_def sample_conf_def) blast

lemma client_doc_conf:
  "js_parse (ref_json client_doc) (sample_files ''conf.json'') = Inr client_doc" "loggable (ref_json client_doc) client_doc"
  "read_client_conf (ref_json client_doc) client_doc = Inr sample_cc"
  by (simp_all add: ref_json_def sample_files_def client_doc_def loggable_def read_client_conf_def sample_cc_def) blast

subsection \<open>Properties\<close>

text \<open>
  C36: the servers of one configuration file. A server that is started with the file and a nonzero number is the node of
  that number in the initial state of the network; with the number 0 it takes its number from the
  file.
\<close>

theorem server_main_node:
  fixes w :: u32
  assumes "argparse_spec P" and "json_spec J" and "js_parse J (files path) = Inr j" and "loggable J j" and "read_conf J j = Inr C"
  shows "\<exists>r s. server_main P J K files True (command_line prog [(''--cf'', path), (''--id'', to_string (ucast w))]) = Inr (r, s)
    \<and> server_id s = (if w = 0 then cf_server_id C else ucast w)
    \<and> (w \<noteq> 0 \<longrightarrow> s = nodes (initial K C) (ucast w))
    \<and> (start_ok K C \<longrightarrow> r = None)"
proof -
  let ?argv = "command_line prog [(''--cf'', path), (''--id'', to_string (ucast w))]"
  let ?i = "if w = 0 then cf_server_id C else ucast w"
  let ?r = "start K (C\<lparr>cf_server_id := ?i\<rparr>) True new_server"
  obtain j' where j': "main_conf P J files ''server-id'' ?argv = Inr j'" "if w = 0 then j' = j else js_set J ''server-id'' (ucast w) j = Inr j'"
    using main_conf_id [where files = files and path = path and key = "''server-id''" and prog = prog and w = w, OF assms(1-4)] by auto
  have "read_conf J j' = Inr (C\<lparr>cf_server_id := ?i\<rparr>)"
    using j'(2) assms(5) read_conf_set [OF assms(2,5)] by (cases "w = 0") simp_all
  then have run: "server_main P J K files True ?argv = Inr (fst ?r, snd ?r)" by (simp add: server_main_def j'(1))
  moreover have "server_id (snd ?r) = ?i" by (simp add: start_id)
  moreover have "w \<noteq> 0 \<longrightarrow> snd ?r = nodes (initial K C) (ucast w)" by (simp add: initial_def)
  moreover have "start_ok K C \<longrightarrow> fst ?r = None" using start_succeeds by blast
  ultimately show ?thesis by blast
qed

theorem server_main_node_witness:
  "\<exists>s. server_main ref_args (ref_json server_doc) sample_keys sample_files True
       [''tc-server'', ''--cf'', ''conf.json'', ''--id'', ''2''] = Inr (None, s)
     \<and> server_id s = 2 \<and> s = nodes (initial sample_keys (sample_conf 0)) 2"
proof -
  have two: "to_string 2 = ''2''" by code_simp
  have "start_ok sample_keys (sample_conf 0)"
    using sample_start_ok by (simp add: start_ok_def sample_conf_def init_client_profile_def)
  moreover have "command_line ''tc-server'' [(''--cf'', ''conf.json''), (''--id'', to_string (ucast (2 :: u32)))] =
      [''tc-server'', ''--cf'', ''conf.json'', ''--id'', ''2'']"
    by (simp add: command_line_def two)
  ultimately show ?thesis
    using server_main_node [where files = sample_files and path = "''conf.json''" and prog = "''tc-server''" and w = 2 and K = sample_keys,
      OF ref_args_spec ref_json_spec server_doc_conf] by auto
qed

text \<open>
  C38: without \<open>--id\<close> neither program starts. The default of the argument is stored as an \<open>int\<close> and read as a \<open>uint32_t\<close>,
  which raises \<open>std::bad_any_cast\<close>, whatever the configuration file says.
\<close>

theorem main_without_id_fails:
  assumes "argparse_spec P" and "js_parse J (files path) = Inr j"
  shows "server_main P J K files ok (command_line prog [(''--cf'', path)]) = Inl BadAnyCast
    \<and> client_main P J D files pkey ok db (command_line prog [(''--cf'', path)]) = Inl BadAnyCast"
proof -
  obtain m where "ap_parse P (declared_arguments P) (command_line prog [(''--cf'', path)]) = Inr m"
    "m ''--cf'' = Some (AnyString path)" "m ''--id'' = Some (AnyInt 1)"
    using parse_arguments(2) [OF assms(1)] by blast
  then have "main_conf P J files key (command_line prog [(''--cf'', path)]) = Inl BadAnyCast" for key
    using assms(2) by (simp add: main_conf_def parser_get_def)
  then show ?thesis by (simp add: server_main_def client_main_def)
qed

theorem main_without_id_fails_witness:
  "server_main ref_args (ref_json server_doc) sample_keys sample_files True [''tc-server'', ''--cf'', ''conf.json''] = Inl BadAnyCast"
  using main_without_id_fails [where files = sample_files and path = "''conf.json''" and prog = "''tc-server''" and K = sample_keys
      and ok = True and D = ref_db and pkey = "[]" and db = Map.empty, OF ref_args_spec server_doc_conf(1)] by (simp only: command_line_def list.map concat.simps append.simps prod.case simp_thms)

text \<open>
  C37: the clients of one configuration file. A client that is started with the file and its number opens its channels to
  the addresses of its primary and its shadow server: both are servers between 1 and the
  configured number of servers, the shadow is the successor of the primary in the ring, and they
  differ unless there is one server only. The client object is built from the file with that number.
\<close>

theorem client_main_servers:
  fixes w :: u32
  assumes "argparse_spec P" and "json_spec J" and "js_parse J (files path) = Inr j" and "loggable J j"
    and "read_client_conf J j = Inr cc" and "js_u32 J j ''client-id'' = Inr (ucast (cc_client_id cc))"
    and "cc_grpc_server_count cc \<noteq> 0" and "cc_grpc_server_count cc \<noteq> - 1"
  shows "\<exists>p q. client_main P J D files pkey ok db (command_line prog [(''--cf'', path), (''--id'', to_string (ucast w))]) =
      Inr (server_addr cc p, server_addr cc q, TcClient_init D (conf_with_id w cc) pkey ok db)
    \<and> server_select (conf_with_id w cc) = Inr p \<and> shadow_server_select (conf_with_id w cc) = Inr q
    \<and> p \<in> {1..cc_grpc_server_count cc} \<and> q \<in> {1..cc_grpc_server_count cc}
    \<and> q = next_server (cc_grpc_server_count cc) p \<and> (p = q \<longleftrightarrow> cc_grpc_server_count cc = 1)"
proof -
  let ?argv = "command_line prog [(''--cf'', path), (''--id'', to_string (ucast w))]" and ?cc = "conf_with_id w cc"
  have zero: "(ucast w :: u64) = 0 \<longleftrightarrow> w = 0" using inj_eq [OF inj_client_id, of w 0] by simp
  obtain j' where j': "main_conf P J files ''client-id'' ?argv = Inr j'" "if w = 0 then j' = j else js_set J ''client-id'' (ucast w) j = Inr j'"
    using main_conf_id [where files = files and path = path and key = "''client-id''" and prog = prog and w = w, OF assms(1-4)] by auto
  have conf: "read_client_conf J j' = Inr ?cc"
    using j'(2) assms(5) read_client_conf_set [OF assms(2,5)] by (auto simp: conf_with_id_def zero split: if_splits)
  have "js_u32 J j' ''client-id'' = Inr (ucast (cc_client_id ?cc))"
    using j'(2) assms(2,6) unfolding json_spec_def by (cases "w = 0") (auto simp: conf_with_id_def zero)
  moreover have same: "cc_grpc_server_count ?cc = cc_grpc_server_count cc" "server_addr ?cc = server_addr cc"
    by (simp_all add: conf_with_id_def server_addr_def fun_eq_iff)
  obtain p q where pq: "server_select ?cc = Inr p" "shadow_server_select ?cc = Inr q"
    "p \<in> {1..cc_grpc_server_count cc}" "q \<in> {1..cc_grpc_server_count cc}"
    "q = next_server (cc_grpc_server_count cc) p" "p = q \<longleftrightarrow> cc_grpc_server_count cc = 1"
    using client_servers_valid [of ?cc] assms(7,8) unfolding same by blast
  ultimately have "client_main P J D files pkey ok db ?argv = Inr (server_addr ?cc p, server_addr ?cc q, TcClient_init D ?cc pkey ok db)"
    by (intro client_main_run [OF j'(1) conf])
  with pq show ?thesis unfolding same(2) by blast
qed

theorem client_main_servers_witness:
  "\<exists>c. client_main ref_args (ref_json client_doc) ref_db sample_files [9] True Map.empty
       [''tc-client'', ''--cf'', ''conf.json'', ''--id'', ''2''] = Inr (''localhost:2512'', ''localhost:2511'', None, c) \<and> cli_id c = 2"
proof -
  have two: "to_string 2 = ''2''" "to_string 2511 = ''2511''" "to_string 2512 = ''2512''" by code_simp+
  have cl: "command_line ''tc-client'' [(''--cf'', ''conf.json''), (''--id'', to_string (ucast (2 :: u32)))] =
      [''tc-client'', ''--cf'', ''conf.json'', ''--id'', ''2'']"
    by (simp add: command_line_def two)
  have id: "js_u32 (ref_json client_doc) client_doc ''client-id'' = Inr (ucast (cc_client_id sample_cc))"
    by (simp add: ref_json_def client_doc_def sample_cc_def)
  obtain p q where pq: "client_main ref_args (ref_json client_doc) ref_db sample_files [9] True Map.empty
       [''tc-client'', ''--cf'', ''conf.json'', ''--id'', ''2''] =
      Inr (server_addr sample_cc p, server_addr sample_cc q, TcClient_init ref_db (conf_with_id 2 sample_cc) [9] True Map.empty)"
    "server_select (conf_with_id 2 sample_cc) = Inr p" "shadow_server_select (conf_with_id 2 sample_cc) = Inr q"
    using client_main_servers [where files = sample_files and path = "''conf.json''" and prog = "''tc-client''" and w = 2 and D = ref_db
        and pkey = "[9]" and ok = True and db = Map.empty, OF ref_args_spec ref_json_spec client_doc_conf id]
    unfolding cl by (auto simp: sample_cc_def)
  have "p = 2" "q = 1"
    using pq(2,3) by (simp_all add: server_select_def shadow_server_select_def conf_with_id_def sample_cc_def Let_def)
  then show ?thesis
    using pq(1) by (simp add: server_addr_def sample_cc_def two TcClient_init_def conf_with_id_def Let_def)
qed

end
