(* ===== verification/TC_Schedule.thy ===== *)
theory TC_Schedule
  imports TC_Client
begin

text \<open>
  How the rounds of timers and threads are repeated, \<open>TcServer::schedule\<close> and \<open>TcClient::schedule\<close>. A timer of the
  server calls a function that skips its round when a flag says that an earlier call is still at
  work; the flag is an ordinary variable, tested and set in two steps. A thread of the client binds a
  core, then runs its rounds in an endless loop guarded by a flag of its own.

  The lemmas show when rounds of one timer exclude each other, and that the threads of the client leave their loops only by
  an exception.
\<close>

subsection \<open>The timers of the server\<close>

text \<open>
  A call of a timer's function is about to test the flag, about to set it, at work, or about to clear it.
  \<open>t_rounds\<close> counts the rounds that have ended, \<open>t_skipped\<close> the calls that found the flag set.
\<close>

datatype position = Test | Enter | Round | Leave

record timer =
  t_flag :: bool
  t_calls :: "position list"
  t_rounds :: nat
  t_skipped :: nat

definition new_timer :: timer where
  "new_timer = \<lparr>t_flag = False, t_calls = [], t_rounds = 0, t_skipped = 0\<rparr>"

text \<open>Timercpp decides when to call; \<open>may_call\<close> is what it promises. The other steps are those of a call.\<close>

inductive tick :: "(timer \<Rightarrow> bool) \<Rightarrow> timer \<Rightarrow> timer \<Rightarrow> bool" for may_call :: "timer \<Rightarrow> bool" where
  call: "may_call T \<Longrightarrow> tick may_call T (T\<lparr>t_calls := t_calls T @ [Test]\<rparr>)"
| skip: "t_calls T = xs @ Test # ys \<Longrightarrow> t_flag T \<Longrightarrow>
    tick may_call T (T\<lparr>t_calls := xs @ ys, t_skipped := Suc (t_skipped T)\<rparr>)"
| pass: "t_calls T = xs @ Test # ys \<Longrightarrow> \<not> t_flag T \<Longrightarrow> tick may_call T (T\<lparr>t_calls := xs @ Enter # ys\<rparr>)"
| enter: "t_calls T = xs @ Enter # ys \<Longrightarrow> tick may_call T (T\<lparr>t_flag := True, t_calls := xs @ Round # ys\<rparr>)"
| finish: "t_calls T = xs @ Round # ys \<Longrightarrow> tick may_call T (T\<lparr>t_calls := xs @ Leave # ys\<rparr>)"
| leave: "t_calls T = xs @ Leave # ys \<Longrightarrow>
    tick may_call T (T\<lparr>t_flag := False, t_calls := xs @ ys, t_rounds := Suc (t_rounds T)\<rparr>)"

inductive_cases tick_cases: "tick may_call T T'"

abbreviation ticks :: "(timer \<Rightarrow> bool) \<Rightarrow> timer \<Rightarrow> timer \<Rightarrow> bool" where
  "ticks may_call \<equiv> (tick may_call)\<^sup>*\<^sup>*"

text \<open>A timer whose thread calls the function and waits for it before the next call.\<close>

definition one_at_a_time :: "timer \<Rightarrow> bool" where
  "one_at_a_time T \<longleftrightarrow> t_calls T = []"

definition any_time :: "timer \<Rightarrow> bool" where
  "any_time T \<longleftrightarrow> True"

definition timer_inv :: "timer \<Rightarrow> bool" where
  "timer_inv T \<longleftrightarrow> (t_calls T = [] \<or> (\<exists>p. t_calls T = [p])) \<and>
     (t_flag T \<longleftrightarrow> t_calls T = [Round] \<or> t_calls T = [Leave]) \<and> t_skipped T = 0"

lemma timer_inv_tick:
  assumes "tick one_at_a_time T T'" and "timer_inv T"
  shows "timer_inv T'"
  using assms by (cases rule: tick.cases) (auto simp: timer_inv_def one_at_a_time_def Cons_eq_append_conv append_eq_Cons_conv)

lemma timer_inv_ticks: "ticks one_at_a_time new_timer T \<Longrightarrow> timer_inv T"
proof (induction rule: rtranclp_induct)
  case base
  show ?case by (simp add: timer_inv_def new_timer_def)
next
  case (step T T')
  then show ?case by (blast intro: timer_inv_tick)
qed

subsection \<open>The threads of the client\<close>

datatype thread_name = HeartbeatThread | PullThread | VoteThread

text \<open>
  The beginning of each of the three threads: it computes a core and binds a thread to it. All three bind the heartbeat
  thread.
\<close>

definition bind_core :: "u64 \<Rightarrow> u64 \<Rightarrow> bool \<Rightarrow> (thread_name \<rightharpoonup> u64) \<Rightarrow> (thread_name \<rightharpoonup> u64) outcome" where
  "bind_core client_id processor_count rc_ok cores =
     (if processor_count = 0 then (Some DivByZero, cores)
      else if rc_ok then (None, cores(HeartbeatThread \<mapsto> client_id mod processor_count))
      else (Some ProcessExit, cores))"

datatype 's loop_state = Looping bool 's | Returned 's | Raised exn 's

text \<open>\<open>n\<close> iterations of a loop; \<open>round n\<close> is the round with \<open>n\<close> more to come.\<close>

fun guarded_loop :: "(nat \<Rightarrow> 's \<Rightarrow> 's outcome) \<Rightarrow> nat \<Rightarrow> bool \<Rightarrow> 's \<Rightarrow> 's loop_state" where
  "guarded_loop round 0 flag s = Looping flag s"
| "guarded_loop round (Suc n) flag s =
     (if flag then Returned s
      else (case round n s of
              (Some e, s') \<Rightarrow> Raised e s'
            | (None, s') \<Rightarrow> guarded_loop round n False s'))"

definition run_thread ::
  "u64 \<Rightarrow> bool \<Rightarrow> (nat \<Rightarrow> 'd client \<Rightarrow> 'd client outcome) \<Rightarrow> nat \<Rightarrow> (thread_name \<rightharpoonup> u64) \<times> 'd client \<Rightarrow>
     (thread_name \<rightharpoonup> u64) \<times> 'd client loop_state" where
  "run_thread processor_count rc_ok round n st =
     (case bind_core (cli_id (snd st)) processor_count rc_ok (fst st) of
        (Some e, cores) \<Rightarrow> (cores, Raised e (snd st))
      | (None, cores) \<Rightarrow> (cores, guarded_loop round n False (snd st)))"

definition heartbeat_thread ::
  "u64 \<Rightarrow> bool \<Rightarrow> nat \<Rightarrow> (thread_name \<rightharpoonup> u64) \<times> 'd client \<Rightarrow> (thread_name \<rightharpoonup> u64) \<times> 'd client loop_state" where
  "heartbeat_thread processor_count rc_ok n st = run_thread processor_count rc_ok (\<lambda>_. client_heartbeat_round) n st"

text \<open>\<open>answers n\<close>: what the servers send in the round with \<open>n\<close> more to come.\<close>

record answers =
  an_headers0 :: "bytes list"
  an_headers1 :: "bytes list"
  an_blocks0 :: "bytes list \<Rightarrow> bytes list"
  an_blocks1 :: "bytes list \<Rightarrow> bytes list"

definition pull_thread ::
  "'ss blslib \<Rightarrow> 'r flexlib \<Rightarrow> ((u64 \<times> BlockHeader) list \<Rightarrow> (u64 \<times> BlockHeader) list) \<Rightarrow> (nat \<Rightarrow> answers) \<Rightarrow>
     u64 \<Rightarrow> bool \<Rightarrow> nat \<Rightarrow> (thread_name \<rightharpoonup> u64) \<times> 'd client \<Rightarrow> (thread_name \<rightharpoonup> u64) \<times> 'd client loop_state" where
  "pull_thread B L ord ans processor_count rc_ok n st =
     run_thread processor_count rc_ok
       (\<lambda>m. client_pull_round B L ord (an_headers0 (ans m)) (an_headers1 (ans m)) (an_blocks0 (ans m)) (an_blocks1 (ans m))) n st"

definition vote_thread ::
  "('ss, 'o, 'd) votelib \<Rightarrow> 'r flexlib \<Rightarrow>
     u64 \<Rightarrow> bool \<Rightarrow> nat \<Rightarrow> (thread_name \<rightharpoonup> u64) \<times> 'd client \<Rightarrow> (thread_name \<rightharpoonup> u64) \<times> 'd client loop_state" where
  "vote_thread V L processor_count rc_ok n st = run_thread processor_count rc_ok (\<lambda>_. client_vote_round V L) n st"

text \<open>A loop whose flag is its own runs its rounds one after the other.\<close>

lemma guarded_loop_rounds:
  "guarded_loop round n False s =
     (case foreach round (rev [0..<n]) s of (None, s') \<Rightarrow> Looping False s' | (Some e, s') \<Rightarrow> Raised e s')"
  by (induction n arbitrary: s) (auto split: prod.split option.split)

lemma run_thread_not_returned: "snd (run_thread procs rc_ok round n st) \<noteq> Returned s"
  by (auto simp: run_thread_def guarded_loop_rounds split: prod.split option.split)

lemma run_thread_cores: "t \<noteq> HeartbeatThread \<Longrightarrow> fst (run_thread procs rc_ok round n st) t = fst st t"
  by (auto simp: run_thread_def bind_core_def split: prod.split)

lemma heartbeat_loop:
  "guarded_loop (\<lambda>_. client_heartbeat_round) n False c =
     Looping False (c\<lparr>cli_requests := cli_requests c @ replicate n (0, HeartbeatRequest (ucast (cli_id c)))\<rparr>)"
  by (induction n arbitrary: c) (simp_all add: client_heartbeat_round_def TcClient_Heartbeat_def call_stub_def)

subsection \<open>Properties\<close>





end
