(* ===== verification/TC_ServerFb.thy ===== *)
theory TC_ServerFb
  imports TC_ServerGrpc
begin

text \<open>
  The experimental FlatBuffers service, \<open>TcConsensusFbImpl\<close>. Its tables are those of
  \<open>fb_schema/consensus.fbs\<close>; a field of a table or vector type that the sender left out is read as a null pointer,
  here \<open>None\<close>. The service has a reference to the server, but its only handler does not use it: it walks over
  the votes and answers with the content of a builder in which nothing was built.

  The lemmas give the outcome of the handler on every branch: it fails exactly on a request that lacks one of the fields it dereferences or when
  the library does not accept the answer, and votes sent this way never reach the server.
\<close>

record fb_AltBn128G1 =
  fb_limbs :: "bytes option"

record fb_BLSSigShare =
  fb_point :: "fb_AltBn128G1 option"
  fb_hint :: "string option"
  fb_t :: u64
  fb_n :: u64

record fb_BlockVote =
  fb_blockid :: u64
  fb_voterid :: u64
  fb_sigshare :: "fb_BLSSigShare option"

record fb_VoteBlocksRequest =
  fb_id :: u32
  fb_votes :: "fb_BlockVote list option"

text \<open>
  What the handler uses of FlatBuffers: reading the root table of a message, the message released
  from a new builder, and the verification of a message as a \<open>VoteBlocksResponse\<close>.
\<close>

record 'm fblib =
  fb_GetRoot :: "'m \<Rightarrow> fb_VoteBlocksRequest"
  fb_ReleaseMessage :: 'm
  fb_Verify :: "'m \<Rightarrow> bool"

definition fb_deref :: "'a option \<Rightarrow> 'a res" where
  "fb_deref p = (case p of None \<Rightarrow> Inl NullDeref | Some x \<Rightarrow> Inr x)"

text \<open>One vote: the pointer to its limbs is taken and not used.\<close>

definition fb_read_vote :: "fb_BlockVote \<Rightarrow> bytes res" where
  "fb_read_vote vote =
     bindr (fb_deref (fb_sigshare vote)) (\<lambda>sigshare.
     bindr (fb_deref (fb_point sigshare)) (\<lambda>point. fb_deref (fb_limbs point)))"

definition fb_VoteBlocks :: "'m fblib \<Rightarrow> 'm \<Rightarrow> server \<Rightarrow> 'm res \<times> server" where
  "fb_VoteBlocks F request_msg s =
     (bindr (fb_deref (fb_votes (fb_GetRoot F request_msg))) (\<lambda>votes.
      bindr (mapr fb_read_vote votes) (\<lambda>_.
      let response_msg = fb_ReleaseMessage F in
      bindr (assertr (fb_Verify F response_msg) AssertFailed) (\<lambda>_. Inr response_msg))), s)"

text \<open>A vote with its share, the point of the share and the limbs of the point.\<close>

definition fb_complete :: "fb_BlockVote \<Rightarrow> bool" where
  "fb_complete vote \<longleftrightarrow> (\<exists>share point limbs. fb_sigshare vote = Some share \<and> fb_point share = Some point \<and> fb_limbs point = Some limbs)"

lemma fb_deref_simps [simp]: "fb_deref None = Inl NullDeref" "fb_deref (Some x) = Inr x"
  by (simp_all add: fb_deref_def)

lemma fb_read_vote_cases: "fb_read_vote vote = Inl NullDeref \<and> \<not> fb_complete vote \<or> (\<exists>limbs. fb_read_vote vote = Inr limbs) \<and> fb_complete vote"
  by (auto simp: fb_read_vote_def fb_complete_def fb_deref_def bindr_def split: option.split)

lemma mapr_fb_read_vote:
  "if list_all fb_complete vs then \<exists>limbs. mapr fb_read_vote vs = Inr limbs else mapr fb_read_vote vs = Inl NullDeref"
proof (induction vs)
  case (Cons vote vs)
  then show ?case using fb_read_vote_cases [of vote] by (auto simp: bindr_def split: if_splits)
qed simp

lemma fb_VoteBlocks_outcome:
  "fb_VoteBlocks F m s =
     (case fb_votes (fb_GetRoot F m) of
        None \<Rightarrow> (Inl NullDeref, s)
      | Some vs \<Rightarrow>
          if \<not> list_all fb_complete vs then (Inl NullDeref, s)
          else if fb_Verify F (fb_ReleaseMessage F) then (Inr (fb_ReleaseMessage F), s)
          else (Inl AssertFailed, s))"
proof (cases "fb_votes (fb_GetRoot F m)")
  case (Some vs)
  then show ?thesis using mapr_fb_read_vote [of vs] by (auto simp: fb_VoteBlocks_def assertr_def Let_def split: if_splits)
qed (simp add: fb_VoteBlocks_def)

end
