(* ===== verification/Spec2Isabelle.thy ===== *)
theory Spec2Isabelle
  imports TC_Ledger TC_Liveness TC_Locks TC_Main TC_Schedule TC_ServerFb
begin

text \<open>
  A verification of TomChain, a permissioned block chain in C++: a set of servers that
  pack transactions into blocks, collect the votes of a fixed set of clients on them and
  commit a block when every client has voted.

  \<^bold>\<open>The program.\<close> Server \<open>n\<close> (of servers 1 to \<open>n\<close>) generates random transactions and packs them
  into numbered blocks (\<open>generate_tx\<close>, \<open>pack_block\<close>). Every server keeps the blocks as
  pending, relays its own to the peers and signals when a block is in sync everywhere
  (\<open>RelayBlock\<close>, \<open>RelayBlockSync\<close>). A client pulls the headers of the blocks in sync, gets the
  blocks and returns them with its vote, a BLS signature share (\<open>PullPendingBlocks\<close>,
  \<open>GetBlocks\<close>, \<open>VoteBlocks\<close>). A block has two responsible servers, found from its number
  (\<open>get_server_id\<close>); any server passes a vote on to these (\<open>RelayVote\<close>). A responsible
  server that has all votes merges the shares to a threshold signature, commits and
  stores the block and broadcasts it (\<open>merge_votes\<close>, \<open>SPBcastCommit\<close>); a peer commits what it
  receives if it has it pending. Messages are FlexBuffers maps; what a client signs is the
  hash of the block in MessagePack (\<open>get_sha256\<close>).

  \<^bold>\<open>Theories and sources\<close> (under \<open>src/\<close>):
  \<^item> \<open>TC_Prelude\<close>: 64- and 32-bit words, failures as values (\<open>exn\<close>, \<open>res\<close>, \<open>outcome\<close>), loops whose
    body may fail (\<open>foreach\<close>, \<open>decode_each\<close>) and the lemmas on them that all components share.
  \<^item> \<open>TC_Containers\<close>: \<open>std::map\<close>, \<open>tbb::concurrent_hash_map\<close> and \<open>tbb::concurrent_queue\<close> as far
    as the code uses them, with their contracts as the locales \<open>insert_map\<close>, \<open>erase_map\<close> and \<open>fifo\<close>.
  \<^item> \<open>TC_Strings\<close>: \<open>std::to_string\<close> and \<open>std::stoi\<close> on the keys of the wire format.
  \<^item> \<open>TC_Entity\<close>: \<open>src/entity/block.cpp\<close>, \<open>transaction.cpp\<close> and their headers. Responsible
    servers, the vote threshold, the merging of shares.
  \<^item> \<open>TC_FlexLib\<close>, \<open>TC_Flexbuffers\<close>: \<open>src/entity/flexbuffers_adapter.cpp\<close>. The library is a record
    of functions with the hypothesis \<open>flexlib_spec\<close>; the adapters meet the contract of the
    locale \<open>wire_codec\<close>, which gives the round trips.
  \<^item> \<open>TC_MsgPack\<close>: \<open>include/entity/msgpack_adapter.hpp\<close> and \<open>get_sha256\<close>, over the MessagePack
    library as a record of functions with the hypothesis \<open>mp_spec\<close>.
  \<^item> \<open>TC_Server\<close>, \<open>TC_ServerOps\<close>: \<open>src/server/tc-server.cpp\<close> and \<open>include/server/tc-server.hpp\<close>. The
    state of a server is the record \<open>server\<close>, blocks live in an explicit store because the
    code shares and mutates them through pointers. Start-up, packing, merging, dead blocks,
    and the well-formedness invariant \<open>server_wf\<close>.
  \<^item> \<open>TC_ServerGrpc\<close>: \<open>include/server/tc-server-grpc.hpp\<close>, the service for the clients.
  \<^item> \<open>TC_PeerGrpc\<close>: \<open>include/server/tc-server-peer-grpc.hpp\<close>, the service between servers, the
    senders (which share the contract \<open>peer_sender\<close>), and the loops over the peers in
    \<open>tc-server.cpp\<close>.
  \<^item> \<open>TC_Invariant\<close>: the safety invariant \<open>server_inv\<close> of one server and that every operation,
    handler and sender keeps it. \<open>TC_Progress\<close>: what no operation undoes (\<open>after\<close>).
  \<^item> \<open>TC_Commit\<close>: the path of one block from the votes to the commit at all peers.
  \<^item> \<open>TC_Network\<close>: all servers together, as a step relation \<open>net_step\<close> whose steps are the rounds
    of the timers and threads of \<open>schedule\<close>, calls of clients and deliveries of requests, each
    without interruption, and the invariant of its reachable states.
  \<^item> \<open>TC_Actions\<close>: the same handlers, senders and timers cut into atomic actions, one access to a shared
    container each, and the proof that the actions of a handler, executed in a row, are the handler.
  \<^item> \<open>TC_Threads\<close>: the threads of all servers, interleaved action by action (\<open>mstep\<close>, \<open>interleaved\<close>), and
    that the invariant of the network holds at every point. \<open>TC_Interleaving\<close>: every step of the network
    is a sequence of steps of threads, what no interleaving undoes, and that the background threads
    never fail.
  \<^item> \<open>TC_Locks\<close>: the mutexes and accessors that each handler and timer takes, in the order of the code,
    and when threads that take them can deadlock.
  \<^item> \<open>TC_Ledger\<close>: the specification that the threads implement, a replicated ledger of proposals and
    commits, and the refinement; the argument is the locale \<open>forward_simulation\<close>.
  \<^item> \<open>TC_Client\<close>: \<open>src/client/tc-client.cpp\<close>, \<open>include/client/tc-client.hpp\<close> and
    \<open>include/client/tc-client-grpc.hpp\<close>. The client's state is the record \<open>client\<close>, with the requests
    it sends as an observation; the choice of servers, start-up, the five remote calls and the
    rounds of its threads, and their composition with the handlers of the servers.
  \<^item> \<open>TC_Attest\<close>: the way of the votes through the servers. The locale \<open>attestation\<close> is what the argument
    needs to know of a proper vote. \<open>TC_System\<close>: the threads of all servers together with clients that run the code of
    \<open>TC_Client\<close>, as the step relation \<open>sys_step\<close>; there \<open>attestation\<close> is interpreted with the votes that
    clients have signed. \<open>TC_Liveness\<close>: every committed block is signed by all clients, and from every reachable state
    the clients' votes lead on to the commit of a block, through the relay queues and the broadcast.
  \<^item> \<open>TC_Main\<close>: the \<open>main\<close> functions of \<open>tc-server.cpp\<close> and \<open>tc-client.cpp\<close>: command line, configuration file, the
    number given with \<open>--id\<close>, and that the programs start the nodes and clients of the other theories.
  \<^item> \<open>TC_Schedule\<close>: how \<open>schedule\<close> of the server and of the client repeats rounds, with the flags
    of the timers (\<open>tick\<close>) and the loops of the client's threads (\<open>guarded_loop\<close>).
  \<^item> \<open>TC_ServerFb\<close>: \<open>include/server/tc-server-grpc-fb.hpp\<close>, the FlatBuffers handler, which no server registers.

  \<^bold>\<open>What is shown.\<close> Of each component: its functional behaviour on every branch, failures
  included, that its loops end, the round trips of the wire format and the bounds of the
  64-bit arithmetic; these properties close the theory of the component. Of the whole: the
  properties below. Agreement, quorum, finality, well-formedness and the refinement of the
  ledger hold at every point of every interleaving of the threads of all servers, whatever the callers send
  and however requests are delayed, repeated, reordered or lost; the senders and timers do not fail there,
  and the locks do not deadlock as long as a waiting writer does not hold up readers. The
  liveness properties say that the votes of all clients suffice, for arbitrary ballots, for what the
  client's own code sends to one server, and in the whole system: there each client may be
  connected to any servers, some votes may already be counted, relayed or queued, and the block ends up
  committed wherever it was pending. With clients that run
  their code a committed block carries the votes of exactly the clients, each a signature of
  that block (\<open>TC_Liveness\<close>). The initial states of these statements are the ones that the programs reach when they are
  started with their numbers on a common configuration file (\<open>TC_Main\<close>).

  \<^bold>\<open>Parameters.\<close> Code outside the repository is an argument: libBLS (\<open>blslib\<close>, with \<open>bls_set_spec\<close>
  and \<open>bls_ctor_spec\<close> on its constructors), key generation (\<open>keylib\<close>), FlexBuffers (\<open>flexlib\<close>),
  MessagePack (\<open>msgpacklib\<close>), signing and the string forms of keys and signatures (\<open>signlib\<close>, \<open>sigstr\<close>),
  SHA-256, RocksDB in the client (\<open>rocksdb\<close>), the argument parser (\<open>arglib\<close>, with \<open>argparse_spec\<close>), JSON (\<open>jsonlib\<close>, with
  \<open>json_spec\<close>) and FlatBuffers (\<open>fblib\<close>); \<open>sign_spec\<close> asks that the shares it signs can be written and read. So are clocks, random draws, the traversal order of hash maps (\<open>visits_all\<close>) and the
  status of remote calls. Each hypothesis is met by a concrete instance (\<open>ref_bls\<close>,
  \<open>sample_keys\<close>, \<open>ref_flex\<close>, \<open>ref_msgpack\<close>, \<open>ref_vote\<close>, \<open>ref_args\<close>, \<open>ref_json\<close>), on which the witnesses run.

  \<^bold>\<open>Bounds.\<close> Numbers wrap at 64 bits as in the code; agreement and finality assume that at most
  \<open>2 ^ 64\<close> blocks have been packed, after which block numbers repeat. The packing loop has
  the code's own bound \<open>INT_MAX\<close>; the other loops empty a queue and are shown to end, so no
  fuel is needed.

  \<^bold>\<open>Threads.\<close> Atomic in the model is what the code does while it holds the accessor of an entry, or
  one operation of a concurrent container. Two accesses of the code have no lock: the copy of
  \<open>pending_blks\<close> reads entries while others may write to the blocks behind them, and a block is
  serialised while votes may be added to it. For these the model takes one value of the block, as it
  was before or after the other access; a torn read would be undefined behaviour in C++. Rounds of one timer may
  overlap in \<open>TC_Threads\<close>, and the packing thread may run more than once, so that the statements do not rest on
  the flags of \<open>schedule\<close>; \<open>TC_Schedule\<close> shows that a timer which waits for its calls never makes them overlap.

  \<^bold>\<open>Not modelled.\<close> The intervals of the timers, logging and profiling (of which only the configuration keys are read),
  the server's RocksDB beyond the sequence of its \<open>Put\<close> calls, the class \<open>FBBMgr\<close> of \<open>tc-server-fb.hpp\<close>,
  whose operations are declared but implemented nowhere, and the tests, which measure libraries.
  A client whose process has ended by an exception may still act in
  \<open>TC_System\<close>, which only adds behaviour.
\<close>

subsection \<open>One block, from the votes to the commit\<close>

text \<open>
  When all clients vote for a block at a server responsible for it, one round of
  merging commits it there under its number with exactly these votes, and one round of
  broadcasting sends each peer a request that makes it commit the same block, with the
  same transactions and votes, if it has the block pending.
\<close>

theorem commit_end_to_end:
  fixes v :: "u64 \<Rightarrow> BlockVote"
  assumes "flexlib_spec L" and "poll B C k v blk cs"
    and "mergeable B (cf_client_count C) v (ucast ` set cs)"
    and "server_inv B L (cf_client_count C) P g s" and "linked (peers_of C s) s"
    and "k \<notin> dead_block s" and "server_id s \<in> responsible C k"
    and "map_of (pending_blks s) k = Some a" and "votes (heap s ! a) = []" and "pb_merge_queue s = []"
    and "\<forall>t \<in> set (peers_of C s). map_of (bcast_commit_blocks s) t = Some []"
  shows "\<exists>s1 s2 s3 b.
      foreach (\<lambda>i. VoteBlocks B L C i [Block_to_bytes L (blk i)]) cs s = (None, s1)
    \<and> merge_votes B L C clk s1 = (None, s2) \<and> bcast_commits L C clk2 s2 = (None, s3)
    \<and> core b = core (heap s ! a)
    \<and> (\<forall>j. map_of (votes b) j = (if j \<in> ucast ` set cs then Some (v j) else None))
    \<and> committed_as k b s3
    \<and> (\<forall>t \<in> set (peers_of C s). \<exists>req. (t, req) \<in> set (outbox s3)
        \<and> (\<forall>clk' r. server_wf r \<longrightarrow> map_of (pending_blks r) k \<noteq> None \<longrightarrow>
            (\<exists>r'. handle_peer B L C clk' req r = (None, r') \<and> committed_as k b r')))"
  using assms by (rule commit_round)

theorem commit_end_to_end_witness:
  "\<exists>s1 s2 s3 b req.
      foreach (\<lambda>i. VoteBlocks ref_bls ref_flex (sample_conf 2) i [Block_to_bytes ref_flex sample_block]) [2, 1] round_server = (None, s1)
    \<and> merge_votes ref_bls ref_flex (sample_conf 2) (\<lambda>i. 5) s1 = (None, s2)
    \<and> bcast_commits ref_flex (sample_conf 2) (\<lambda>t. 6) s2 = (None, s3)
    \<and> committed_as 7 b s3 \<and> (1, req) \<in> set (outbox s3)
    \<and> (\<exists>r'. handle_peer ref_bls ref_flex (sample_conf 2) (\<lambda>j. 7) req pending_server = (None, r')
          \<and> committed_as 7 b r')"
proof -
  let ?C = "sample_conf 2"
  have inv: "server_inv ref_bls ref_flex (cf_client_count ?C) {core (mk_Block 7 0 0)} 0 round_server"
    using round_server_inv by simp
  have h: "7 \<notin> dead_block round_server" "server_id round_server \<in> responsible ?C 7"
    "map_of (pending_blks round_server) 7 = Some 0" "votes (heap round_server ! 0) = []"
    "pb_merge_queue round_server = []"
    "\<forall>t \<in> set (peers_of ?C round_server). map_of (bcast_commit_blocks round_server) t = Some []"
    by (simp_all add: round_server_def new_server_def mk_Block_def peer_ids_2)
  have t: "1 \<in> set (peers_of ?C round_server)" by (simp add: round_server_def new_server_def peer_ids_2)
  have r: "map_of (pending_blks pending_server) 7 \<noteq> None" by (simp add: pending_server_def)
  from commit_end_to_end [OF ref_flex_spec sample_poll sample_mergeable inv round_server_linked h,
      of "\<lambda>i. 5" "\<lambda>t. 6"]
  obtain s1 s2 s3 b where run:
    "foreach (\<lambda>i. VoteBlocks ref_bls ref_flex ?C i [Block_to_bytes ref_flex sample_block]) [2, 1] round_server = (None, s1)"
    "merge_votes ref_bls ref_flex ?C (\<lambda>i. 5) s1 = (None, s2)" "bcast_commits ref_flex ?C (\<lambda>t. 6) s2 = (None, s3)"
    "committed_as 7 b s3"
    and peer: "\<forall>t \<in> set (peers_of ?C round_server). \<exists>req. (t, req) \<in> set (outbox s3)
        \<and> (\<forall>clk' r. server_wf r \<longrightarrow> map_of (pending_blks r) 7 \<noteq> None \<longrightarrow>
            (\<exists>r'. handle_peer ref_bls ref_flex ?C clk' req r = (None, r') \<and> committed_as 7 b r'))"
    by blast
  have "\<exists>req. (1, req) \<in> set (outbox s3) \<and> (\<exists>r'. handle_peer ref_bls ref_flex ?C (\<lambda>j. 7) req pending_server = (None, r')
      \<and> committed_as 7 b r')"
    using bspec [OF peer t] pending_server_wf r by blast
  with run show ?thesis by blast
qed

subsection \<open>The servers together\<close>

text \<open>The sample run of the network, as a state of the machine.\<close>

lemma machine_run_end:
  "\<exists>M b. interleaved ref_bls ref_flex sample_keys (sample_conf 2) M \<and> packed (m_net M) = [run_block] \<and>
     committed_as 2000000 b (nodes (m_net M) 2) \<and> committed_as 2000000 b (nodes (m_net M) 1)"
proof -
  obtain N b where "reachable ref_bls ref_flex sample_keys (sample_conf 2) N" "packed N = [run_block]"
    "committed_as 2000000 b (nodes N 2)" "committed_as 2000000 b (nodes N 1)"
    using run_end by blast
  then show ?thesis
    by (intro exI [of _ "\<lparr>m_net = N, threads = []\<rparr>"] exI [of _ b]) (simp add: reachable_interleaved)
qed

text \<open>
  C1: agreement. However the threads of all servers are interleaved, whatever two servers hold under
  one block number, pending or committed, has the same base, proposal time and
  transactions, as long as fewer blocks have been packed than the numbers can tell apart.
\<close>

theorem servers_agree:
  assumes "bls_ctor_spec B" and "flexlib_spec L" and "interleaved B L K C M" and "length (packed (m_net M)) \<le> 2 ^ 64"
    and "map_of (pending_blks (nodes (m_net M) i)) k = Some a \<or> map_of (committed_blks (nodes (m_net M) i)) k = Some a"
    and "map_of (pending_blks (nodes (m_net M) j)) k = Some b \<or> map_of (committed_blks (nodes (m_net M) j)) k = Some b"
  shows "core (heap (nodes (m_net M) i) ! a) = core (heap (nodes (m_net M) j) ! b)"
proof -
  note inv = net_inv_interleaved [OF assms(1-3)]
  show ?thesis
    using held_valid [OF inv assms(5)] held_valid [OF inv assms(6)] by (intro net_inv_agree [OF inv assms(4)]) simp_all
qed

theorem servers_agree_witness:
  "\<exists>M a b. interleaved ref_bls ref_flex sample_keys (sample_conf 2) M
     \<and> map_of (committed_blks (nodes (m_net M) 2)) 2000000 = Some a \<and> map_of (committed_blks (nodes (m_net M) 1)) 2000000 = Some b
     \<and> core (heap (nodes (m_net M) 2) ! a) = core (heap (nodes (m_net M) 1) ! b)"
proof -
  obtain M a b where M: "interleaved ref_bls ref_flex sample_keys (sample_conf 2) M" "length (packed (m_net M)) \<le> 2 ^ 64"
    "map_of (committed_blks (nodes (m_net M) 2)) 2000000 = Some a" "map_of (committed_blks (nodes (m_net M) 1)) 2000000 = Some b"
    using machine_run_end by (auto simp: committed_as_def)
  from servers_agree [OF bls_ctor_ref ref_flex_spec M(1,2) disjI2 [OF M(3)] disjI2 [OF M(4)]] M show ?thesis
    by blast
qed

text \<open>
  C2: nothing is committed without a quorum or out of nothing. In every interleaving of the threads a
  committed block is filed under its own number, carries votes under at least as many
  different voter numbers as there are clients, and has the contents of a block that the
  packing server has packed.
\<close>

theorem committed_has_quorum:
  assumes "bls_ctor_spec B" and "flexlib_spec L" and "interleaved B L K C M"
    and "map_of (committed_blks (nodes (m_net M) i)) k = Some a"
  shows "a < length (heap (nodes (m_net M) i)) \<and> block_id (heap (nodes (m_net M) i) ! a) = k
    \<and> unat (cf_client_count C) \<le> card (dom (map_of (votes (heap (nodes (m_net M) i) ! a))))
    \<and> (\<exists>p \<in> set (packed (m_net M)). core (heap (nodes (m_net M) i) ! a) = core p)"
  using committed_quorum [OF net_inv_interleaved [OF assms(1-3)] assms(4)] by auto

theorem committed_has_quorum_witness:
  "\<exists>M a. interleaved ref_bls ref_flex sample_keys (sample_conf 2) M \<and> map_of (committed_blks (nodes (m_net M) 1)) 2000000 = Some a
     \<and> 2 \<le> card (dom (map_of (votes (heap (nodes (m_net M) 1) ! a)))) \<and> core (heap (nodes (m_net M) 1) ! a) = core run_block"
proof -
  obtain M a where M: "interleaved ref_bls ref_flex sample_keys (sample_conf 2) M" "packed (m_net M) = [run_block]"
    "map_of (committed_blks (nodes (m_net M) 1)) 2000000 = Some a"
    using machine_run_end by (auto simp: committed_as_def)
  from committed_has_quorum [OF bls_ctor_ref ref_flex_spec M(1,3)] M show ?thesis by auto
qed

text \<open>
  C4: when start-up succeeded everywhere, then from every state in which a
  server responsible for a block has it pending without votes and has nothing waiting for
  merging or broadcast, whatever threads are in the middle of their work anywhere, the servers can reach a
  state in which that server and every peer that has the
  block pending have committed it, with the same transactions and the votes of all clients.
\<close>

theorem commit_reaches_all:
  fixes v :: "u64 \<Rightarrow> BlockVote"
  assumes "bls_ctor_spec B" and "flexlib_spec L" and "interleaved B L K C M" and "start_ok K C"
    and "poll B C k v blk cs" and "mergeable B (cf_client_count C) v (ucast ` set cs)"
    and "k \<notin> dead_block (nodes (m_net M) i)" and "i \<in> responsible C k"
    and "map_of (pending_blks (nodes (m_net M) i)) k = Some a" and "votes (heap (nodes (m_net M) i) ! a) = []"
    and "pb_merge_queue (nodes (m_net M) i) = []"
    and "\<forall>t \<in> set (peers_of C (nodes (m_net M) i)). map_of (bcast_commit_blocks (nodes (m_net M) i)) t = Some []"
  shows "\<exists>M' b. msteps B L K C M M' \<and> threads M' = threads M \<and> core b = core (heap (nodes (m_net M) i) ! a)
    \<and> (\<forall>j. map_of (votes b) j = (if j \<in> ucast ` set cs then Some (v j) else None))
    \<and> committed_as k b (nodes (m_net M') i)
    \<and> (\<forall>t \<in> set (peers_of C (nodes (m_net M) i)). map_of (pending_blks (nodes (m_net M) t)) k \<noteq> None \<longrightarrow>
         committed_as k b (nodes (m_net M') t))"
proof -
  note inv = net_inv_interleaved [OF assms(1-3)] and link = interleaved_linked(1,2) [OF assms(4,3), of i]
  obtain N' b where N': "net_steps B L K C (m_net M) N'" and b: "core b = core (heap (nodes (m_net M) i) ! a)"
    "\<forall>j. map_of (votes b) j = (if j \<in> ucast ` set cs then Some (v j) else None)" "committed_as k b (nodes N' i)"
    "\<forall>t \<in> set (peers_of C (nodes (m_net M) i)). map_of (pending_blks (nodes (m_net M) t)) k \<noteq> None \<longrightarrow> committed_as k b (nodes N' t)"
    using commit_schedule [where K = K, OF assms(2) inv link assms(5-12)] by (elim exE conjE)
  have "msteps B L K C M (M\<lparr>m_net := N'\<rparr>)" using N' by (rule net_steps_msteps) simp
  with b show ?thesis by (intro exI [of _ "M\<lparr>m_net := N'\<rparr>"] exI [of _ b]) simp
qed

theorem commit_reaches_all_witness:
  "\<exists>M' b. msteps ref_bls ref_flex sample_keys (sample_conf 2) \<lparr>m_net = run_both, threads = []\<rparr> M' \<and> core b = core run_block
     \<and> committed_as 2000000 b (nodes (m_net M') 2) \<and> committed_as 2000000 b (nodes (m_net M') 1)"
proof -
  let ?M = "\<lparr>m_net = run_both, threads = []\<rparr>"
  have "heap (nodes run_both 2) ! 0 = run_block"
    by (simp add: run_both_facts run_relayed_def run_packed_eq)
  with commit_reaches_all [where M = ?M, unfolded machine.select_convs, OF bls_ctor_ref ref_flex_spec reachable_interleaved [OF run_both_reachable]
      sample_start_ok run_poll sample_mergeable run_both_ready] show ?thesis
    unfolding run_both_peers by (simp add: run_both_facts) blast
qed

text \<open>
  C5: finality. A number that a server has committed stays committed at that server under
  every further interleaving of threads, with the same base, proposal time and transactions.
\<close>

theorem commit_is_final:
  assumes "bls_ctor_spec B" and "flexlib_spec L" and "interleaved B L K C M" and "msteps B L K C M M'"
    and "length (packed (m_net M')) \<le> 2 ^ 64" and "map_of (committed_blks (nodes (m_net M) i)) k = Some a"
  shows "\<exists>a'. map_of (committed_blks (nodes (m_net M') i)) k = Some a'
    \<and> core (heap (nodes (m_net M') i) ! a') = core (heap (nodes (m_net M) i) ! a)"
proof -
  let ?N = "m_net M" and ?N' = "m_net M'"
  note inv = net_inv_interleaved [OF assms(1-3)]
  note inv' = net_inv_interleaved [OF assms(1,2) interleaved_steps [OF assms(4,3)]]
  obtain ps where ps: "packed ?N' = packed ?N @ ps" and "after (nodes ?N i) (nodes ?N' i)"
    using msteps_after [OF assms(4)] by blast
  then obtain a' where a': "map_of (committed_blks (nodes ?N' i)) k = Some a'"
    using assms(6) by (auto simp: after_def domIff subset_iff)
  have here: "a < length (heap (nodes ?N i)) \<and> block_id (heap (nodes ?N i) ! a) = k"
    using held_valid [OF inv] assms(6) by blast
  have there: "a' < length (heap (nodes ?N' i)) \<and> block_id (heap (nodes ?N' i) ! a') = k"
    using held_valid [OF inv'] a' by blast
  obtain m where m: "m < length (packed ?N)" "core (heap (nodes ?N i) ! a) = core (packed ?N ! m)"
    using node_block [OF inv] here by blast
  obtain m' where m': "m' < length (packed ?N')" "core (heap (nodes ?N' i) ! a') = core (packed ?N' ! m')"
    using node_block [OF inv'] there by blast
  have "m < length (packed ?N')" "packed ?N' ! m = packed ?N ! m" using m(1) by (simp_all add: ps nth_append)
  moreover from this have "m = m'"
    using here there m(2) m'(2) by (intro packed_numbers_unique [OF inv' assms(5) _ m'(1)]) (auto simp: core_def)
  ultimately show ?thesis using a' m(2) m'(2) by simp
qed

theorem commit_is_final_witness:
  "\<exists>M M' a a'. interleaved ref_bls ref_flex sample_keys (sample_conf 2) M \<and> threads M' = [(2, [Timer (MergeTake (\<lambda>i. 1))])]
     \<and> mstep ref_bls ref_flex sample_keys (sample_conf 2) M M'
     \<and> map_of (committed_blks (nodes (m_net M) 2)) 2000000 = Some a \<and> map_of (committed_blks (nodes (m_net M') 2)) 2000000 = Some a'"
proof -
  obtain N a where N: "reachable ref_bls ref_flex sample_keys (sample_conf 2) N" "packed N = [run_block]"
    "map_of (committed_blks (nodes N 2)) 2000000 = Some a"
    using run_end by (auto simp: committed_as_def)
  let ?M = "\<lparr>m_net = N, threads = []\<rparr>" and ?M' = "\<lparr>m_net = N, threads = [(2, [Timer (MergeTake (\<lambda>i. 1))])]\<rparr>"
  note M = reachable_interleaved [OF N(1)]
  have step: "mstep ref_bls ref_flex sample_keys (sample_conf 2) ?M ?M'"
    using mstep.spawn [OF spawns.merge, where M = ?M] by simp
  then have steps: "msteps ref_bls ref_flex sample_keys (sample_conf 2) ?M ?M'" by (rule r_into_rtranclp)
  have "length (packed (m_net ?M')) \<le> 2 ^ 64" and "map_of (committed_blks (nodes (m_net ?M) 2)) 2000000 = Some a"
    using N by simp_all
  from commit_is_final [OF bls_ctor_ref ref_flex_spec M steps this]
  obtain a' where "map_of (committed_blks (nodes (m_net ?M') 2)) 2000000 = Some a'" by blast
  with M step N(3) show ?thesis by (intro exI [of _ ?M] exI [of _ ?M'] exI [of _ a] exI [of _ a']) simp
qed

subsection \<open>Clients and servers\<close>

text \<open>
  The clients' own code brings a block to its commit. When every client has got the block and
  votes, what each of them sends is a request for both of its servers; handled by a server
  responsible for the block, in any order of the clients, these requests make it
  merge, commit and broadcast the block with the votes of exactly these clients.
\<close>

theorem clients_commit:
  assumes "flexlib_spec L" and "cf_server_count C \<noteq> 0" and "cf_server_count C \<noteq> - 1"
    and "distinct cs" and "cs \<noteq> []" and "length cs = unat (cf_client_count C)"
    and "\<forall>i \<in> set cs. holds_block V k i (c i)" and "shares_merge (vl_bls V) C cs"
    and "server_inv (vl_bls V) L (cf_client_count C) P g s" and "linked (peers_of C s) s"
    and "k \<notin> dead_block s" and "server_id s \<in> responsible C k"
    and "map_of (pending_blks s) k = Some a" and "votes (heap s ! a) = []" and "pb_merge_queue s = []"
    and "\<forall>t \<in> set (peers_of C s). map_of (bcast_commit_blocks s) t = Some []"
  shows "\<exists>voted s1 s2 s3 b.
      (\<forall>i \<in> set cs. \<exists>c'. TcClient_VoteBlocks V L (c i) = (None, c') \<and> cli_pending_blks c' = []
         \<and> cli_requests c' = cli_requests (c i) @ [(0, VoteBlocksRequest i (voted i)), (1, VoteBlocksRequest i (voted i))])
    \<and> foreach (\<lambda>i. VoteBlocks (vl_bls V) L C i (voted i)) cs s = (None, s1)
    \<and> merge_votes (vl_bls V) L C clk s1 = (None, s2) \<and> bcast_commits L C clk2 s2 = (None, s3)
    \<and> core b = core (heap s ! a) \<and> dom (map_of (votes b)) = ucast ` set cs \<and> committed_as k b s3"
proof -
  have "\<forall>i. \<exists>c' v vb. i \<in> set cs \<longrightarrow> (TcClient_VoteBlocks V L (c i) = (None, c') \<and> cli_pending_blks c' = []
    \<and> cli_requests c' = cli_requests (c i) @ [(0, VoteBlocksRequest i [Block_to_bytes L vb]), (1, VoteBlocksRequest i [Block_to_bytes L vb])]
    \<and> ballot (vl_bls V) k i v vb \<and> vote_ok (vl_bls V) v \<and> vote_block_id v = k \<and> vote_voter_id v = ucast i
    \<and> vote_sig_share v \<noteq> None \<and> int (unat i) \<le> INT_MAX)"
    using client_ballot assms(7) by blast
  then obtain vote vb where
    sent: "\<And>i. i \<in> set cs \<Longrightarrow> \<exists>c'. TcClient_VoteBlocks V L (c i) = (None, c') \<and> cli_pending_blks c' = []
      \<and> cli_requests c' = cli_requests (c i) @ [(0, VoteBlocksRequest i [Block_to_bytes L (vb i)]), (1, VoteBlocksRequest i [Block_to_bytes L (vb i)])]"
    and vote: "\<And>i. i \<in> set cs \<Longrightarrow> ballot (vl_bls V) k i (vote i) (vb i) \<and> vote_ok (vl_bls V) (vote i)
      \<and> vote_sig_share (vote i) \<noteq> None \<and> int (unat i) \<le> INT_MAX"
    unfolding choice_iff by blast
  define v :: "u64 \<Rightarrow> BlockVote" where "v j = vote (ucast j)" for j
  have v: "v (ucast i) = vote i" for i :: u32
    by (simp add: v_def unsigned_ucast_eq take_bit_word_eq_self)
  have poll: "poll (vl_bls V) C k v vb cs" using assms(2-6) vote by (simp add: poll_def v)
  have "\<forall>i \<in> set cs. vote_sig_share (v (ucast i)) \<noteq> None" using vote by (simp add: v)
  then have merge: "mergeable (vl_bls V) (cf_client_count C) v (ucast ` set cs)"
    using assms(8) unfolding shares_merge_def by blast
  obtain s1 s2 s3 b where
    run: "foreach (\<lambda>i. VoteBlocks (vl_bls V) L C i [Block_to_bytes L (vb i)]) cs s = (None, s1)"
      "merge_votes (vl_bls V) L C clk s1 = (None, s2)" "bcast_commits L C clk2 s2 = (None, s3)"
      "core b = core (heap s ! a)" "committed_as k b s3"
    and look: "\<forall>j. map_of (votes b) j = (if j \<in> ucast ` set cs then Some (v j) else None)"
    using commit_round [OF assms(1) poll merge assms(9-16), of clk clk2] by (elim exE conjE)
  have "dom (map_of (votes b)) = ucast ` set cs" using look by (auto simp: dom_def split: if_splits)
  moreover have "\<forall>i \<in> set cs. \<exists>c'. TcClient_VoteBlocks V L (c i) = (None, c') \<and> cli_pending_blks c' = []
      \<and> cli_requests c' = cli_requests (c i) @ [(0, VoteBlocksRequest i [Block_to_bytes L (vb i)]), (1, VoteBlocksRequest i [Block_to_bytes L (vb i)])]"
    using sent by (rule ballI)
  ultimately show ?thesis
    using run by (intro exI [of _ "\<lambda>i. [Block_to_bytes L (vb i)]"] exI [of _ s1] exI [of _ s2] exI [of _ s3] exI [of _ b] conjI)
qed

theorem clients_commit_witness:
  "\<exists>voted s1 s2 s3 b.
      foreach (\<lambda>i. VoteBlocks ref_bls ref_flex (sample_conf 2) i (voted i)) [2, 1] round_server = (None, s1)
    \<and> merge_votes ref_bls ref_flex (sample_conf 2) (\<lambda>i. 5) s1 = (None, s2)
    \<and> bcast_commits ref_flex (sample_conf 2) (\<lambda>t. 6) s2 = (None, s3)
    \<and> dom (map_of (votes b)) = {1, 2} \<and> committed_as 7 b s3"
proof -
  let ?C = "sample_conf 2" and ?cs = "[2, 1] :: u32 list"
  let ?c = "\<lambda>i :: u32. keyed_client\<lparr>cli_id := ucast i, cli_pending_blks := [mk_Block 7 0 0]\<rparr>"
  have bls: "vl_bls ref_vote = ref_bls" by (simp add: ref_vote_def)
  have hold: "\<forall>i \<in> set ?cs. holds_block ref_vote 7 i (?c i)"
    by (simp add: holds_block_def client_ready_def keyed_client_def started_client_def TcClient_init_def sample_cc_def
      buffers_ok_def sample_client_def signs_def ref_vote_def ref_sign_def share_ok_def ref_bls_def INT_MAX_def
      votable_def sendable_def block_shares_ok_def Block_ok_def entity_defs)
  have merge: "shares_merge (vl_bls ref_vote) ?C ?cs"
    unfolding shares_merge_def bls by (auto intro!: ref_mergeable)
  have inv: "server_inv (vl_bls ref_vote) ref_flex (cf_client_count ?C) {core (mk_Block 7 0 0)} 0 round_server"
    using round_server_inv by (simp add: bls)
  have h: "7 \<notin> dead_block round_server" "server_id round_server \<in> responsible ?C 7"
    "map_of (pending_blks round_server) 7 = Some 0" "votes (heap round_server ! 0) = []"
    "pb_merge_queue round_server = []"
    "\<forall>t \<in> set (peers_of ?C round_server). map_of (bcast_commit_blocks round_server) t = Some []"
    by (simp_all add: round_server_def new_server_def mk_Block_def peer_ids_2)
  have n: "cf_server_count ?C \<noteq> 0" "cf_server_count ?C \<noteq> - 1" "distinct ?cs" "?cs \<noteq> []" "length ?cs = unat (cf_client_count ?C)"
    by simp_all
  obtain voted s1 s2 s3 b where
    r: "foreach (\<lambda>i. VoteBlocks ref_bls ref_flex (sample_conf 2) i (voted i)) [2, 1] round_server = (None, s1)"
      "merge_votes ref_bls ref_flex (sample_conf 2) (\<lambda>i. 5) s1 = (None, s2)"
      "bcast_commits ref_flex (sample_conf 2) (\<lambda>t. 6) s2 = (None, s3)"
      "dom (map_of (votes b)) = ucast ` set ?cs" "committed_as 7 b s3"
    using clients_commit [OF ref_flex_spec n hold merge inv round_server_linked h, of "\<lambda>i. 5" "\<lambda>t. 6"]
    unfolding bls by (elim exE conjE)
  have "ucast ` set ?cs = ({1, 2} :: u64 set)" by auto
  with r show ?thesis by (intro exI [of _ voted] exI [of _ s1] exI [of _ s2] exI [of _ s3] exI [of _ b]) simp
qed

text \<open>
  C8: it does not matter where a client votes. On a server responsible for a block, the votes of
  any clients received from the clients themselves have the same effect as the same
  votes relayed by another server in one request, apart from the queues of votes to relay.
\<close>

theorem relayed_votes_equivalent:
  fixes v :: "u64 \<Rightarrow> BlockVote"
  assumes "flexlib_spec L" and "cf_server_count C \<noteq> 0" and "cf_server_count C \<noteq> - 1"
    and "server_wf s" and "peers_ready C s" and "server_id s \<in> responsible C k" and "k \<notin> dead_block s"
    and "\<forall>i \<in> set cs. ballot B k i (v (ucast i)) (blk i) \<and> vote_ok B (v (ucast i))
      \<and> vote_block_id (v (ucast i)) = k \<and> vote_voter_id (v (ucast i)) = ucast i"
  shows "\<exists>s1 s2 qs. foreach (\<lambda>i. VoteBlocks B L C i [Block_to_bytes L (blk i)]) cs s = (None, s1)
    \<and> handle_peer B L C clk (RelayVoteRequest j (map (BlockVote_to_bytes L) (map (\<lambda>i. v (ucast i)) cs))) s = (None, s2)
    \<and> s1 = s2\<lparr>relay_votes := qs\<rparr>"
proof -
  have b: "\<forall>i \<in> set cs. ballot B k i (v (ucast i)) (blk i)" using assms(8) by blast
  obtain qs where direct: "foreach (\<lambda>i. VoteBlocks B L C i [Block_to_bytes L (blk i)]) cs s =
      (None, (snd (cast C k v (map ucast cs) s))\<lparr>relay_votes := qs\<rparr>)"
    using VoteBlocks_cast [OF assms(1-3) b assms(7,5,6,4)] by blast
  have "\<forall>j \<in> set (map ucast cs). vote_block_id (v j) = k \<and> vote_voter_id (v j) = j \<and> vote_ok B (v j)"
    using assms(8) by simp
  from relay_cast [OF assms(1,4,7) this, of C clk j]
  have relayed: "handle_peer B L C clk (RelayVoteRequest j (map (BlockVote_to_bytes L) (map (\<lambda>i. v (ucast i)) cs))) s =
      cast C k v (map ucast cs) s" by (simp add: comp_def)
  have "fst (cast C k v (map ucast cs) s) = None"
    unfolding cast_def using assms(4) by (rule foreach_no_failure [where I = server_wf]) (simp_all add: count_vote_ok)
  then have "cast C k v (map ucast cs) s = (None, snd (cast C k v (map ucast cs) s))" by (simp add: prod_eq_iff)
  with direct relayed show ?thesis
    by (intro exI [of _ "(snd (cast C k v (map ucast cs) s))\<lparr>relay_votes := qs\<rparr>"]
        exI [of _ "snd (cast C k v (map ucast cs) s)"] exI [of _ qs]) simp
qed

theorem relayed_votes_equivalent_witness:
  "\<exists>s1 s2 qs. VoteBlocks ref_bls ref_flex (sample_conf 2) 1 [Block_to_bytes ref_flex sample_block] vote_server = (None, s1)
     \<and> handle_peer ref_bls ref_flex (sample_conf 2) (\<lambda>i. 0) (RelayVoteRequest 1 [BlockVote_to_bytes ref_flex (sample_vote 7 1)]) vote_server = (None, s2)
     \<and> s1 = s2\<lparr>relay_votes := qs\<rparr>"
proof -
  let ?C = "sample_conf 2"
  have n: "cf_server_count ?C \<noteq> 0" "cf_server_count ?C \<noteq> - 1" by simp_all
  have s: "server_id vote_server \<in> responsible ?C 7" "7 \<notin> dead_block vote_server"
    by (simp_all add: vote_server_def new_server_def)
  have v: "\<forall>i \<in> set [1 :: u32]. ballot ref_bls 7 i (sample_vote 7 (ucast i)) sample_block \<and> vote_ok ref_bls (sample_vote 7 (ucast i))
      \<and> vote_block_id (sample_vote 7 (ucast i)) = 7 \<and> vote_voter_id (sample_vote 7 (ucast i)) = ucast i"
    using sample_ballot [of 1] by (simp add: sample_vote_ok) (simp add: sample_vote_def)
  from relayed_votes_equivalent [OF ref_flex_spec n vote_server_wf vote_server_ready s v, of "\<lambda>i. 0" 1]
  show ?thesis by (simp add: foreach_single del: foreach.simps)
qed

subsection \<open>Every state\<close>





end
